(* ===== verification/Prelude.thy ===== *)
theory Prelude
  imports Main "HOL-Library.Char_ord" "HOL-Library.List_Lexorder"
begin

text \<open>
  Shared vocabulary of the development: the collections of simplification rules, the
  representation of Go maps by key-sorted association lists, byte-string helpers
  (splitting on newlines, little-endian integers) and Go's fixed-width integer
  conversions.

  Go strings and byte slices are HOL strings: lists of 8-bit characters, ordered
  bytewise.  A Go map is a list of pairs with strictly ascending keys, so that two maps
  with the same bindings are equal and iteration order is the ascending one (the order
  \<^verbatim>\<open>encoding/json\<close> marshals them in).
\<close>

named_theorems omap_simps \<open>lookup, insertion and deletion on key-sorted maps\<close>
named_theorems line_simps \<open>splitting byte strings into newline-terminated lines\<close>

section \<open>Go maps as key-sorted association lists\<close>

type_synonym ('k, 'v) omap = "('k \<times> 'v) list"

definition om_ok :: "('k::linorder, 'v) omap \<Rightarrow> bool" where
  "om_ok m \<longleftrightarrow> sorted_wrt (<) (map fst m)"

fun om_ins :: "'k::linorder \<Rightarrow> 'v \<Rightarrow> ('k, 'v) omap \<Rightarrow> ('k, 'v) omap" where
  "om_ins k v [] = [(k, v)]"
| "om_ins k v ((k', v') # m) =
     (if k < k' then (k, v) # (k', v') # m
      else if k = k' then (k, v) # m
      else (k', v') # om_ins k v m)"

fun om_del :: "'k \<Rightarrow> ('k, 'v) omap \<Rightarrow> ('k, 'v) omap" where
  "om_del k [] = []"
| "om_del k ((k', v') # m) = (if k = k' then m else (k', v') # om_del k m)"

definition om_of :: "('k::linorder \<times> 'v) list \<Rightarrow> ('k, 'v) omap" where
  "om_of kvs = fold (\<lambda>(k, v). om_ins k v) kvs []"

abbreviation om_keys :: "('k, 'v) omap \<Rightarrow> 'k list" where
  "om_keys m \<equiv> map fst m"

lemma om_ok_Nil [simp]: "om_ok []"
  by (simp add: om_ok_def)

lemma om_ok_Cons: "om_ok (kv # m) \<longleftrightarrow> (\<forall>k\<in>fst ` set m. fst kv < k) \<and> om_ok m"
  by (auto simp: om_ok_def)

lemma om_ok_distinct: "om_ok m \<Longrightarrow> distinct (map fst m)"
  by (simp add: om_ok_def strict_sorted_iff)

lemma fst_set_om_ins [simp]: "fst ` set (om_ins k v m) = insert k (fst ` set m)"
  by (induction k v m rule: om_ins.induct) auto

lemma om_ok_ins [simp]: "om_ok m \<Longrightarrow> om_ok (om_ins k v m)"
  by (induction k v m rule: om_ins.induct) (auto simp: om_ok_Cons)

lemma fst_set_om_del_subset: "fst ` set (om_del k m) \<subseteq> fst ` set m"
  by (induction k m rule: om_del.induct) auto

lemma om_ok_del [simp]: "om_ok m \<Longrightarrow> om_ok (om_del k m)"
  by (induction k m rule: om_del.induct)
    (use fst_set_om_del_subset in \<open>fastforce simp: om_ok_Cons\<close>)+

lemma map_of_om_ins [omap_simps]:
  "om_ok m \<Longrightarrow> map_of (om_ins k v m) = (map_of m)(k \<mapsto> v)"
proof (induction k v m rule: om_ins.induct)
  case (2 k v k' v' m)
  then show ?case by (auto simp: om_ok_Cons fun_eq_iff)
qed simp

lemma map_of_notin: "k \<notin> fst ` set m \<Longrightarrow> map_of m k = None"
  by (simp add: map_of_eq_None_iff)

lemma map_of_om_del [omap_simps]:
  "om_ok m \<Longrightarrow> map_of (om_del k m) = (map_of m)(k := None)"
proof (induction k m rule: om_del.induct)
  case (2 k k' v' m)
  then show ?case by (force simp: om_ok_Cons fun_eq_iff map_of_eq_None_iff)
qed simp

lemma om_ext:
  assumes "om_ok a" "om_ok b" "map_of a = map_of b"
  shows "a = b"
  using assms
proof (induction a arbitrary: b)
  case Nil
  then show ?case by (cases b) (auto simp: fun_eq_iff split: if_splits)
next
  case (Cons x a)
  obtain k v where x: "x = (k, v)" by force
  from Cons.prems(3) have kb: "map_of b k = Some v"
    by (metis x map_of_Cons_code(2))
  then obtain y b' where b: "b = y # b'" by (cases b) auto
  obtain k' v' where y: "y = (k', v')" by force
  have "map_of (x # a) k' = Some v'" by (simp only: Cons.prems(3) b y) simp
  then have "\<not> k' < k" using Cons.prems(1) map_of_SomeD
    by (fastforce simp: x om_ok_Cons split: if_splits)
  moreover have "\<not> k < k'" using kb Cons.prems(2) map_of_SomeD
    by (fastforce simp: b y om_ok_Cons split: if_splits)
  ultimately have kk: "k = k'" by simp
  then have vv: "v = v'" using kb by (simp add: b y)
  have "map_of a = map_of b'"
  proof
    fix z
    have "k \<notin> fst ` set a" "k \<notin> fst ` set b'"
      using Cons.prems(1,2) kk by (auto simp: x b y om_ok_Cons)
    then show "map_of a z = map_of b' z"
      using fun_cong [OF Cons.prems(3), of z] kk
      by (cases "z = k") (auto simp: x b y map_of_notin)
  qed
  with Cons.IH [of b'] Cons.prems(1,2) show ?case
    by (simp add: x b y kk vv om_ok_Cons)
qed

lemma om_ok_fold_ins [simp]:
  "om_ok m \<Longrightarrow> om_ok (fold (\<lambda>(k, v). om_ins k v) kvs m)"
  by (induction kvs arbitrary: m) (auto split: prod.splits)

lemma om_ok_of [simp]: "om_ok (om_of kvs)"
  by (simp add: om_of_def)

lemma om_ins_last:
  "\<forall>k'\<in>fst ` set m. k' < k \<Longrightarrow> om_ins k v m = m @ [(k, v)]"
  by (induction k v m rule: om_ins.induct) auto

lemma fold_om_ins_sorted:
  "om_ok (m @ kvs) \<Longrightarrow> fold (\<lambda>(k, v). om_ins k v) kvs m = m @ kvs"
proof (induction kvs arbitrary: m)
  case (Cons kv kvs)
  have "om_ins (fst kv) (snd kv) m = m @ [kv]"
    using Cons.prems by (subst om_ins_last) (auto simp: om_ok_def sorted_wrt_append)
  with Cons.IH [of "m @ [kv]"] Cons.prems show ?case
    by (cases kv) simp
qed simp

lemma om_of_sorted: "om_ok m \<Longrightarrow> om_of m = m"
  using fold_om_ins_sorted [of "[]" m] by (simp add: om_of_def)

lemma om_del_notin: "k \<notin> fst ` set m \<Longrightarrow> om_del k m = m"
  by (induction k m rule: om_del.induct) auto

lemma length_om_ins:
  "om_ok m \<Longrightarrow> length (om_ins k v m) = (if k \<in> fst ` set m then length m else Suc (length m))"
  by (induction k v m rule: om_ins.induct) (auto simp: om_ok_Cons)

lemma length_om_del:
  "length (om_del k m) = (if k \<in> fst ` set m then length m - 1 else length m)"
proof (induction k m rule: om_del.induct)
  case (2 k k' v' m)
  then show ?case by (cases m) auto
qed simp

section \<open>Byte strings\<close>

abbreviation NL :: char where
  "NL \<equiv> CHR 0x0A"

text \<open>The complete lines of a byte string, without their newline, and the unterminated rest.\<close>

fun split_nl :: "string \<Rightarrow> string list \<times> string" where
  "split_nl [] = ([], [])"
| "split_nl (c # cs) =
     (case split_nl cs of
        (ls, r) \<Rightarrow>
          if c = NL then ([] # ls, r)
          else (case ls of [] \<Rightarrow> ([], c # r) | l # ls' \<Rightarrow> ((c # l) # ls', r)))"

definition join_nl :: "string list \<Rightarrow> string" where
  "join_nl ls = concat (map (\<lambda>l. l @ [NL]) ls)"

lemma join_nl_simps [line_simps]:
  "join_nl [] = []" "join_nl (l # ls) = l @ NL # join_nl ls"
  "join_nl (ls @ ls') = join_nl ls @ join_nl ls'"
  by (simp_all add: join_nl_def)

lemma split_nl_free [line_simps]: "NL \<notin> set r \<Longrightarrow> split_nl r = ([], r)"
  by (induction r) auto

lemma split_nl_line [line_simps]:
  "NL \<notin> set l \<Longrightarrow> split_nl (l @ NL # s) = (l # fst (split_nl s), snd (split_nl s))"
  by (induction l) (auto split: prod.splits)

lemma split_join_nl [line_simps]:
  "\<forall>l\<in>set ls. NL \<notin> set l \<Longrightarrow>
   split_nl (join_nl ls @ s) = (ls @ fst (split_nl s), snd (split_nl s))"
  by (induction ls) (auto simp: line_simps)

lemma join_split_nl: "join_nl (fst (split_nl s)) @ snd (split_nl s) = s"
  by (induction s) (auto simp: line_simps split: prod.splits list.splits)

lemma split_nl_rest_free: "NL \<notin> set (snd (split_nl s))"
  by (induction s) (auto split: prod.splits list.splits)

lemma split_nl_lines_free: "l \<in> set (fst (split_nl s)) \<Longrightarrow> NL \<notin> set l"
  by (induction s arbitrary: l) (auto split: prod.splits list.splits if_splits)

text \<open>\<open>binary.LittleEndian.PutUint64\<close> and friends: the \<open>k\<close> low bytes, least significant first.\<close>

fun le_bytes :: "nat \<Rightarrow> nat \<Rightarrow> string" where
  "le_bytes 0 n = []"
| "le_bytes (Suc k) n = char_of (n mod 256) # le_bytes k (n div 256)"

lemma length_le_bytes [simp]: "length (le_bytes k n) = k"
  by (induction k arbitrary: n) auto

section \<open>Fixed-width integers\<close>

text \<open>A \<open>uint64\<close> is a natural number below \<open>2 ^ 64\<close>, an \<open>int64\<close> an integer between
  \<open>-2 ^ 63\<close> and \<open>2 ^ 63 - 1\<close>; the conversions below are Go's wrap-around.\<close>

definition u64 :: "nat \<Rightarrow> nat" where
  "u64 n = n mod 2 ^ 64"

definition i64 :: "int \<Rightarrow> int" where
  "i64 x = (x + 2 ^ 63) mod 2 ^ 64 - 2 ^ 63"

definition u64_of_i64 :: "int \<Rightarrow> nat" where
  "u64_of_i64 x = nat (x mod 2 ^ 64)"

definition is_u64 :: "nat \<Rightarrow> bool" where
  "is_u64 n \<longleftrightarrow> n < 2 ^ 64"

definition is_i64 :: "int \<Rightarrow> bool" where
  "is_i64 x \<longleftrightarrow> - (2 ^ 63) \<le> x \<and> x < 2 ^ 63"

lemma u64_id [simp]: "is_u64 n \<Longrightarrow> u64 n = n"
  by (simp add: u64_def is_u64_def)

lemma is_u64_u64 [simp]: "is_u64 (u64 n)"
  by (simp add: u64_def is_u64_def)

lemma i64_id [simp]: "is_i64 x \<Longrightarrow> i64 x = x"
  by (simp add: i64_def is_i64_def)

lemma is_i64_i64 [simp]: "is_i64 (i64 x)"
  by (simp add: i64_def is_i64_def)

section \<open>Decimal numerals\<close>

fun digits_rev :: "nat \<Rightarrow> nat list" where
  "digits_rev n = (if n < 10 then [n] else n mod 10 # digits_rev (n div 10))"

declare digits_rev.simps [simp del]

definition digit_char :: "nat \<Rightarrow> char" where
  "digit_char d = char_of (48 + d)"

definition char_digit :: "char \<Rightarrow> nat" where
  "char_digit c = of_char c - 48"

definition is_digit :: "char \<Rightarrow> bool" where
  "is_digit c \<longleftrightarrow> CHR ''0'' \<le> c \<and> c \<le> CHR ''9''"

text \<open>\<open>strconv.FormatUint(n, 10)\<close> and the value of a run of digits.\<close>

definition show_nat :: "nat \<Rightarrow> string" where
  "show_nat n = map digit_char (rev (digits_rev n))"

definition read_nat :: "string \<Rightarrow> nat" where
  "read_nat s = foldl (\<lambda>n c. 10 * n + char_digit c) 0 s"

text \<open>The \<open>k\<close> low decimal digits, zero-padded, as in the \<open>%0kd\<close> verb on small numbers.\<close>

fun pad_nat :: "nat \<Rightarrow> nat \<Rightarrow> string" where
  "pad_nat 0 n = []"
| "pad_nat (Suc k) n = pad_nat k (n div 10) @ [digit_char (n mod 10)]"

lemma is_digit_iff: "is_digit c \<longleftrightarrow> 48 \<le> (of_char c :: nat) \<and> (of_char c :: nat) \<le> 57"
  by (simp add: is_digit_def less_eq_char_def)

lemma of_char_digit_char [simp]: "d < 10 \<Longrightarrow> of_char (digit_char d) = 48 + d"
  by (simp add: digit_char_def of_char_of)

lemma is_digit_digit_char [simp]: "d < 10 \<Longrightarrow> is_digit (digit_char d)"
  by (simp add: is_digit_iff)

lemma char_digit_digit_char [simp]: "d < 10 \<Longrightarrow> char_digit (digit_char d) = d"
  by (simp add: char_digit_def)

lemma digits_rev_lt10: "d \<in> set (digits_rev n) \<Longrightarrow> d < 10"
  by (induction n rule: digits_rev.induct) (subst (asm) (2) digits_rev.simps, auto split: if_splits)

lemma digits_rev_nonempty [simp]: "digits_rev n \<noteq> []"
  by (subst digits_rev.simps) simp

lemma show_nat_nonempty [simp]: "show_nat n \<noteq> []"
  by (simp add: show_nat_def)

lemma show_nat_digits: "list_all is_digit (show_nat n)"
  using digits_rev_lt10 by (auto simp: show_nat_def list_all_iff)

lemma read_nat_append: "read_nat (s @ [c]) = 10 * read_nat s + char_digit c"
  by (simp add: read_nat_def)

lemma read_nat_rev_digits:
  "read_nat (map digit_char (rev (digits_rev n))) = n"
proof (induction n rule: digits_rev.induct)
  case (1 n)
  then show ?case
    by (subst digits_rev.simps) (auto simp: read_nat_append, simp add: read_nat_def)
qed

lemma read_show_nat [simp]: "read_nat (show_nat n) = n"
  by (simp add: show_nat_def read_nat_rev_digits)

lemma last_digits_rev: "n \<noteq> 0 \<Longrightarrow> last (digits_rev n) \<noteq> 0"
proof (induction n rule: digits_rev.induct)
  case (1 n)
  then show ?case
    by (subst digits_rev.simps) (auto simp: div_greater_zero_iff)
qed

lemma length_pad_nat [simp]: "length (pad_nat k n) = k"
  by (induction k arbitrary: n) auto

lemma pad_nat_digits: "list_all is_digit (pad_nat k n)"
  by (induction k arbitrary: n) auto

lemma read_pad_nat: "read_nat (pad_nat k n) = n mod 10 ^ k"
proof (induction k arbitrary: n)
  case (Suc k)
  have "10 * (n div 10 mod 10 ^ k) + n mod 10 = n mod 10 ^ Suc k"
    by (simp add: mod_mult2_eq)
  with Suc show ?case by (simp add: read_nat_append)
qed (simp add: read_nat_def)

section \<open>Binary search and sorting\<close>

text \<open>\<open>sort.Search\<close>: the least index in \<open>[0, n)\<close> at which a monotone predicate holds, or \<open>n\<close>.\<close>

function search_from :: "(nat \<Rightarrow> bool) \<Rightarrow> nat \<Rightarrow> nat \<Rightarrow> nat" where
  "search_from f i j =
     (if i < j then
        (let h = (i + j) div 2 in if f h then search_from f i h else search_from f (h + 1) j)
      else i)"
  by pat_completeness auto
termination
  by (relation "measure (\<lambda>(f, i, j). j - i)") auto

declare search_from.simps [simp del]

definition go_search :: "nat \<Rightarrow> (nat \<Rightarrow> bool) \<Rightarrow> nat" where
  "go_search n f = search_from f 0 n"

lemma search_from_correct:
  assumes mono: "\<And>a b. a \<le> b \<Longrightarrow> b < n \<Longrightarrow> f a \<Longrightarrow> f b"
    and "i \<le> j" "j \<le> n" "\<And>a. a < i \<Longrightarrow> \<not> f a" "\<And>a. j \<le> a \<Longrightarrow> a < n \<Longrightarrow> f a"
  shows "i \<le> search_from f i j \<and> search_from f i j \<le> j
    \<and> (\<forall>a<search_from f i j. \<not> f a) \<and> (\<forall>a. search_from f i j \<le> a \<longrightarrow> a < n \<longrightarrow> f a)"
  using assms(2-)
proof (induction "j - i" arbitrary: i j rule: less_induct)
  case less
  define h where "h = (i + j) div 2"
  consider (stop) "\<not> i < j" | (low) "i < j" "f h" | (high) "i < j" "\<not> f h" by blast
  then show ?case
  proof cases
    case stop
    then have "search_from f i j = i" by (subst search_from.simps) simp
    then show ?thesis using stop less.prems by auto
  next
    case low
    have e: "search_from f i j = search_from f i h"
      using low by (subst search_from.simps) (simp add: h_def Let_def)
    have h: "i \<le> h" "h < j" using low by (auto simp: h_def)
    have "f a" if "h \<le> a" "a < n" for a using mono [OF that low(2)] .
    then have "i \<le> search_from f i h \<and> search_from f i h \<le> h
      \<and> (\<forall>a<search_from f i h. \<not> f a) \<and> (\<forall>a. search_from f i h \<le> a \<longrightarrow> a < n \<longrightarrow> f a)"
      using less.prems(2,3) h by (intro less.hyps) auto
    then show ?thesis unfolding e using h by auto
  next
    case high
    have e: "search_from f i j = search_from f (h + 1) j"
      using high by (subst search_from.simps) (simp add: h_def Let_def)
    have h: "i \<le> h" "h < j" using high by (auto simp: h_def)
    have "\<not> f a" if "a < h + 1" for a using mono [of a h] high(2) that h less.prems(2) by auto
    then have "h + 1 \<le> search_from f (h + 1) j \<and> search_from f (h + 1) j \<le> j
      \<and> (\<forall>a<search_from f (h + 1) j. \<not> f a) \<and> (\<forall>a. search_from f (h + 1) j \<le> a \<longrightarrow> a < n \<longrightarrow> f a)"
      using less.prems(2,4) h by (intro less.hyps) auto
    then show ?thesis unfolding e using h by auto
  qed
qed

lemma go_search_correct:
  assumes "\<And>a b. a \<le> b \<Longrightarrow> b < n \<Longrightarrow> f a \<Longrightarrow> f b"
  shows "go_search n f \<le> n" "a < go_search n f \<Longrightarrow> \<not> f a" "go_search n f \<le> a \<Longrightarrow> a < n \<Longrightarrow> f a"
  using search_from_correct [of n f 0 n] assms by (auto simp: go_search_def)

text \<open>\<open>sort.Slice\<close> under a strict total order on the elements present.\<close>

fun insort_by :: "('a \<Rightarrow> 'a \<Rightarrow> bool) \<Rightarrow> 'a \<Rightarrow> 'a list \<Rightarrow> 'a list" where
  "insort_by lt x [] = [x]"
| "insort_by lt x (y # ys) = (if lt y x then y # insort_by lt x ys else x # y # ys)"

definition sort_by :: "('a \<Rightarrow> 'a \<Rightarrow> bool) \<Rightarrow> 'a list \<Rightarrow> 'a list" where
  "sort_by lt xs = foldr (insort_by lt) xs []"

lemma set_insort_by [simp]: "set (insort_by lt x ys) = insert x (set ys)"
  by (induction ys) auto

lemma set_sort_by [simp]: "set (sort_by lt xs) = set xs"
  by (induction xs) (auto simp: sort_by_def)

lemma sorted_insort_by:
  assumes "transp_on S lt" "totalp_on S lt" "x \<in> S" "set ys \<subseteq> S" "x \<notin> set ys" "sorted_wrt lt ys"
  shows "sorted_wrt lt (insort_by lt x ys)"
  using assms(4-)
proof (induction ys)
  case (Cons y ys)
  show ?case
  proof (cases "lt y x")
    case True
    then show ?thesis using Cons by auto
  next
    case False
    then have xy: "lt x y" using assms(2,3) Cons.prems by (auto simp: totalp_on_def)
    have "lt x z" if "z \<in> set ys" for z
      using transp_onD [OF assms(1), of x y z] assms(3) Cons.prems that xy by auto
    then show ?thesis using False xy Cons.prems by simp
  qed
qed simp

lemma sorted_sort_by:
  assumes "transp_on S lt" "totalp_on S lt" "set xs \<subseteq> S" "distinct xs"
  shows "sorted_wrt lt (sort_by lt xs)"
  using assms(3-)
proof (induction xs)
  case (Cons x xs)
  then have "sorted_wrt lt (insort_by lt x (sort_by lt xs))"
    by (intro sorted_insort_by [OF assms(1,2)]) auto
  then show ?case by (simp add: sort_by_def)
qed (simp add: sort_by_def)

text \<open>Two lists sorted by the same irreflexive transitive order are equal when they have the
  same elements.\<close>

lemma sorted_wrt_unique:
  assumes "asymp_on S lt" "set xs \<subseteq> S" "sorted_wrt lt xs" "sorted_wrt lt ys" "set xs = set ys"
  shows "xs = ys"
  using assms(2-)
proof (induction xs arbitrary: ys)
  case (Cons x xs)
  then obtain y ys' where ys: "ys = y # ys'" by (cases ys) auto
  have S: "x \<in> S" "y \<in> S" "set xs \<subseteq> S" using Cons.prems by (auto simp: ys)
  have xy: "x = y"
  proof (rule ccontr)
    assume "x \<noteq> y"
    then have "y \<in> set xs" "x \<in> set ys'" using Cons.prems(4) by (auto simp: ys)
    then have "lt x y" "lt y x" using Cons.prems(2,3) by (auto simp: ys)
    then show False using asymp_onD [OF assms(1) S(1,2)] by blast
  qed
  have "\<not> lt x x" using asymp_onD [OF assms(1) S(1,1)] by blast
  then have "x \<notin> set xs" "x \<notin> set ys'" using Cons.prems(2,3) xy by (auto simp: ys)
  then have "set xs = set ys'" using Cons.prems(4) xy by (auto simp: ys)
  then have "xs = ys'" using Cons.prems(2,3) S(3) by (intro Cons.IH) (auto simp: ys)
  then show ?case by (simp add: ys xy)
qed simp

end
