(* ===== verification/Float64.thy ===== *)
theory Float64
  imports Prelude
begin

text \<open>
  Go's \<open>float64\<close> values as the engine sees them: what \<open>encoding/json\<close> reads, what
  \<open>strconv\<close> and \<open>fmt\<close> print, and how \<open><\<close> and \<open>==\<close> compare.

  A finite value is represented by the shortest decimal that reads back as it, which is
  unique for every double: a sign, a coefficient without trailing zeros and a power of
  ten.  Reading a literal rounds it to the nearest double (half to even, 53 bits,
  gradual underflow) and then takes the shortest decimal of that double, so every
  function below is exact integer arithmetic.
\<close>

section \<open>Values\<close>

text \<open>\<open>Dec neg c e\<close> is the number \<open>(-1) ^ neg * c * 10 ^ e\<close>.\<close>

datatype dec = Dec (dneg: bool) (dcoef: nat) (dexp: int)

datatype float64 = FNaN | FInf bool | FFin dec

fun strip_zeros :: "nat \<Rightarrow> nat \<Rightarrow> int \<Rightarrow> nat \<times> int" where
  "strip_zeros 0 c e = (c, e)"
| "strip_zeros (Suc n) c e =
     (if c = 0 then (0, 0) else if c mod 10 = 0 then strip_zeros n (c div 10) (e + 1) else (c, e))"

text \<open>A coefficient of \<open>c\<close> has at most \<open>c\<close> trailing zeros, so \<open>c\<close> steps strip them all; the
  bound used is its number of decimal digits.\<close>

definition mk_dec :: "bool \<Rightarrow> nat \<Rightarrow> int \<Rightarrow> dec" where
  "mk_dec s c e = (case strip_zeros (length (digits_rev c)) c e of (c', e') \<Rightarrow> Dec s c' e')"

section \<open>Rounding to the nearest double\<close>

fun bitlen :: "nat \<Rightarrow> nat" where
  "bitlen n = (if n = 0 then 0 else Suc (bitlen (n div 2)))"

declare bitlen.simps [simp del]

text \<open>The quotient \<open>n / d\<close> rounded to an integer, ties to even.\<close>

definition round_half_even :: "nat \<Rightarrow> nat \<Rightarrow> nat" where
  "round_half_even n d =
     (let q = n div d; r = n mod d in
      if 2 * r < d then q else if 2 * r > d then q + 1 else if even q then q else q + 1)"

text \<open>\<open>scale b (n, d) k\<close> is the fraction \<open>n / d\<close> divided by \<open>b ^ k\<close>.\<close>

definition scale :: "nat \<Rightarrow> nat \<times> nat \<Rightarrow> int \<Rightarrow> nat \<times> nat" where
  "scale b nd k =
     (if k \<ge> 0 then (fst nd, snd nd * b ^ nat k) else (fst nd * b ^ nat (- k), snd nd))"

text \<open>The double nearest to the positive fraction \<open>n / d\<close>, as \<open>m * 2 ^ q\<close>; \<open>None\<close> when it
  overflows.\<close>

definition nearest :: "nat \<times> nat \<Rightarrow> (nat \<times> int) option" where
  "nearest nd =
     (if fst nd = 0 then Some (0, -1074) else
      let l = int (bitlen (fst nd)) - int (bitlen (snd nd));
          s = scale 2 nd l;
          lg = (if fst s \<ge> snd s then l else l - 1);
          q = max (-1074) (lg - 52);
          t = scale 2 nd q;
          m = round_half_even (fst t) (snd t);
          mq = (if m = 2 ^ 53 then (2 ^ 52, q + 1) else (m, q))
      in if snd mq > 971 then None else Some mq)"

definition frac_of :: "nat \<Rightarrow> int \<Rightarrow> nat \<times> nat" where
  "frac_of c e = scale 10 (c, 1) (- e)"

section \<open>The shortest decimal of a double\<close>

text \<open>Whether the double \<open>mq\<close> is the one nearest to \<open>c * 10 ^ e\<close>.\<close>

definition reads_as :: "nat \<times> int \<Rightarrow> nat \<Rightarrow> int \<Rightarrow> bool" where
  "reads_as mq c e \<longleftrightarrow> nearest (frac_of c e) = Some mq"

text \<open>The candidates with \<open>n\<close> digits below and above the fraction \<open>v\<close> whose leading decimal
  digit has weight \<open>10 ^ x\<close>; the closer one when both read back.\<close>

definition shortest_at :: "nat \<times> int \<Rightarrow> nat \<times> nat \<Rightarrow> int \<Rightarrow> nat \<Rightarrow> (nat \<times> int) option" where
  "shortest_at mq v x n =
     (let e = x - int n + 1;
          t = scale 10 v e;
          lo = fst t div snd t;
          down = reads_as mq lo e;
          up = reads_as mq (lo + 1) e
      in if fst t mod snd t = 0 \<and> down then Some (lo, e)
         else if down \<and> up then Some (round_half_even (fst t) (snd t), e)
         else if down then Some (lo, e)
         else if up then Some (lo + 1, e)
         else None)"

fun shortest_search :: "nat \<times> int \<Rightarrow> nat \<times> nat \<Rightarrow> int \<Rightarrow> nat \<Rightarrow> nat \<Rightarrow> nat \<times> int" where
  "shortest_search mq v x n 0 =
     (let e = x - int n + 1; t = scale 10 v e in (fst t div snd t, e))"
| "shortest_search mq v x n (Suc k) =
     (case shortest_at mq v x n of Some ce \<Rightarrow> ce | None \<Rightarrow> shortest_search mq v x (n + 1) k)"

text \<open>Seventeen significant digits identify every double, so the search ends by then.\<close>

definition shortest :: "nat \<times> int \<Rightarrow> nat \<times> int" where
  "shortest mq =
     (if fst mq = 0 then (0, 0) else
      let v = scale 2 (fst mq, 1) (- snd mq);
          l = int (length (digits_rev (fst v))) - int (length (digits_rev (snd v)));
          s = scale 10 v l;
          x = (if fst s \<ge> snd s then l else l - 1)
      in shortest_search mq v x 1 17)"

text \<open>\<open>strconv.ParseFloat\<close> on the decimal \<open>d\<close>: \<open>None\<close> is the range error.\<close>

definition round64 :: "dec \<Rightarrow> dec option" where
  "round64 d =
     map_option (\<lambda>mq. case shortest mq of (c, e) \<Rightarrow> mk_dec (dneg d) c e)
       (nearest (frac_of (dcoef d) (dexp d)))"

text \<open>The decimals that stand for doubles.\<close>

definition is_f64 :: "dec \<Rightarrow> bool" where
  "is_f64 d \<longleftrightarrow> round64 d = Some d"

section \<open>Comparison\<close>

definition dec_int :: "dec \<Rightarrow> int \<Rightarrow> int" where
  "dec_int d e0 = (if dneg d then -1 else 1) * int (dcoef d) * 10 ^ nat (dexp d - e0)"

definition dec_less :: "dec \<Rightarrow> dec \<Rightarrow> bool" where
  "dec_less a b = (let e0 = min (dexp a) (dexp b) in dec_int a e0 < dec_int b e0)"

definition dec_eq :: "dec \<Rightarrow> dec \<Rightarrow> bool" where
  "dec_eq a b = (let e0 = min (dexp a) (dexp b) in dec_int a e0 = dec_int b e0)"

fun f_less :: "float64 \<Rightarrow> float64 \<Rightarrow> bool" where
  "f_less FNaN _ = False"
| "f_less _ FNaN = False"
| "f_less (FInf s) (FInf t) = (s \<and> \<not> t)"
| "f_less (FInf s) (FFin _) = s"
| "f_less (FFin _) (FInf t) = (\<not> t)"
| "f_less (FFin a) (FFin b) = dec_less a b"

fun f_eq :: "float64 \<Rightarrow> float64 \<Rightarrow> bool" where
  "f_eq FNaN _ = False"
| "f_eq _ FNaN = False"
| "f_eq (FInf s) (FInf t) = (s = t)"
| "f_eq (FFin a) (FFin b) = dec_eq a b"
| "f_eq _ _ = False"

section \<open>Number literals\<close>

text \<open>A JSON number literal: sign, integer digits, fraction digits and exponent (its sign and
  digits).\<close>

datatype numlit = Lit (lneg: bool) (lint: string) (lfrac: "string option") (lexp: "(bool \<times> string) option")

definition sign_str :: "bool \<Rightarrow> string" where
  "sign_str s = (if s then ''-'' else [])"

fun print_lit :: "numlit \<Rightarrow> string" where
  "print_lit (Lit s ip fp ex) =
     sign_str s @ ip @ (case fp of None \<Rightarrow> [] | Some f \<Rightarrow> ''.'' @ f)
     @ (case ex of None \<Rightarrow> [] | Some (es, ds) \<Rightarrow> ''e'' @ (if es then ''-'' else ''+'') @ ds)"

text \<open>The decimal a literal denotes, and \<open>strconv.ParseFloat\<close> on it.\<close>

fun lit_dec :: "numlit \<Rightarrow> dec" where
  "lit_dec (Lit s ip fp ex) =
     (let f = (case fp of None \<Rightarrow> [] | Some f \<Rightarrow> f);
          x = (case ex of None \<Rightarrow> 0 | Some (es, ds) \<Rightarrow> (if es then -1 else 1) * int (read_nat ds))
      in mk_dec s (read_nat (ip @ f)) (x - int (length f)))"

definition parse_float :: "numlit \<Rightarrow> float64 option" where
  "parse_float l = map_option FFin (round64 (lit_dec l))"

text \<open>The position of the decimal point relative to the coefficient's first digit, as in
  \<open>strconv\<close>'s \<open>decimalSlice\<close>.\<close>

definition dec_point :: "dec \<Rightarrow> int" where
  "dec_point d = (if dcoef d = 0 then 0 else int (length (show_nat (dcoef d))) + dexp d)"

text \<open>Format \<open>%f\<close> with the shortest digits.\<close>

definition fmt_f :: "dec \<Rightarrow> numlit" where
  "fmt_f d =
     (let ds = show_nat (dcoef d) in
      if dexp d \<ge> 0 then
        Lit (dneg d) (if dcoef d = 0 then ''0'' else ds @ replicate (nat (dexp d)) CHR ''0'') None None
      else let k = nat (- dexp d) in
        if k < length ds then Lit (dneg d) (take (length ds - k) ds) (Some (drop (length ds - k) ds)) None
        else Lit (dneg d) ''0'' (Some (replicate (k - length ds) CHR ''0'' @ ds)) None)"

text \<open>Format \<open>%e\<close> with the shortest digits; the exponent has at least two digits, except that
  \<open>encoding/json\<close> (\<open>wide\<close> false) drops the leading zero of a negative one.\<close>

definition fmt_e :: "bool \<Rightarrow> dec \<Rightarrow> numlit" where
  "fmt_e wide d =
     (let ds = show_nat (dcoef d);
          x = dec_point d - 1;
          es = show_nat (nat (abs x))
      in Lit (dneg d) (take 1 ds) (if length ds > 1 then Some (drop 1 ds) else None)
           (Some (x < 0, if length es < 2 \<and> (wide \<or> x \<ge> 0) then ''0'' @ es else es)))"

text \<open>\<open>fmt.Sprintf("%v", f)\<close>, that is \<open>%g\<close> with the shortest digits, which switches to the
  exponent form when the exponent is below \<open>-4\<close> or at least \<open>6\<close>.\<close>

definition fmt_g :: "dec \<Rightarrow> string" where
  "fmt_g d =
     print_lit (if dcoef d \<noteq> 0 \<and> (dec_point d - 1 < -4 \<or> dec_point d - 1 \<ge> 6)
       then fmt_e True d else fmt_f d)"

definition fmt_v :: "float64 \<Rightarrow> string" where
  "fmt_v f = (case f of
     FNaN \<Rightarrow> ''NaN'' | FInf s \<Rightarrow> (if s then ''-Inf'' else ''+Inf'') | FFin d \<Rightarrow> fmt_g d)"

text \<open>\<open>encoding/json\<close>'s \<open>floatEncoder\<close>: \<open>None\<close> is the \<open>UnsupportedValueError\<close>.\<close>

definition fmt_json :: "float64 \<Rightarrow> numlit option" where
  "fmt_json f = (case f of
     FFin d \<Rightarrow>
       Some (if dcoef d \<noteq> 0 \<and> (dec_point d - 1 < -6 \<or> dec_point d - 1 \<ge> 21)
         then fmt_e False d else fmt_f d)
   | _ \<Rightarrow> None)"

section \<open>Literals read back\<close>

text \<open>The coefficient of a canonical decimal has no trailing zero.\<close>

definition canon :: "dec \<Rightarrow> bool" where
  "canon d \<longleftrightarrow> (if dcoef d = 0 then dexp d = 0 else dcoef d mod 10 \<noteq> 0)"

lemma strip_zeros_canon:
  "c < 10 ^ n \<Longrightarrow> c \<noteq> 0 \<Longrightarrow> fst (strip_zeros n c e) mod 10 \<noteq> 0"
  by (induction n c e rule: strip_zeros.induct) auto

lemma digits_bound: "c < 10 ^ length (digits_rev c)"
proof (induction c rule: digits_rev.induct)
  case (1 n)
  show ?case
  proof (cases "n < 10")
    case False
    with 1 have "n div 10 + 1 \<le> 10 ^ length (digits_rev (n div 10))" by simp
    then have "10 * (n div 10) + 10 \<le> 10 ^ Suc (length (digits_rev (n div 10)))" by simp
    with False show ?thesis by (subst digits_rev.simps) simp
  qed (subst digits_rev.simps, simp)
qed

lemma strip_zeros_0: "strip_zeros (length (digits_rev 0)) 0 e = (0, 0)"
  by (subst digits_rev.simps) simp

lemma canon_mk_dec [simp]: "canon (mk_dec s c e)"
  using strip_zeros_canon [OF digits_bound, of c e] strip_zeros_0 [of e]
  by (cases "c = 0") (auto simp: mk_dec_def canon_def split: prod.splits)

lemma canon_f64: "is_f64 d \<Longrightarrow> canon d"
proof -
  assume "is_f64 d"
  then obtain mq where "d = (case shortest mq of (c, e) \<Rightarrow> mk_dec (dneg d) c e)"
    unfolding is_f64_def round64_def by (metis (no_types, lifting) map_option_eq_Some)
  then show ?thesis by (metis canon_mk_dec case_prod_beta)
qed

lemma strip_zeros_shift:
  "c mod 10 \<noteq> 0 \<Longrightarrow> k \<le> n \<Longrightarrow> strip_zeros n (c * 10 ^ k) e = (c, e + int k)"
proof (induction k arbitrary: n e)
  case 0
  then show ?case by (cases n) (auto split: if_splits)
next
  case (Suc k)
  from Suc.prems obtain m where n: "n = Suc m" and "k \<le> m" by (cases n) auto
  have "c * 10 ^ Suc k div 10 = c * 10 ^ k" by simp
  with Suc.IH [of m "e + 1"] Suc.prems \<open>k \<le> m\<close> show ?case by (auto simp: n)
qed

lemma pow_le_digits: "10 ^ k \<le> c \<Longrightarrow> k \<le> length (digits_rev c)"
  using digits_bound [of c]
  by (metis le_less_trans less_imp_le_nat one_less_numeral_iff power_less_imp_less_exp semiring_norm(76))

lemma mk_dec_shift:
  "canon d \<Longrightarrow> mk_dec (dneg d) (dcoef d * 10 ^ k) (dexp d - int k) = (if dcoef d = 0 then Dec (dneg d) 0 0 else d)"
proof (cases "dcoef d = 0")
  case True
  then show ?thesis by (simp add: mk_dec_def strip_zeros_0)
next
  case False
  assume "canon d"
  with False have "dcoef d mod 10 \<noteq> 0" by (simp add: canon_def)
  moreover have "k \<le> length (digits_rev (dcoef d * 10 ^ k))"
    using False by (intro pow_le_digits) simp
  ultimately show ?thesis using False by (simp add: mk_dec_def strip_zeros_shift)
qed

lemma read_nat_app: "read_nat (a @ b) = read_nat a * 10 ^ length b + read_nat b"
  by (induction b rule: rev_induct)
    (auto simp: read_nat_append simp flip: append_assoc, simp add: read_nat_def)

lemma read_nat_zeros [simp]: "read_nat (replicate k CHR ''0'') = 0"
  by (induction k) (auto simp: read_nat_def char_digit_def)

lemma lit_dec_fmt_f: "canon d \<Longrightarrow> lit_dec (fmt_f d) = d"
proof -
  assume c: "canon d"
  consider (zero) "dcoef d = 0" | (int) "dcoef d \<noteq> 0" "dexp d \<ge> 0" | (frac) "dcoef d \<noteq> 0" "dexp d < 0"
    by linarith
  then show ?thesis
  proof cases
    case zero
    with c have "dexp d = 0" by (simp add: canon_def)
    with zero show ?thesis
      by (cases d) (simp add: fmt_f_def read_nat_def char_digit_def mk_dec_def digits_rev.simps)
  next
    case int
    then show ?thesis
      using mk_dec_shift [OF c, of "nat (dexp d)"]
      by (simp add: fmt_f_def Let_def read_nat_app read_nat_def [of "[]"])
  next
    case frac
    define ds where "ds = show_nat (dcoef d)"
    have "read_nat ds = dcoef d" by (simp add: ds_def)
    moreover have "read_nat (CHR ''0'' # replicate k CHR ''0'' @ ds) = read_nat ds" for k
      using read_nat_app [of "replicate (Suc k) CHR ''0''" ds] read_nat_zeros [of "Suc k"] by simp
    ultimately show ?thesis
      using frac mk_dec_shift [OF c, of 0]
      by (simp add: fmt_f_def Let_def flip: ds_def)
  qed
qed

lemma lit_dec_fmt_e: "canon d \<Longrightarrow> dcoef d \<noteq> 0 \<Longrightarrow> lit_dec (fmt_e w d) = d"
proof -
  assume c: "canon d" and nz: "dcoef d \<noteq> 0"
  define ds where "ds = show_nat (dcoef d)"
  have r: "read_nat ds = dcoef d" and ne: "ds \<noteq> []" by (simp_all add: ds_def)
  have z: "read_nat (CHR ''0'' # s) = read_nat s" for s
    by (simp add: read_nat_def char_digit_def)
  have "take 1 ds @ (case if length ds > 1 then Some (drop 1 ds) else None of None \<Rightarrow> [] | Some f \<Rightarrow> f) = ds"
    using ne by (cases ds) auto
  moreover have "int (length (case if length ds > 1 then Some (drop 1 ds) else None of None \<Rightarrow> [] | Some f \<Rightarrow> f))
      = int (length ds) - 1"
    using ne by (cases ds) (auto simp: of_nat_diff)
  ultimately show ?thesis
    using mk_dec_shift [OF c, of 0] nz r
    by (auto simp: fmt_e_def Let_def z dec_point_def simp flip: ds_def)
qed

lemma lit_dec_fmt_json: "canon d \<Longrightarrow> fmt_json (FFin d) = Some l \<Longrightarrow> lit_dec l = d"
  by (auto simp: fmt_json_def lit_dec_fmt_f lit_dec_fmt_e split: if_splits)

text \<open>A number written by \<open>encoding/json\<close> reads back as itself.\<close>

lemma parse_float_fmt_json:
  "is_f64 d \<Longrightarrow> fmt_json (FFin d) = Some l \<Longrightarrow> parse_float l = Some (FFin d)"
  using lit_dec_fmt_json [of d l] canon_f64 [of d] by (simp add: parse_float_def is_f64_def)

end
