(* ===== verification/Json.thy ===== *)
theory Json
  imports Float64
begin

text \<open>
  \<open>encoding/json\<close> as the engine uses it: the compact printer of \<open>json.Marshal\<close> (sorted
  object keys, HTML-safe escaping, invalid UTF-8 replaced), the parser behind
  \<open>json.Unmarshal\<close> (whitespace, escapes, surrogate pairs, the nesting limit of 10000),
  and the conversion between parsed text and the values Go stores in an \<open>any\<close>.

  The main fact is the round trip: parsing a printed value returns it.
\<close>

section \<open>Syntax trees and values\<close>

datatype 'n json =
    JNull
  | JBool bool
  | JNum 'n
  | JStr string
  | JArr "'n json list"
  | JObj "(string \<times> 'n json) list"

text \<open>Parsed text keeps its number literals and its object members in order, duplicates
  included; a Go value has doubles and maps.\<close>

type_synonym jtext = "numlit json"
type_synonym gval = "float64 json"
type_synonym gmap = "(string, gval) omap"

section \<open>UTF-8\<close>

abbreviation byte :: "char \<Rightarrow> nat" where
  "byte c \<equiv> of_char c"

definition cont_byte :: "char \<Rightarrow> bool" where
  "cont_byte c \<longleftrightarrow> 128 \<le> byte c \<and> byte c \<le> 191"

text \<open>The length of the well-formed rune at the head of a byte string (\<open>utf8.DecodeRune\<close>), or
  0 when the bytes there are invalid.\<close>

fun rune_len :: "string \<Rightarrow> nat" where
  "rune_len [] = 0"
| "rune_len (a # s) =
     (let x = byte a in
      if x < 128 then 1
      else if 194 \<le> x \<and> x \<le> 223 then
        (case s of b # _ \<Rightarrow> if cont_byte b then 2 else 0 | [] \<Rightarrow> 0)
      else if 224 \<le> x \<and> x \<le> 239 then
        (case s of b # c # _ \<Rightarrow>
           if cont_byte b \<and> cont_byte c \<and> (x = 224 \<longrightarrow> 160 \<le> byte b) \<and> (x = 237 \<longrightarrow> byte b \<le> 159)
           then 3 else 0
         | _ \<Rightarrow> 0)
      else if 240 \<le> x \<and> x \<le> 244 then
        (case s of b # c # d # _ \<Rightarrow>
           if cont_byte b \<and> cont_byte c \<and> cont_byte d \<and> (x = 240 \<longrightarrow> 144 \<le> byte b)
              \<and> (x = 244 \<longrightarrow> byte b \<le> 143)
           then 4 else 0
         | _ \<Rightarrow> 0)
      else 0)"

fun valid_utf8 :: "string \<Rightarrow> bool" where
  "valid_utf8 [] = True"
| "valid_utf8 (c # cs) = (rune_len (c # cs) \<noteq> 0 \<and> valid_utf8 (drop (rune_len (c # cs) - 1) cs))"

text \<open>\<open>utf8.AppendRune\<close> for code points up to \<open>0x10FFFF\<close>.\<close>

definition utf8_enc :: "nat \<Rightarrow> string" where
  "utf8_enc r = map char_of
     (if r < 0x80 then [r]
      else if r < 0x800 then [192 + r div 64, 128 + r mod 64]
      else if r < 0x10000 then [224 + r div 4096, 128 + r div 64 mod 64, 128 + r mod 64]
      else [240 + r div 262144, 128 + r div 4096 mod 64, 128 + r div 64 mod 64, 128 + r mod 64])"

definition rune_error :: string where
  "rune_error = utf8_enc 0xFFFD"

section \<open>Printing\<close>

definition hex_digit :: "nat \<Rightarrow> char" where
  "hex_digit d = (if d < 10 then char_of (48 + d) else char_of (87 + d))"

text \<open>One byte below \<open>0x80\<close>, as \<open>appendString\<close> with HTML escaping writes it.\<close>

definition esc_byte :: "char \<Rightarrow> string" where
  "esc_byte c =
     (if c = CHR 0x22 \<or> c = CHR 0x5C then [CHR 0x5C, c]
      else if c = CHR 0x08 then [CHR 0x5C, CHR ''b'']
      else if c = CHR 0x0C then [CHR 0x5C, CHR ''f'']
      else if c = CHR 0x0A then [CHR 0x5C, CHR ''n'']
      else if c = CHR 0x0D then [CHR 0x5C, CHR ''r'']
      else if c = CHR 0x09 then [CHR 0x5C, CHR ''t'']
      else if byte c < 32 \<or> c = CHR ''<'' \<or> c = CHR ''>'' \<or> c = CHR ''&''
        then [CHR 0x5C, CHR ''u'', CHR ''0'', CHR ''0'', hex_digit (byte c div 16), hex_digit (byte c mod 16)]
      else [c])"

fun esc_str :: "string \<Rightarrow> string" where
  "esc_str [] = []"
| "esc_str (c # cs) =
     (if byte c < 128 then esc_byte c @ esc_str cs
      else let n = rune_len (c # cs) in
        if n = 0 then CHR 0x5C # ''ufffd'' @ esc_str cs
        else if take n (c # cs) = [CHR 0xE2, CHR 0x80, CHR 0xA8]
          then CHR 0x5C # ''u2028'' @ esc_str (drop (n - 1) cs)
        else if take n (c # cs) = [CHR 0xE2, CHR 0x80, CHR 0xA9]
          then CHR 0x5C # ''u2029'' @ esc_str (drop (n - 1) cs)
        else take n (c # cs) @ esc_str (drop (n - 1) cs))"

definition quote :: "string \<Rightarrow> string" where
  "quote s = CHR 0x22 # esc_str s @ [CHR 0x22]"

fun commas :: "string list \<Rightarrow> string" where
  "commas [] = []"
| "commas [s] = s"
| "commas (s # t # ss) = s @ CHR '','' # commas (t # ss)"

fun print_json :: "jtext \<Rightarrow> string" where
  "print_json JNull = ''null''"
| "print_json (JBool b) = (if b then ''true'' else ''false'')"
| "print_json (JNum l) = print_lit l"
| "print_json (JStr s) = quote s"
| "print_json (JArr vs) = CHR ''['' # commas (map print_json vs) @ '']''"
| "print_json (JObj kvs) =
     CHR ''{'' # commas (map (\<lambda>kv. quote (fst kv) @ CHR '':'' # print_json (snd kv)) kvs) @ ''}''"

section \<open>Scanning numbers\<close>

definition scan_int :: "string \<Rightarrow> (string \<times> string) option" where
  "scan_int s = (case s of
     [] \<Rightarrow> None
   | c # cs \<Rightarrow>
       if c = CHR ''0'' then Some (''0'', cs)
       else if is_digit c then Some (takeWhile is_digit s, dropWhile is_digit s)
       else None)"

definition scan_digits :: "string \<Rightarrow> (string \<times> string) option" where
  "scan_digits s =
     (if takeWhile is_digit s = [] then None
      else Some (takeWhile is_digit s, dropWhile is_digit s))"

definition scan_frac :: "string \<Rightarrow> (string option \<times> string) option" where
  "scan_frac s = (case s of
     [] \<Rightarrow> Some (None, s)
   | c # cs \<Rightarrow>
       if c = CHR ''.'' then map_option (\<lambda>(ds, r). (Some ds, r)) (scan_digits cs)
       else Some (None, s))"

definition scan_exp :: "string \<Rightarrow> ((bool \<times> string) option \<times> string) option" where
  "scan_exp s = (case s of
     [] \<Rightarrow> Some (None, s)
   | c # cs \<Rightarrow>
       if c = CHR ''e'' \<or> c = CHR ''E'' then
         (case cs of
            [] \<Rightarrow> None
          | d # ds \<Rightarrow>
              if d = CHR ''-'' then map_option (\<lambda>(e, r). (Some (True, e), r)) (scan_digits ds)
              else if d = CHR ''+'' then map_option (\<lambda>(e, r). (Some (False, e), r)) (scan_digits ds)
              else map_option (\<lambda>(e, r). (Some (False, e), r)) (scan_digits cs))
       else Some (None, s))"

definition scan_unsigned :: "bool \<Rightarrow> string \<Rightarrow> (numlit \<times> string) option" where
  "scan_unsigned neg s = (case scan_int s of
     None \<Rightarrow> None
   | Some (ip, s1) \<Rightarrow> (case scan_frac s1 of
       None \<Rightarrow> None
     | Some (fp, s2) \<Rightarrow> (case scan_exp s2 of
         None \<Rightarrow> None
       | Some (ex, s3) \<Rightarrow> Some (Lit neg ip fp ex, s3))))"

definition scan_num :: "string \<Rightarrow> (numlit \<times> string) option" where
  "scan_num s = (case s of
     [] \<Rightarrow> None
   | c # cs \<Rightarrow> if c = CHR ''-'' then scan_unsigned True cs else scan_unsigned False s)"

section \<open>Scanning strings\<close>

definition hex_val :: "char \<Rightarrow> nat option" where
  "hex_val c =
     (if is_digit c then Some (byte c - 48)
      else if CHR ''a'' \<le> c \<and> c \<le> CHR ''f'' then Some (byte c - 87)
      else if CHR ''A'' \<le> c \<and> c \<le> CHR ''F'' then Some (byte c - 55)
      else None)"

text \<open>\<open>getu4\<close> after the backslash and the \<open>u\<close>.\<close>

definition hex4 :: "string \<Rightarrow> (nat \<times> string) option" where
  "hex4 s = (case s of
     a # b # c # d # r \<Rightarrow>
       (case (hex_val a, hex_val b, hex_val c, hex_val d) of
          (Some w, Some x, Some y, Some z) \<Rightarrow> Some (4096 * w + 256 * x + 16 * y + z, r)
        | _ \<Rightarrow> None)
   | _ \<Rightarrow> None)"

text \<open>The text of a \<open>\u\<close> escape, with the low half of a surrogate pair when one follows; a
  lone surrogate becomes the replacement rune.\<close>

definition u_escape :: "string \<Rightarrow> (string \<times> string) option" where
  "u_escape s = (case hex4 s of
     None \<Rightarrow> None
   | Some (r, s1) \<Rightarrow>
       if 0xD800 \<le> r \<and> r < 0xE000 then
         (case s1 of
            b # u # s2 \<Rightarrow>
              if b = CHR 0x5C \<and> u = CHR ''u'' then
                (case hex4 s2 of
                   None \<Rightarrow> Some (rune_error, s1)
                 | Some (r2, s3) \<Rightarrow>
                     if r < 0xDC00 \<and> 0xDC00 \<le> r2 \<and> r2 < 0xE000
                     then Some (utf8_enc (0x10000 + (r - 0xD800) * 1024 + (r2 - 0xDC00)), s3)
                     else Some (rune_error, s1))
              else Some (rune_error, s1)
          | _ \<Rightarrow> Some (rune_error, s1))
       else Some (utf8_enc r, s1))"

definition simple_escape :: "char \<Rightarrow> char option" where
  "simple_escape c =
     (if c = CHR 0x22 \<or> c = CHR 0x5C \<or> c = CHR ''/'' then Some c
      else if c = CHR ''b'' then Some (CHR 0x08)
      else if c = CHR ''f'' then Some (CHR 0x0C)
      else if c = CHR ''n'' then Some (CHR 0x0A)
      else if c = CHR ''r'' then Some (CHR 0x0D)
      else if c = CHR ''t'' then Some (CHR 0x09)
      else None)"

text \<open>One item of a string literal: its decoded bytes and the rest.\<close>

definition str_item :: "char \<Rightarrow> string \<Rightarrow> (string \<times> string) option" where
  "str_item c cs =
     (if byte c < 32 then None
      else if c = CHR 0x5C then
        (case cs of
           [] \<Rightarrow> None
         | e # r \<Rightarrow> if e = CHR ''u'' then u_escape r
                  else map_option (\<lambda>x. ([x], r)) (simple_escape e))
      else if byte c < 128 then Some ([c], cs)
      else let n = rune_len (c # cs) in
        if n = 0 then Some (rune_error, cs) else Some (take n (c # cs), drop (n - 1) cs))"

text \<open>The string literal whose opening quote has been read.\<close>

lemma hex4_length: "hex4 s = Some (r, s') \<Longrightarrow> length s' < length s"
  by (auto simp: hex4_def split: list.splits option.splits)

lemma u_escape_length: "u_escape s = Some (x, s') \<Longrightarrow> length s' < length s"
  by (force simp: u_escape_def dest: hex4_length split: list.splits option.splits if_splits)

lemma str_item_length: "str_item c cs = Some (x, r) \<Longrightarrow> length r < Suc (length cs)"
  by (auto simp: str_item_def Let_def dest: u_escape_length split: list.splits if_splits)

function parse_str :: "string \<Rightarrow> (string \<times> string) option" where
  "parse_str [] = None"
| "parse_str (c # cs) =
     (if c = CHR 0x22 then Some ([], cs)
      else case str_item c cs of
        None \<Rightarrow> None
      | Some (x, r) \<Rightarrow> map_option (\<lambda>(s, r'). (x @ s, r')) (parse_str r))"
  by pat_completeness auto
termination
  by (relation "measure length") (auto dest: str_item_length)

section \<open>The parser\<close>

definition is_ws :: "char \<Rightarrow> bool" where
  "is_ws c \<longleftrightarrow> c = CHR '' '' \<or> c = CHR 0x09 \<or> c = CHR 0x0A \<or> c = CHR 0x0D"

abbreviation skip_ws :: "string \<Rightarrow> string" where
  "skip_ws \<equiv> dropWhile is_ws"

definition expect :: "string \<Rightarrow> 'a \<Rightarrow> string \<Rightarrow> ('a \<times> string) option" where
  "expect w v s = (if take (length w) s = w then Some (v, drop (length w) s) else None)"

text \<open>The first argument is fuel: every call but the last on a text consumes a byte, so twice
  the length of the text is enough.  The second is the nesting still allowed.\<close>

fun parse_val :: "nat \<Rightarrow> nat \<Rightarrow> string \<Rightarrow> (jtext \<times> string) option"
and parse_elems :: "nat \<Rightarrow> nat \<Rightarrow> string \<Rightarrow> (jtext list \<times> string) option"
and parse_members :: "nat \<Rightarrow> nat \<Rightarrow> string \<Rightarrow> ((string \<times> jtext) list \<times> string) option" where
  "parse_val 0 d s = None"
| "parse_val (Suc n) d s = (case skip_ws s of
     [] \<Rightarrow> None
   | c # cs \<Rightarrow>
       if c = CHR 0x22 then map_option (\<lambda>(x, r). (JStr x, r)) (parse_str cs)
       else if c = CHR ''['' then
         (case d of 0 \<Rightarrow> None | Suc d' \<Rightarrow>
            (case skip_ws cs of
               [] \<Rightarrow> None
             | b # r \<Rightarrow> if b = CHR '']'' then Some (JArr [], r)
                      else map_option (\<lambda>(vs, r'). (JArr vs, r')) (parse_elems n d' cs)))
       else if c = CHR ''{'' then
         (case d of 0 \<Rightarrow> None | Suc d' \<Rightarrow>
            (case skip_ws cs of
               [] \<Rightarrow> None
             | b # r \<Rightarrow> if b = CHR ''}'' then Some (JObj [], r)
                      else map_option (\<lambda>(kvs, r'). (JObj kvs, r')) (parse_members n d' cs)))
       else if c = CHR ''n'' then expect ''ull'' JNull cs
       else if c = CHR ''t'' then expect ''rue'' (JBool True) cs
       else if c = CHR ''f'' then expect ''alse'' (JBool False) cs
       else map_option (\<lambda>(l, r). (JNum l, r)) (scan_num (c # cs)))"
| "parse_elems 0 d s = None"
| "parse_elems (Suc n) d s = (case parse_val n d s of
     None \<Rightarrow> None
   | Some (v, r) \<Rightarrow> (case skip_ws r of
       [] \<Rightarrow> None
     | c # r' \<Rightarrow>
         if c = CHR '']'' then Some ([v], r')
         else if c = CHR '','' then map_option (\<lambda>(vs, r''). (v # vs, r'')) (parse_elems n d r')
         else None))"
| "parse_members 0 d s = None"
| "parse_members (Suc n) d s = (case skip_ws s of
     [] \<Rightarrow> None
   | q # s1 \<Rightarrow>
       if q \<noteq> CHR 0x22 then None
       else (case parse_str s1 of
         None \<Rightarrow> None
       | Some (k, s2) \<Rightarrow> (case skip_ws s2 of
           [] \<Rightarrow> None
         | c # s3 \<Rightarrow>
             if c \<noteq> CHR '':'' then None
             else (case parse_val n d s3 of
               None \<Rightarrow> None
             | Some (v, r) \<Rightarrow> (case skip_ws r of
                 [] \<Rightarrow> None
               | e # r' \<Rightarrow>
                   if e = CHR ''}'' then Some ([(k, v)], r')
                   else if e = CHR '','' then
                     map_option (\<lambda>(kvs, r''). ((k, v) # kvs, r'')) (parse_members n d r')
                   else None)))))"

definition max_nesting :: nat where
  "max_nesting = 10000"

definition parse_json :: "string \<Rightarrow> jtext option" where
  "parse_json s = (case parse_val (2 * length s + 2) max_nesting s of
     None \<Rightarrow> None
   | Some (v, r) \<Rightarrow> if skip_ws r = [] then Some v else None)"

section \<open>Text and values\<close>

text \<open>\<open>json.Marshal\<close> on a value: \<open>None\<close> when a number is not finite.\<close>

fun of_gval :: "gval \<Rightarrow> jtext option" where
  "of_gval JNull = Some JNull"
| "of_gval (JBool b) = Some (JBool b)"
| "of_gval (JNum f) = map_option JNum (fmt_json f)"
| "of_gval (JStr s) = Some (JStr s)"
| "of_gval (JArr vs) = map_option JArr (those (map of_gval vs))"
| "of_gval (JObj kvs) =
     map_option JObj (those (map (\<lambda>kv. map_option (Pair (fst kv)) (of_gval (snd kv))) kvs))"

text \<open>\<open>json.Unmarshal\<close> into an \<open>any\<close>: \<open>None\<close> when a number is out of range; a repeated key
  keeps its last value.\<close>

fun to_gval :: "jtext \<Rightarrow> gval option" where
  "to_gval JNull = Some JNull"
| "to_gval (JBool b) = Some (JBool b)"
| "to_gval (JNum l) = map_option JNum (parse_float l)"
| "to_gval (JStr s) = Some (JStr s)"
| "to_gval (JArr vs) = map_option JArr (those (map to_gval vs))"
| "to_gval (JObj kvs) =
     map_option (\<lambda>xs. JObj (om_of xs))
       (those (map (\<lambda>kv. map_option (Pair (fst kv)) (to_gval (snd kv))) kvs))"

definition marshal_gval :: "gval \<Rightarrow> string option" where
  "marshal_gval g = map_option print_json (of_gval g)"

definition unmarshal_gval :: "string \<Rightarrow> gval option" where
  "unmarshal_gval s = Option.bind (parse_json s) to_gval"

section \<open>Strings read back\<close>

lemma hex_val_digit [simp]: "d < 16 \<Longrightarrow> hex_val (hex_digit d) = Some d"
  by (auto simp: hex_val_def hex_digit_def is_digit_iff less_eq_char_def of_char_of)

lemma utf8_enc_ascii: "byte c < 128 \<Longrightarrow> utf8_enc (byte c) = [c]"
  by (simp add: utf8_enc_def)

lemma u_escape_byte:
  "byte c < 128 \<Longrightarrow>
   u_escape (CHR ''0'' # CHR ''0'' # hex_digit (byte c div 16) # hex_digit (byte c mod 16) # r)
     = Some ([c], r)"
  by (simp add: u_escape_def hex4_def utf8_enc_ascii hex_val_def [of "CHR ''0''"] is_digit_iff)

lemma parse_str_esc_byte:
  assumes "byte c < 128"
  shows "parse_str (esc_byte c @ r) = map_option (\<lambda>(s, r'). (c # s, r')) (parse_str r)"
  using assms
  by (auto simp: esc_byte_def str_item_def simple_escape_def u_escape_byte split: option.splits)

lemma rune_len_le: "rune_len s \<le> length s"
  by (cases s) (auto simp: Let_def split: list.splits)

lemma rune_len_take:
  "rune_len s \<noteq> 0 \<Longrightarrow> rune_len (take (rune_len s) s @ r) = rune_len s"
  by (cases s) (auto simp: Let_def split: list.splits if_splits)

lemma rune_len_ascii: "byte c < 128 \<Longrightarrow> rune_len (c # s) = 1"
  by simp

declare rune_len.simps(2) [simp del]

lemma parse_str_rune:
  assumes "128 \<le> byte c" "rune_len (c # cs) \<noteq> 0"
  shows "parse_str (take (rune_len (c # cs)) (c # cs) @ r)
    = map_option (\<lambda>(s, r'). (take (rune_len (c # cs)) (c # cs) @ s, r')) (parse_str r)"
proof -
  define n where "n = rune_len (c # cs)"
  have n: "n \<noteq> 0" "n - 1 \<le> length cs" using assms(2) rune_len_le [of "c # cs"] by (auto simp: n_def)
  have t: "take n (c # cs) = c # take (n - 1) cs" using n by (cases n) auto
  have rl: "rune_len (c # take (n - 1) cs @ r) = n"
    using rune_len_take [of "c # cs" r] assms(2) t by (simp add: n_def)
  have "take n (c # take (n - 1) cs @ r) = c # take (n - 1) cs"
    using n by (cases n) auto
  moreover have "str_item c (take (n - 1) cs @ r) = Some (take n (c # take (n - 1) cs @ r), r)"
    using assms(1) n rl by (auto simp: str_item_def Let_def)
  moreover have "c \<noteq> CHR 0x22" using assms(1) by auto
  ultimately show ?thesis unfolding n_def [symmetric] t by (auto split: option.splits)
qed

lemma parse_str_ls_ps:
  "parse_str (CHR 0x5C # ''u2028'' @ r) = map_option (\<lambda>(s, r'). ([CHR 0xE2, CHR 0x80, CHR 0xA8] @ s, r')) (parse_str r)"
  "parse_str (CHR 0x5C # ''u2029'' @ r) = map_option (\<lambda>(s, r'). ([CHR 0xE2, CHR 0x80, CHR 0xA9] @ s, r')) (parse_str r)"
  by (auto simp: str_item_def u_escape_def hex4_def hex_val_def is_digit_iff less_eq_char_def utf8_enc_def
      char_of_def bit_Suc_0_iff split: option.splits)

lemma parse_esc_str:
  "valid_utf8 s \<Longrightarrow> parse_str (esc_str s @ CHR 0x22 # r) = Some (s, r)"
proof (induction s rule: esc_str.induct)
  case (2 c cs)
  define n where "n = rune_len (c # cs)"
  have n0: "n \<noteq> 0" and v: "valid_utf8 (drop (n - 1) cs)" using "2.prems" by (simp_all add: n_def)
  show ?case
  proof (cases "byte c < 128")
    case True
    then have "n = 1" by (simp add: n_def rune_len_ascii)
    with True v "2.IH"(1) show ?thesis by (simp add: parse_str_esc_byte)
  next
    case False
    have tk: "take n (c # cs) @ drop (n - 1) cs = c # cs" using n0 by (cases n) auto
    consider (ls) "take n (c # cs) = [CHR 0xE2, CHR 0x80, CHR 0xA8]"
      | (ps) "take n (c # cs) = [CHR 0xE2, CHR 0x80, CHR 0xA9]"
      | (other) "take n (c # cs) \<noteq> [CHR 0xE2, CHR 0x80, CHR 0xA8]" "take n (c # cs) \<noteq> [CHR 0xE2, CHR 0x80, CHR 0xA9]"
      by blast
    then show ?thesis
    proof cases
      case ls
      have "esc_str (c # cs) = CHR 0x5C # ''u2028'' @ esc_str (drop (n - 1) cs)"
        using False n0 ls by (simp add: Let_def flip: n_def)
      moreover have "parse_str (esc_str (drop (n - 1) cs) @ CHR 0x22 # r) = Some (drop (n - 1) cs, r)"
        using "2.IH"(3) [OF False n_def n0 ls] v by blast
      ultimately show ?thesis using tk ls parse_str_ls_ps(1) by simp
    next
      case ps
      have "esc_str (c # cs) = CHR 0x5C # ''u2029'' @ esc_str (drop (n - 1) cs)"
        using False n0 ps by (simp add: Let_def flip: n_def)
      moreover have "parse_str (esc_str (drop (n - 1) cs) @ CHR 0x22 # r) = Some (drop (n - 1) cs, r)"
        using "2.IH"(4) [OF False n_def n0 _ ps] v ps by simp
      ultimately show ?thesis using tk ps parse_str_ls_ps(2) by simp
    next
      case other
      have "esc_str (c # cs) = take n (c # cs) @ esc_str (drop (n - 1) cs)"
        using False n0 other by (simp add: Let_def flip: n_def)
      moreover have "parse_str (esc_str (drop (n - 1) cs) @ CHR 0x22 # r) = Some (drop (n - 1) cs, r)"
        using "2.IH"(5) [OF False n_def n0 other] v by blast
      ultimately show ?thesis
        using tk parse_str_rune [of c cs] False n0 by (simp flip: n_def)
    qed
  qed
qed simp

lemma parse_quote: "valid_utf8 s \<Longrightarrow> quote s @ r = CHR 0x22 # t \<Longrightarrow> parse_str t = Some (s, r)"
  by (auto simp: quote_def parse_esc_str)

section \<open>Numbers read back\<close>

fun lit_ok :: "numlit \<Rightarrow> bool" where
  "lit_ok (Lit s ip fp ex) \<longleftrightarrow>
     ip \<noteq> [] \<and> list_all is_digit ip \<and> (hd ip = CHR ''0'' \<longrightarrow> ip = ''0'')
     \<and> (case fp of None \<Rightarrow> True | Some f \<Rightarrow> f \<noteq> [] \<and> list_all is_digit f)
     \<and> (case ex of None \<Rightarrow> True | Some (_, ds) \<Rightarrow> ds \<noteq> [] \<and> list_all is_digit ds)"

text \<open>What may follow a number: the end of the text or a byte that does not extend it.\<close>

definition num_stop :: "string \<Rightarrow> bool" where
  "num_stop r \<longleftrightarrow> (case r of [] \<Rightarrow> True | c # _ \<Rightarrow>
     \<not> is_digit c \<and> c \<noteq> CHR ''.'' \<and> c \<noteq> CHR ''e'' \<and> c \<noteq> CHR ''E'')"

lemma takeWhile_digits:
  assumes "list_all is_digit ds" "case r of [] \<Rightarrow> True | c # _ \<Rightarrow> \<not> is_digit c"
  shows "takeWhile is_digit (ds @ r) = ds" "dropWhile is_digit (ds @ r) = r"
proof -
  have r: "takeWhile is_digit r = []" "dropWhile is_digit r = r" using assms(2) by (auto split: list.splits)
  show "takeWhile is_digit (ds @ r) = ds" "dropWhile is_digit (ds @ r) = r"
    using assms(1) r by (auto simp: list_all_iff)
qed

lemma scan_digits_ok:
  "ds \<noteq> [] \<Longrightarrow> list_all is_digit ds \<Longrightarrow> (case r of [] \<Rightarrow> True | c # _ \<Rightarrow> \<not> is_digit c) \<Longrightarrow>
   scan_digits (ds @ r) = Some (ds, r)"
  by (simp add: scan_digits_def takeWhile_digits)

lemma scan_int_ok:
  assumes "ip \<noteq> []" "list_all is_digit ip" "hd ip = CHR ''0'' \<longrightarrow> ip = ''0''"
    "case r of [] \<Rightarrow> True | c # _ \<Rightarrow> \<not> is_digit c"
  shows "scan_int (ip @ r) = Some (ip, r)"
  using assms takeWhile_digits [OF assms(2,4)]
  by (cases ip) (auto simp: scan_int_def)

lemma nondigits [simp]:
  "\<not> is_digit CHR ''.''" "\<not> is_digit CHR ''e''" "\<not> is_digit CHR ''E''" "\<not> is_digit CHR ''-''"
  "\<not> is_digit CHR ''+''" "\<not> is_digit CHR '',''" "\<not> is_digit CHR '']''" "\<not> is_digit CHR ''}''"
  "\<not> is_digit CHR 0x22" "\<not> is_digit CHR ''[''" "\<not> is_digit CHR ''{''" "\<not> is_digit CHR ''n''"
  "\<not> is_digit CHR ''t''" "\<not> is_digit CHR ''f''"
  by (simp_all add: is_digit_iff)

definition exp_text :: "(bool \<times> string) option \<Rightarrow> string" where
  "exp_text ex = (case ex of None \<Rightarrow> [] | Some (es, ds) \<Rightarrow> ''e'' @ (if es then ''-'' else ''+'') @ ds)"

definition frac_text :: "string option \<Rightarrow> string" where
  "frac_text fp = (case fp of None \<Rightarrow> [] | Some f \<Rightarrow> ''.'' @ f)"

lemma print_lit_text: "print_lit (Lit s ip fp ex) = sign_str s @ ip @ frac_text fp @ exp_text ex"
  by (simp add: frac_text_def exp_text_def)

lemma scan_exp_ok:
  assumes "case ex of None \<Rightarrow> True | Some (_, ds) \<Rightarrow> ds \<noteq> [] \<and> list_all is_digit ds" "num_stop r"
  shows "scan_exp (exp_text ex @ r) = Some (ex, r)"
proof (cases ex)
  case None
  with assms(2) show ?thesis by (cases r) (auto simp: scan_exp_def exp_text_def num_stop_def)
next
  case (Some x)
  then obtain es ds where x: "ex = Some (es, ds)" by (cases x) auto
  have "scan_digits (ds @ r) = Some (ds, r)"
    using assms x by (intro scan_digits_ok) (auto simp: num_stop_def split: list.splits)
  then show ?thesis by (simp add: x scan_exp_def exp_text_def)
qed

lemma exp_text_hd: "num_stop r \<Longrightarrow>
  case exp_text ex @ r of [] \<Rightarrow> True | c # _ \<Rightarrow> \<not> is_digit c \<and> c \<noteq> CHR ''.''"
  by (cases ex) (auto simp: exp_text_def num_stop_def split: list.splits)

lemma scan_frac_ok:
  assumes "case fp of None \<Rightarrow> True | Some f \<Rightarrow> f \<noteq> [] \<and> list_all is_digit f"
    "case r of [] \<Rightarrow> True | c # _ \<Rightarrow> \<not> is_digit c \<and> c \<noteq> CHR ''.''"
  shows "scan_frac (frac_text fp @ r) = Some (fp, r)"
proof (cases fp)
  case None
  with assms(2) show ?thesis by (cases r) (auto simp: scan_frac_def frac_text_def)
next
  case (Some f)
  then have "scan_digits (f @ r) = Some (f, r)"
    using assms by (intro scan_digits_ok) (auto split: list.splits)
  with Some show ?thesis by (simp add: scan_frac_def frac_text_def)
qed

lemma scan_unsigned_ok:
  assumes "lit_ok (Lit s ip fp ex)" "num_stop r"
  shows "scan_unsigned s (ip @ frac_text fp @ exp_text ex @ r) = Some (Lit s ip fp ex, r)"
proof -
  have "case frac_text fp @ exp_text ex @ r of [] \<Rightarrow> True | c # _ \<Rightarrow> \<not> is_digit c"
    using exp_text_hd [OF assms(2), of ex] by (cases fp) (auto simp: frac_text_def split: list.splits)
  then have "scan_int (ip @ frac_text fp @ exp_text ex @ r) = Some (ip, frac_text fp @ exp_text ex @ r)"
    using assms(1) by (intro scan_int_ok) auto
  moreover have "scan_frac (frac_text fp @ exp_text ex @ r) = Some (fp, exp_text ex @ r)"
    using assms(1) exp_text_hd [OF assms(2)] by (intro scan_frac_ok) auto
  moreover have "scan_exp (exp_text ex @ r) = Some (ex, r)"
    using assms by (intro scan_exp_ok) auto
  ultimately show ?thesis by (simp add: scan_unsigned_def)
qed

lemma scan_num_print:
  assumes "lit_ok l" "num_stop r"
  shows "scan_num (print_lit l @ r) = Some (l, r)"
proof (cases l)
  case (Lit s ip fp ex)
  then have "ip \<noteq> []" "list_all is_digit ip" using assms(1) by auto
  then have "ip \<noteq> []" "hd ip \<noteq> CHR ''-''" by (auto simp: list_all_iff) (metis hd_in_set nondigits(4))
  then show ?thesis
    using scan_unsigned_ok [of s ip fp ex r] assms
    by (cases ip) (auto simp: Lit print_lit_text sign_str_def scan_num_def simp del: print_lit.simps)
qed

lemma hd_show_nat: "n \<noteq> 0 \<Longrightarrow> hd (show_nat n) \<noteq> CHR ''0''"
proof -
  assume "n \<noteq> 0"
  have "last (digits_rev n) \<in> set (digits_rev n)" by simp
  then have "last (digits_rev n) < 10" by (rule digits_rev_lt10)
  then have "byte (hd (show_nat n)) = 48 + last (digits_rev n)"
    by (simp add: show_nat_def hd_map hd_rev)
  with last_digits_rev [OF \<open>n \<noteq> 0\<close>] show ?thesis by auto
qed

lemma list_all_sub:
  "list_all P ds \<Longrightarrow> list_all P (take k ds)" "list_all P ds \<Longrightarrow> list_all P (drop k ds)"
  by (auto simp: list_all_iff dest: in_set_takeD in_set_dropD)

lemma is_digit_0 [simp]: "is_digit CHR ''0''"
  by (simp add: is_digit_iff)

lemma list_all_zeros: "list_all is_digit (replicate k CHR ''0'')"
  by (simp add: list_all_iff)

lemma show_nat_0: "show_nat 0 = ''0''"
  by (simp add: show_nat_def digits_rev.simps digit_char_def char_of_def bit_Suc_0_iff)

lemma lit_ok_fmt_f: "lit_ok (fmt_f d)"
proof (cases "dcoef d = 0")
  case True
  then show ?thesis
    by (simp add: fmt_f_def Let_def list_all_zeros show_nat_0)
next
  case False
  define ds where "ds = show_nat (dcoef d)"
  have "list_all is_digit ds" "hd ds \<noteq> CHR ''0''" "ds \<noteq> []"
    using hd_show_nat [OF False] by (simp_all add: ds_def show_nat_digits)
  then show ?thesis
    using False by (cases "dexp d < 0")
      (simp_all add: fmt_f_def Let_def list_all_sub list_all_zeros hd_append not_le flip: ds_def)
qed

lemma pad_digits:
  "list_all is_digit es \<and> es \<noteq> [] \<Longrightarrow>
   list_all is_digit (if b then CHR ''0'' # es else es) \<and> (if b then CHR ''0'' # es else es) \<noteq> []"
  by simp

lemma lit_ok_fmt_e:
  assumes "dcoef d \<noteq> 0"
  shows "lit_ok (fmt_e w d)"
proof -
  define ds where "ds = show_nat (dcoef d)"
  have ds: "list_all is_digit ds" "hd ds \<noteq> CHR ''0''" "ds \<noteq> []"
    using hd_show_nat [OF assms] by (simp_all add: ds_def show_nat_digits)
  have l: "lit_ok (Lit s (take 1 ds) (if length ds > 1 then Some (drop 1 ds) else None) (Some (b, es)))"
    if "list_all is_digit es \<and> es \<noteq> []" for s b es
    using ds that by (cases ds) simp_all
  show ?thesis
    unfolding fmt_e_def Let_def ds_def [symmetric] append.simps
    by (intro l pad_digits conjI show_nat_digits show_nat_nonempty)
qed

lemma lit_ok_fmt_json: "fmt_json f = Some l \<Longrightarrow> lit_ok l"
  by (auto simp: fmt_json_def lit_ok_fmt_f lit_ok_fmt_e split: float64.splits if_splits)

section \<open>Values read back\<close>

fun json_ok :: "jtext \<Rightarrow> bool" where
  "json_ok (JNum l) = lit_ok l"
| "json_ok (JStr s) = valid_utf8 s"
| "json_ok (JArr vs) = list_all json_ok vs"
| "json_ok (JObj kvs) = list_all (\<lambda>kv. valid_utf8 (fst kv) \<and> json_ok (snd kv)) kvs"
| "json_ok _ = True"

fun nesting :: "'n json \<Rightarrow> nat" where
  "nesting (JArr vs) = Suc (foldr max (map nesting vs) 0)"
| "nesting (JObj kvs) = Suc (foldr max (map (\<lambda>kv. nesting (snd kv)) kvs) 0)"
| "nesting _ = 0"

text \<open>The calls the parser makes on a value.\<close>

fun calls :: "'n json \<Rightarrow> nat" where
  "calls (JArr vs) = Suc (\<Sum>v\<leftarrow>vs. Suc (calls v))"
| "calls (JObj kvs) = Suc (\<Sum>kv\<leftarrow>kvs. Suc (calls (snd kv)))"
| "calls _ = 1"

lemma foldr_max_le: "foldr max (map f xs) 0 \<le> (d::nat) \<longleftrightarrow> (\<forall>x\<in>set xs. f x \<le> d)"
  by (induction xs) auto

lemma num_stop_simps [simp]:
  "num_stop []" "num_stop (CHR '','' # r)" "num_stop (CHR '']'' # r)" "num_stop (CHR ''}'' # r)"
  by (simp_all add: num_stop_def)

definition digit_or_minus :: "char \<Rightarrow> bool" where
  "digit_or_minus c \<longleftrightarrow> is_digit c \<or> c = CHR ''-''"

lemma lit_hd: "lit_ok l \<Longrightarrow> \<exists>c cs. print_lit l = c # cs \<and> digit_or_minus c"
  by (cases l rule: lit_ok.cases)
    (auto simp: sign_str_def digit_or_minus_def neq_Nil_conv)

lemma digit_or_minus_simps [simp]:
  assumes "digit_or_minus c"
  shows "\<not> is_ws c" "c \<noteq> CHR 0x22" "c \<noteq> CHR ''[''" "c \<noteq> CHR ''{''" "c \<noteq> CHR ''n''" "c \<noteq> CHR ''t''"
    "c \<noteq> CHR ''f''" "c \<noteq> CHR '']''" "c \<noteq> CHR ''}''"
  using assms by (auto simp: digit_or_minus_def is_digit_iff is_ws_def)

lemma not_ws [simp]:
  "\<not> is_ws CHR 0x22" "\<not> is_ws CHR ''[''" "\<not> is_ws CHR ''{''" "\<not> is_ws CHR ''n''" "\<not> is_ws CHR ''t''"
  "\<not> is_ws CHR ''f''" "\<not> is_ws CHR '']''" "\<not> is_ws CHR ''}''" "\<not> is_ws CHR '',''" "\<not> is_ws CHR '':''"
  by (simp_all add: is_ws_def)

text \<open>A printed value starts with a byte that is neither white space nor a closing bracket.\<close>

lemma print_hd:
  assumes "json_ok v"
  obtains c cs where "print_json v = c # cs" "\<not> is_ws c" "c \<noteq> CHR '']''" "c \<noteq> CHR ''}''"
proof (cases v)
  case (JNum l)
  with assms lit_hd [of l] that show ?thesis by fastforce
next
  case (JBool b)
  with that show ?thesis by (cases b) auto
qed (use that in \<open>auto simp: quote_def\<close>)

lemma parse_print_elems:
  assumes "\<And>v n r. v \<in> set vs \<Longrightarrow> calls v \<le> n \<Longrightarrow> num_stop r \<Longrightarrow>
             parse_val n d (print_json v @ r) = Some (v, r)"
    and "vs \<noteq> []" "(\<Sum>v\<leftarrow>vs. Suc (calls v)) \<le> n"
  shows "parse_elems n d (commas (map print_json vs) @ CHR '']'' # r) = Some (vs, r)"
  using assms
proof (induction vs arbitrary: n)
  case (Cons v vs)
  from Cons.prems(3) obtain m where n: "n = Suc m" by (cases n) auto
  show ?case
  proof (cases vs)
    case Nil
    with Cons.prems show ?thesis by (simp add: n)
  next
    case (Cons w ws)
    have "parse_elems m d (commas (map print_json vs) @ CHR '']'' # r) = Some (vs, r)"
      using Cons.prems Cons by (intro Cons.IH) (auto simp: n)
    moreover have "parse_val m d (print_json v @ CHR '','' # commas (map print_json vs) @ CHR '']'' # r)
        = Some (v, CHR '','' # commas (map print_json vs) @ CHR '']'' # r)"
      using Cons.prems by (intro Cons.prems(1)) (auto simp: n)
    ultimately show ?thesis by (simp add: n Cons)
  qed
qed simp

abbreviation print_member :: "string \<times> jtext \<Rightarrow> string" where
  "print_member kv \<equiv> quote (fst kv) @ CHR '':'' # print_json (snd kv)"

lemma parse_print_members:
  assumes "\<And>kv n r. kv \<in> set kvs \<Longrightarrow> calls (snd kv) \<le> n \<Longrightarrow> num_stop r \<Longrightarrow>
             parse_val n d (print_json (snd kv) @ r) = Some (snd kv, r)"
    and "\<And>kv. kv \<in> set kvs \<Longrightarrow> valid_utf8 (fst kv)"
    and "kvs \<noteq> []" "(\<Sum>kv\<leftarrow>kvs. Suc (calls (snd kv))) \<le> n"
  shows "parse_members n d (commas (map print_member kvs) @ CHR ''}'' # r) = Some (kvs, r)"
  using assms
proof (induction kvs arbitrary: n)
  case (Cons kv kvs)
  obtain k v where kv: "kv = (k, v)" by force
  from Cons.prems(4) obtain m where n: "n = Suc m" by (cases n) auto
  have q: "parse_str (esc_str k @ CHR 0x22 # s) = Some (k, s)" for s
    using Cons.prems(2) [of kv] by (simp add: kv parse_esc_str)
  show ?case
  proof (cases kvs)
    case Nil
    have "parse_val m d (print_json v @ CHR ''}'' # r) = Some (v, CHR ''}'' # r)"
      using Cons.prems(1) [of kv m] Cons.prems(4) by (simp add: n kv)
    then show ?thesis by (simp add: n Nil kv quote_def q)
  next
    case (Cons w ws)
    have "parse_members m d (commas (map print_member kvs) @ CHR ''}'' # r) = Some (kvs, r)"
      using Cons.prems Cons by (intro Cons.IH) (auto simp: n)
    moreover have "parse_val m d (print_json v @ CHR '','' # commas (map print_member kvs) @ CHR ''}'' # r)
        = Some (v, CHR '','' # commas (map print_member kvs) @ CHR ''}'' # r)"
      using Cons.prems(1) [of kv m] Cons.prems(4) by (simp add: n kv)
    ultimately show ?thesis by (simp add: n Cons kv quote_def q)
  qed
qed simp

lemma commas_hd: "vs \<noteq> [] \<Longrightarrow> \<exists>t. commas (map f vs) = f (hd vs) @ t"
  by (cases vs; cases "tl vs") auto

theorem parse_print_val:
  "json_ok v \<Longrightarrow> nesting v \<le> d \<Longrightarrow> calls v \<le> n \<Longrightarrow> num_stop r \<Longrightarrow>
   parse_val n d (print_json v @ r) = Some (v, r)"
proof (induction v arbitrary: d n r)
  case (JNum l)
  obtain c cs where l: "print_lit l = c # cs" "digit_or_minus c"
    using JNum.prems(1) lit_hd by fastforce
  obtain m where n: "n = Suc m" using JNum.prems(3) by (cases n) auto
  have "scan_num (c # cs @ r) = Some (l, r)"
    using scan_num_print [of l r] JNum.prems by (simp add: l)
  then show ?case using l by (simp add: n)
next
  case (JArr vs)
  obtain m d' where n: "n = Suc m" "d = Suc d'" using JArr.prems by (cases n; cases d) auto
  show ?case
  proof (cases "vs = []")
    case False
    have "json_ok (hd vs)" using JArr.prems(1) False by (auto simp: list_all_iff)
    then obtain c cs where "print_json (hd vs) = c # cs" "\<not> is_ws c" "c \<noteq> CHR '']''" "c \<noteq> CHR ''}''"
      by (rule print_hd)
    moreover obtain t where "commas (map print_json vs) = print_json (hd vs) @ t"
      using commas_hd [OF False] by blast
    moreover have "parse_elems m d' (commas (map print_json vs) @ CHR '']'' # r) = Some (vs, r)"
      using JArr.prems False
      by (intro parse_print_elems JArr.IH) (auto simp: n list_all_iff foldr_max_le)
    ultimately show ?thesis by (simp add: n)
  qed (simp add: n)
next
  case (JObj kvs)
  obtain m d' where n: "n = Suc m" "d = Suc d'" using JObj.prems by (cases n; cases d) auto
  show ?case
  proof (cases "kvs = []")
    case False
    obtain t where "commas (map print_member kvs) = print_member (hd kvs) @ t"
      using commas_hd [OF False, of print_member] by blast
    moreover have "parse_members m d' (commas (map print_member kvs) @ CHR ''}'' # r) = Some (kvs, r)"
      using JObj.prems False
      by (intro parse_print_members JObj.IH) (auto simp: n list_all_iff foldr_max_le snds.simps)
    ultimately show ?thesis by (simp add: n quote_def)
  qed (simp add: n)
next
  case (JStr s)
  then show ?case by (cases n) (auto simp: quote_def parse_esc_str)
next
  case JNull
  then show ?case by (cases n) (auto simp: expect_def)
next
  case (JBool b)
  then show ?case by (cases n; cases b) (auto simp: expect_def)
qed

lemma length_commas: "length (commas ss) = sum_list (map length ss) + (length ss - 1)"
  by (induction ss rule: commas.induct) auto

lemma calls_le_print: "json_ok v \<Longrightarrow> calls v \<le> length (print_json v)"
proof (induction v)
  case (JNum l)
  then show ?case using lit_hd [of l] by auto
next
  case (JArr vs)
  have "(\<Sum>v\<leftarrow>vs. calls v) \<le> (\<Sum>v\<leftarrow>vs. length (print_json v))"
    using JArr by (intro sum_list_mono) (auto simp: list_all_iff)
  then show ?case by (cases vs) (auto simp: length_commas sum_list_Suc comp_def)
next
  case (JObj kvs)
  have "(\<Sum>kv\<leftarrow>kvs. calls (snd kv)) \<le> (\<Sum>kv\<leftarrow>kvs. length (print_member kv))"
    using JObj by (intro sum_list_mono) (fastforce simp: list_all_iff snds.simps)
  then show ?case by (cases kvs) (auto simp: length_commas sum_list_Suc comp_def)
qed (auto simp: quote_def)

theorem parse_print_json:
  assumes "json_ok v" "nesting v \<le> max_nesting"
  shows "parse_json (print_json v) = Some v"
proof -
  have "parse_val (2 * length (print_json v) + 2) max_nesting (print_json v @ []) = Some (v, [])"
    using assms calls_le_print [OF assms(1)] by (intro parse_print_val) auto
  then show ?thesis by (simp add: parse_json_def)
qed
section \<open>Go values read back\<close>

text \<open>The values that survive a trip through JSON text: finite doubles, valid UTF-8, sorted
  maps.\<close>

fun gval_ok :: "gval \<Rightarrow> bool" where
  "gval_ok (JNum (FFin d)) = is_f64 d"
| "gval_ok (JNum _) = False"
| "gval_ok (JStr s) = valid_utf8 s"
| "gval_ok (JArr vs) = list_all gval_ok vs"
| "gval_ok (JObj kvs) = (om_ok kvs \<and> list_all (\<lambda>kv. valid_utf8 (fst kv) \<and> gval_ok (snd kv)) kvs)"
| "gval_ok _ = True"

lemma those_ex:
  "(\<And>x. x \<in> set xs \<Longrightarrow> \<exists>y. f x = Some y \<and> P x y) \<Longrightarrow>
   \<exists>ys. those (map f xs) = Some ys \<and> list_all2 P xs ys"
proof (induction xs)
  case (Cons x xs)
  then obtain y ys where "f x = Some y" "P x y" "those (map f xs) = Some ys" "list_all2 P xs ys"
    by (metis list.set_intros)
  then show ?case by auto
qed simp

lemma those_back: "list_all2 (\<lambda>x y. g y = Some x) xs ys \<Longrightarrow> those (map g ys) = Some xs"
  by (induction rule: list_all2_induct) auto

lemma nesting_back:
  "list_all2 (\<lambda>x y. f y = g x) xs ys \<Longrightarrow> foldr max (map f ys) (0::nat) = foldr max (map g xs) 0"
  by (induction rule: list_all2_induct) auto

lemma list_all2_right: "list_all2 (\<lambda>x y. P y) xs ys \<Longrightarrow> list_all P ys"
  by (induction rule: list_all2_induct) auto

definition reads_back :: "gval \<Rightarrow> jtext \<Rightarrow> bool" where
  "reads_back g j \<longleftrightarrow> json_ok j \<and> nesting j = nesting g \<and> to_gval j = Some g"

definition member_back :: "string \<times> gval \<Rightarrow> string \<times> jtext \<Rightarrow> bool" where
  "member_back kg kj \<longleftrightarrow> fst kj = fst kg \<and> valid_utf8 (fst kj) \<and> reads_back (snd kg) (snd kj)"

theorem of_gval_back: "gval_ok g \<Longrightarrow> \<exists>j. of_gval g = Some j \<and> reads_back g j"
proof (induction g)
  case (JNum f)
  then obtain d where f: "f = FFin d" "is_f64 d" by (cases f) auto
  obtain l where l: "fmt_json f = Some l" by (auto simp: fmt_json_def f)
  then show ?case
    using f lit_ok_fmt_json [OF l] parse_float_fmt_json by (auto simp: reads_back_def)
next
  case (JArr vs)
  then obtain js where js: "those (map of_gval vs) = Some js" "list_all2 reads_back vs js"
    using those_ex [of vs of_gval reads_back] by (auto simp: list_all_iff)
  have "reads_back (JArr vs) (JArr js)"
    unfolding reads_back_def json_ok.simps nesting.simps to_gval.simps
    using js(2) by (auto simp: reads_back_def intro!: list_all2_right those_back nesting_back
        elim!: list_all2_mono)
  then show ?case using js by auto
next
  case (JObj kvs)
  have "\<exists>js. those (map (\<lambda>kv. map_option (Pair (fst kv)) (of_gval (snd kv))) kvs) = Some js
      \<and> list_all2 member_back kvs js"
    using JObj by (intro those_ex) (fastforce simp: list_all_iff member_back_def snds.simps)
  then obtain js where js: "those (map (\<lambda>kv. map_option (Pair (fst kv)) (of_gval (snd kv))) kvs) = Some js"
    "list_all2 member_back kvs js" by blast
  have "those (map (\<lambda>kv. map_option (Pair (fst kv)) (to_gval (snd kv))) js) = Some kvs"
    using js(2) by (intro those_back) (auto simp: member_back_def reads_back_def elim!: list_all2_mono)
  moreover have "list_all (\<lambda>kv. valid_utf8 (fst kv) \<and> json_ok (snd kv)) js"
    using js(2) by (intro list_all2_right) (auto simp: member_back_def reads_back_def elim!: list_all2_mono)
  moreover have "foldr max (map (\<lambda>kv. nesting (snd kv)) js) 0 = foldr max (map (\<lambda>kv. nesting (snd kv)) kvs) 0"
    using js(2) by (intro nesting_back) (auto simp: member_back_def reads_back_def elim!: list_all2_mono)
  ultimately have "reads_back (JObj kvs) (JObj js)"
    using JObj.prems by (simp add: reads_back_def om_of_sorted)
  then show ?case using js by auto
qed (auto simp: reads_back_def)

theorem unmarshal_marshal:
  assumes "gval_ok g" "nesting g \<le> max_nesting"
  shows "\<exists>s. marshal_gval g = Some s \<and> unmarshal_gval s = Some g"
  using of_gval_back [OF assms(1)] assms(2) parse_print_json
  by (fastforce simp: marshal_gval_def unmarshal_gval_def reads_back_def)

section \<open>Printed text has no newline\<close>

lemma byte_lt: "byte c < 256"
  by (metis of_char_mod_256 mod_less_divisor zero_less_numeral)

lemma hex_digit_no_nl [simp]: "d < 16 \<Longrightarrow> NL \<noteq> hex_digit d"
  by (auto simp: hex_digit_def dest!: arg_cong [where f = byte])

lemma esc_byte_no_nl: "NL \<notin> set (esc_byte c)"
  using byte_lt [of c] by (auto simp: esc_byte_def less_mult_imp_div_less)

lemma rune_bytes:
  "128 \<le> byte c \<Longrightarrow> x \<in> set (take (rune_len (c # cs)) (c # cs)) \<Longrightarrow> 128 \<le> byte x"
  by (auto simp: rune_len.simps Let_def cont_byte_def take_Cons' split: list.splits if_splits)

lemma esc_str_no_nl: "NL \<notin> set (esc_str s)"
proof (induction s rule: esc_str.induct)
  case (2 c cs)
  show ?case
  proof (cases "byte c < 128")
    case True
    with 2 show ?thesis by (simp add: esc_byte_no_nl)
  next
    case False
    then have "NL \<notin> set (take (rune_len (c # cs)) (c # cs))"
      using rune_bytes [of c NL cs] by auto
    with 2 False show ?thesis by (auto simp: Let_def)
  qed
qed simp

lemma commas_no: "x \<noteq> CHR '','' \<Longrightarrow> (\<And>s. s \<in> set ss \<Longrightarrow> x \<notin> set s) \<Longrightarrow> x \<notin> set (commas ss)"
  by (induction ss rule: commas.induct) auto

lemma digits_no_nl: "list_all is_digit ds \<Longrightarrow> NL \<notin> set ds"
  by (auto simp: list_all_iff is_digit_iff)

lemma print_lit_no_nl: "lit_ok l \<Longrightarrow> NL \<notin> set (print_lit l)"
  by (cases l) (auto simp: sign_str_def digits_no_nl split: option.splits)

lemma print_json_no_nl: "json_ok v \<Longrightarrow> NL \<notin> set (print_json v)"
proof (induction v)
  case (JArr vs)
  have "NL \<notin> set (commas (map print_json vs))"
    using JArr by (intro commas_no) (auto simp: list_all_iff)
  then show ?case by simp
next
  case (JObj kvs)
  have "NL \<notin> set (commas (map print_member kvs))"
    using JObj by (intro commas_no) (fastforce simp: list_all_iff quote_def esc_str_no_nl snds.simps)+
  then show ?case by simp
qed (auto simp: quote_def esc_str_no_nl print_lit_no_nl)

lemma valid_utf8_ascii: "list_all (\<lambda>c. byte c < 128) s \<Longrightarrow> valid_utf8 s"
  by (induction s) (auto simp: rune_len_ascii)

declare valid_utf8.simps(2) [simp del]

end
