(* ===== verification/Gotime.thy ===== *)
theory Gotime
  imports Prelude
begin

text \<open>
  \<open>time.Time\<close> as segment entries carry it: an instant in UTC, represented by its Unix
  nanoseconds, with the RFC 3339 text \<open>MarshalJSON\<close> writes and \<open>UnmarshalJSON\<close> reads.
  A numeric zone offset is accepted and folded into the instant; the engine itself only
  ever writes UTC.
\<close>

type_synonym time = int

section \<open>The calendar\<close>

text \<open>Days are counted from 1 January of the year \<open>-399\<close>, the start of a 400-year cycle, and
  years from that year, as \<open>time.absDate\<close> does from its own zero year.\<close>

definition leap :: "nat \<Rightarrow> bool" where
  "leap yi \<longleftrightarrow> (yi + 1) mod 4 = 0 \<and> ((yi + 1) mod 100 \<noteq> 0 \<or> (yi + 1) mod 400 = 0)"

definition month_lens :: "bool \<Rightarrow> nat list" where
  "month_lens l = [31, if l then 29 else 28, 31, 30, 31, 30, 31, 31, 30, 31, 30, 31]"

fun month_search :: "nat \<Rightarrow> nat list \<Rightarrow> nat \<Rightarrow> nat \<times> nat" where
  "month_search m [] d = (m, d + 1)"
| "month_search m (l # ls) d = (if d < l then (m, d + 1) else month_search (m + 1) ls (d - l))"

text \<open>The year (as an index), and the day of that year.\<close>

definition year_of_day :: "nat \<Rightarrow> nat \<times> nat" where
  "year_of_day D =
     (let n400 = D div 146097; d = D mod 146097;
          n100 = min 3 (d div 36524); d = d - 36524 * n100;
          n4 = d div 1461; d = d mod 1461;
          n = min 3 (d div 365)
      in (400 * n400 + 100 * n100 + 4 * n4 + n, d - 365 * n))"

definition day_of_year :: "nat \<Rightarrow> nat" where
  "day_of_year yi =
     146097 * (yi div 400) + 36524 * (yi mod 400 div 100) + 1461 * (yi mod 100 div 4) + 365 * (yi mod 4)"

definition day_of_date :: "nat \<Rightarrow> nat \<Rightarrow> nat \<Rightarrow> nat" where
  "day_of_date yi m d = day_of_year yi + sum_list (take (m - 1) (month_lens (leap yi))) + (d - 1)"

definition epoch_day :: nat where
  "epoch_day = 865259"

section \<open>RFC 3339 text\<close>

definition trim_zeros :: "string \<Rightarrow> string" where
  "trim_zeros s = rev (dropWhile (\<lambda>c. c = CHR ''0'') (rev s))"

definition frac_str :: "nat \<Rightarrow> string" where
  "frac_str ns = (if ns = 0 then [] else CHR ''.'' # trim_zeros (pad_nat 9 ns))"

text \<open>\<open>Time.MarshalJSON\<close> without the quotes; \<open>None\<close> is the error for years outside 0 to
  9999.\<close>

definition fmt_time :: "time \<Rightarrow> string option" where
  "fmt_time t =
     (let sec = t div 10 ^ 9; ns = nat (t mod 10 ^ 9);
          D = sec div 86400 + int epoch_day; sod = nat (sec mod 86400)
      in if D < 0 then None else
      let (yi, yd) = year_of_day (nat D); (m, d) = month_search 1 (month_lens (leap yi)) yd
      in if yi < 399 \<or> yi \<ge> 10399 then None else
        Some (pad_nat 4 (yi - 399) @ ''-'' @ pad_nat 2 m @ ''-'' @ pad_nat 2 d @ ''T''
          @ pad_nat 2 (sod div 3600) @ '':'' @ pad_nat 2 (sod div 60 mod 60) @ '':'' @ pad_nat 2 (sod mod 60)
          @ frac_str ns @ ''Z''))"

text \<open>A field of exactly \<open>k\<close> digits.\<close>

definition num_field :: "nat \<Rightarrow> string \<Rightarrow> (nat \<times> string) option" where
  "num_field k s =
     (if length (take k s) = k \<and> list_all is_digit (take k s)
      then Some (read_nat (take k s), drop k s) else None)"

definition lit_field :: "char \<Rightarrow> string \<Rightarrow> string option" where
  "lit_field c s = (case s of [] \<Rightarrow> None | c' # r \<Rightarrow> if c' = c then Some r else None)"

definition sep_field :: "char \<Rightarrow> nat \<Rightarrow> string \<Rightarrow> (nat \<times> string) option" where
  "sep_field c k s = Option.bind (lit_field c s) (num_field k)"

definition frac_field :: "string \<Rightarrow> nat \<times> string" where
  "frac_field s = (case s of
     c # r \<Rightarrow>
       if c = CHR ''.'' \<and> takeWhile is_digit r \<noteq> [] then
         (read_nat (take 9 (takeWhile is_digit r @ replicate 9 CHR ''0'')), dropWhile is_digit r)
       else (0, s)
   | [] \<Rightarrow> (0, s))"

text \<open>The zone, in seconds east of UTC; it must end the text.\<close>

definition zone_field :: "string \<Rightarrow> int option" where
  "zone_field s =
     (if s = ''Z'' then Some 0
      else case s of
        [] \<Rightarrow> None
      | c # r \<Rightarrow>
          if c \<noteq> CHR ''+'' \<and> c \<noteq> CHR ''-'' then None
          else (case num_field 2 r of
            None \<Rightarrow> None
          | Some (h, r1) \<Rightarrow> (case sep_field CHR '':'' 2 r1 of
              None \<Rightarrow> None
            | Some (m, r2) \<Rightarrow>
                if r2 = [] \<and> h < 24 \<and> m < 60
                then Some ((if c = CHR ''-'' then -1 else 1) * int (3600 * h + 60 * m)) else None)))"

definition time_of :: "nat \<Rightarrow> nat \<Rightarrow> nat \<Rightarrow> nat \<Rightarrow> nat \<Rightarrow> nat \<Rightarrow> nat \<Rightarrow> int \<Rightarrow> time option" where
  "time_of y mo d h mi s ns off =
     (if 1 \<le> mo \<and> mo \<le> 12 \<and> 1 \<le> d \<and> d \<le> month_lens (leap (y + 399)) ! (mo - 1) \<and> h < 24 \<and> mi < 60 \<and> s < 60
      then Some (((int (day_of_date (y + 399) mo d) - int epoch_day) * 86400
                  + int (3600 * h + 60 * mi + s) - off) * 10 ^ 9 + int ns)
      else None)"

definition parse_time :: "string \<Rightarrow> time option" where
  "parse_time t = (case num_field 4 t of None \<Rightarrow> None | Some (y, t) \<Rightarrow>
     (case sep_field CHR ''-'' 2 t of None \<Rightarrow> None | Some (mo, t) \<Rightarrow>
     (case sep_field CHR ''-'' 2 t of None \<Rightarrow> None | Some (d, t) \<Rightarrow>
     (case sep_field CHR ''T'' 2 t of None \<Rightarrow> None | Some (h, t) \<Rightarrow>
     (case sep_field CHR '':'' 2 t of None \<Rightarrow> None | Some (mi, t) \<Rightarrow>
     (case sep_field CHR '':'' 2 t of None \<Rightarrow> None | Some (s, t) \<Rightarrow>
     (case frac_field t of (ns, t) \<Rightarrow>
     (case zone_field t of None \<Rightarrow> None | Some off \<Rightarrow> time_of y mo d h mi s ns off))))))))"

section \<open>The calendar inverts\<close>

lemma month_search_correct:
  assumes "d < sum_list ls"
  shows "\<exists>k dd. month_search m ls d = (m + k, dd) \<and> k < length ls \<and> 1 \<le> dd \<and> dd \<le> ls ! k
    \<and> sum_list (take k ls) + (dd - 1) = d"
  using assms
proof (induction ls arbitrary: m d)
  case (Cons l ls)
  show ?case
  proof (cases "d < l")
    case False
    with Cons.prems have "d - l < sum_list ls" by auto
    from Cons.IH [OF this, of "m + 1"] obtain k dd where
      "month_search (m + 1) ls (d - l) = (m + 1 + k, dd)" "k < length ls" "1 \<le> dd" "dd \<le> ls ! k"
      "sum_list (take k ls) + (dd - 1) = d - l" by blast
    with False show ?thesis by (intro exI [of _ "Suc k"] exI [of _ dd]) auto
  qed auto
qed simp

lemma cycle_digits:
  fixes b c e :: nat
  assumes "b \<le> 3" "c \<le> 24" "e \<le> 3"
  shows "(400 * a + 100 * b + 4 * c + e) div 400 = a"
    "(400 * a + 100 * b + 4 * c + e) mod 400 div 100 = b"
    "(400 * a + 100 * b + 4 * c + e) mod 100 div 4 = c"
    "(400 * a + 100 * b + 4 * c + e) mod 4 = e"
proof -
  let ?y = "400 * a + 100 * b + 4 * c + e"
  have y: "?y = (100 * b + 4 * c + e) + 400 * a" "?y = (4 * c + e) + 100 * (4 * a + b)" "?y = e + 4 * (100 * a + 25 * b + c)"
    by simp_all
  have r: "?y mod 400 = 100 * b + 4 * c + e" "?y mod 100 = 4 * c + e"
    using assms by (subst y(1) y(2), simp only: mod_mult_self2, simp)+
  show "?y div 400 = a" using assms by (simp add: y(1))
  show "?y mod 400 div 100 = b" using assms by (simp add: r)
  show "?y mod 100 div 4 = c" using assms by (simp add: r)
  show "?y mod 4 = e" using assms by (subst y(3), simp only: mod_mult_self2, simp)
qed

lemma year_of_day_correct:
  assumes "year_of_day D = (yi, yd)"
  shows "day_of_year yi + yd = D \<and> yd < (if leap yi then 366 else 365)"
proof -
  define a d1 where ad: "a = D div 146097" "d1 = D mod 146097"
  define b d2 where bd: "b = min 3 (d1 div 36524)" "d2 = d1 - 36524 * b"
  define c d3 where cd: "c = d2 div 1461" "d3 = d2 mod 1461"
  define e where e: "e = min 3 (d3 div 365)"
  have y: "yi = 400 * a + 100 * b + 4 * c + e" "yd = d3 - 365 * e"
    using assms by (auto simp: year_of_day_def Let_def ad bd cd e)
  have D: "D = 146097 * a + d1" "d1 < 146097" by (simp_all add: ad)
  have d1: "d1 = 36524 * b + d2" "b \<le> 3" "d2 \<le> 36524" "d2 = 36524 \<longrightarrow> b = 3"
    using D(2) by (auto simp: bd min_def)
  have d2: "d2 = 1461 * c + d3" "c \<le> 24" "d3 < 1461"
    using d1(3) by (auto simp: cd)
  have d3: "d3 = 365 * e + yd" "e \<le> 3" "yd \<le> 365" "yd = 365 \<longrightarrow> e = 3"
    using d2(3) by (auto simp: y(2) e min_def)
  note cyc = cycle_digits [OF d1(2) d2(2) d3(2), of a, folded y(1)]
  have "leap yi" if "yd = 365"
  proof -
    have e3: "e = 3" using d3 that by simp
    have "yi + 1 = 4 * (100 * a + 25 * b + c + 1)" using e3 y(1) by simp
    then have m4: "(yi + 1) mod 4 = 0" by simp
    show ?thesis
    proof (cases "c = 24")
      case True
      have "d2 = 36524" using d2(1) d3(1) e3 that True by simp
      then have "b = 3" using d1(4) by simp
      then have "yi + 1 = 400 * (a + 1)" using y(1) True e3 by simp
      then show ?thesis using m4 by (simp add: leap_def)
    next
      case False
      have "yi + 1 = (4 * c + 4) + 100 * (4 * a + b)" using y(1) e3 by simp
      then have "(yi + 1) mod 100 = (4 * c + 4) mod 100" by (simp only: mod_mult_self2)
      then have "(yi + 1) mod 100 \<noteq> 0" using False d2(2) by simp
      then show ?thesis using m4 by (simp add: leap_def)
    qed
  qed
  moreover have "day_of_year yi + yd = D"
    using D(1) d1(1) d2(1) d3(1) by (simp add: day_of_year_def cyc)
  ultimately show ?thesis using d3(3) by (cases "yd = 365") auto
qed

lemma sum_month_lens: "sum_list (month_lens l) = (if l then 366 else 365)"
  by (simp add: month_lens_def)

lemma date_of_day:
  assumes "year_of_day D = (yi, yd)" "month_search 1 (month_lens (leap yi)) yd = (m, d)"
  shows "day_of_date yi m d = D" "1 \<le> m" "m \<le> 12" "1 \<le> d" "d \<le> month_lens (leap yi) ! (m - 1)"
proof -
  note y = year_of_day_correct [OF assms(1)]
  have "yd < sum_list (month_lens (leap yi))" using y by (simp add: sum_month_lens)
  from month_search_correct [OF this, of 1] assms(2) obtain k where
    "m = 1 + k" "k < 12" "1 \<le> d" "d \<le> month_lens (leap yi) ! k"
    "sum_list (take k (month_lens (leap yi))) + (d - 1) = yd"
    by (auto simp: month_lens_def)
  then show "day_of_date yi m d = D" "1 \<le> m" "m \<le> 12" "1 \<le> d" "d \<le> month_lens (leap yi) ! (m - 1)"
    using y by (auto simp: day_of_date_def)
qed

section \<open>Instants read back\<close>

lemma num_field_pad: "n < 10 ^ k \<Longrightarrow> num_field k (pad_nat k n @ s) = Some (n, s)"
  by (simp add: num_field_def pad_nat_digits read_pad_nat)

lemma sep_field_pad: "n < 10 ^ k \<Longrightarrow> sep_field c k (c # pad_nat k n @ s) = Some (n, s)"
  by (simp add: sep_field_def lit_field_def num_field_pad)

lemma trim_zeros_replicate:
  "\<exists>k. s = trim_zeros s @ replicate k CHR ''0''"
proof -
  let ?P = "\<lambda>c. c = CHR ''0''"
  have "takeWhile ?P (rev s) = replicate (length (takeWhile ?P (rev s))) CHR ''0''"
    by (rule replicate_eqI) (auto dest: set_takeWhileD)
  moreover have "rev s = takeWhile ?P (rev s) @ dropWhile ?P (rev s)" by simp
  ultimately have "s = trim_zeros s @ replicate (length (takeWhile ?P (rev s))) CHR ''0''"
    unfolding trim_zeros_def by (metis rev_append rev_replicate rev_rev_ident)
  then show ?thesis by blast
qed

lemma frac_field_str:
  assumes "ns < 10 ^ 9"
  shows "frac_field (frac_str ns @ ''Z'') = (ns, ''Z'')"
proof (cases "ns = 0")
  case False
  define f where "f = trim_zeros (pad_nat 9 ns)"
  obtain k where k: "pad_nat 9 ns = f @ replicate k CHR ''0''"
    using trim_zeros_replicate by (auto simp: f_def)
  have ld: "list_all is_digit f" using pad_nat_digits [of 9 ns] by (simp add: k)
  have rn: "read_nat (f @ replicate k CHR ''0'') = ns"
    using read_pad_nat [of 9 ns] assms by (simp flip: k)
  have ne: "f \<noteq> []"
  proof
    assume "f = []"
    moreover have "read_nat (replicate k CHR ''0'') = 0"
      by (induction k) (auto simp: read_nat_def char_digit_def)
    ultimately show False using rn False by simp
  qed
  have "length f + k = 9" using arg_cong [OF k, of length] by simp
  then have "take 9 (f @ replicate 9 CHR ''0'') = f @ replicate k CHR ''0''"
    by (simp add: min_def)
  moreover have "takeWhile is_digit (f @ ''Z'') = f" "dropWhile is_digit (f @ ''Z'') = ''Z''"
    using ld by (auto simp: list_all_iff is_digit_iff)
  ultimately show ?thesis using False rn ne by (simp add: frac_field_def frac_str_def flip: f_def)
qed (simp add: frac_field_def frac_str_def)

lemma month_lens_le: "k < 12 \<Longrightarrow> month_lens l ! k \<le> 31"
  by (simp add: month_lens_def nth_Cons')

theorem parse_fmt_time:
  assumes "fmt_time t = Some s"
  shows "parse_time s = Some t"
proof -
  define sec ns D sod where defs: "sec = t div 10 ^ 9" "ns = nat (t mod 10 ^ 9)"
    "D = nat (sec div 86400 + int epoch_day)" "sod = nat (sec mod 86400)"
  obtain yi yd m d where yd: "year_of_day D = (yi, yd)" and md: "month_search 1 (month_lens (leap yi)) yd = (m, d)"
    by (meson surj_pair)
  have s: "s = pad_nat 4 (yi - 399) @ ''-'' @ pad_nat 2 m @ ''-'' @ pad_nat 2 d @ ''T''
          @ pad_nat 2 (sod div 3600) @ '':'' @ pad_nat 2 (sod div 60 mod 60) @ '':'' @ pad_nat 2 (sod mod 60)
          @ frac_str ns @ ''Z''"
    and yr: "399 \<le> yi" "yi < 10399" and D: "int D = sec div 86400 + int epoch_day"
    using assms yd md by (auto simp: fmt_time_def Let_def defs split: if_splits)
  note dt = date_of_day [OF yd md]
  have dd: "d < 100" using dt(5) month_lens_le [of "m - 1" "leap yi"] dt(2,3) by force
  have sod: "sod < 86400" by (simp add: defs(4) nat_less_iff)
  have hms: "3600 * (sod div 3600) + 60 * (sod div 60 mod 60) + sod mod 60 = sod"
  proof -
    have "sod div 3600 = sod div 60 div 60" using div_mult2_eq [of sod 60 60] by simp
    then show ?thesis
      using mult_div_mod_eq [of 60 sod] mult_div_mod_eq [of 60 "sod div 60"] by linarith
  qed
  have h: "sod div 3600 < 24" using sod by simp
  have nsb: "ns < 10 ^ 9" by (simp add: defs(2) nat_less_iff)
  have z: "zone_field ''Z'' = Some 0" by (simp add: zone_field_def)
  have "parse_time s = time_of (yi - 399) m d (sod div 3600) (sod div 60 mod 60) (sod mod 60) ns 0"
    using yr dt(3) dd h nsb
    by (simp add: parse_time_def s num_field_pad sep_field_pad frac_field_str z)
  also have "\<dots> = Some (((int D - int epoch_day) * 86400 + int sod) * 10 ^ 9 + int ns)"
    using dt h yr hms by (simp add: time_of_def del: of_nat_add of_nat_mult)
  also have "((int D - int epoch_day) * 86400 + int sod) * 10 ^ 9 + int ns = t"
    using mult_div_mod_eq [of "10 ^ 9" t] mult_div_mod_eq [of 86400 sec] by (simp add: D defs(1,2,4))
  finally show ?thesis .
qed
end
