(* ===== verification/Ndjson.thy ===== *)
theory Ndjson
  imports Json Gotime
begin

text \<open>
  \<open>store/ndjson.go\<close>: the segment entry, its CRC32C checksum, and the NDJSON line codec
  \<open>Encode\<close> / \<open>Decode\<close>.  A struct is unmarshalled field by field in text order, matching
  names case-insensitively, as \<open>encoding/json\<close> does.
\<close>

unbundle bit_operations_syntax

section \<open>CRC32C\<close>

definition crc_bit :: "nat \<Rightarrow> nat" where
  "crc_bit c = (if odd c then (c div 2) XOR 0x82F63B78 else c div 2)"

definition crc_byte :: "char \<Rightarrow> nat \<Rightarrow> nat" where
  "crc_byte b c = (crc_bit ^^ 8) (c XOR byte b)"

definition crc32c :: "string \<Rightarrow> nat" where
  "crc32c s = fold crc_byte s 0xFFFFFFFF XOR 0xFFFFFFFF"

section \<open>Entries\<close>

definition OpInsert :: string where "OpInsert = ''insert''"
definition OpUpdate :: string where "OpUpdate = ''update''"
definition OpDelete :: string where "OpDelete = ''delete''"

record entry =
  ID :: nat
  Op :: string
  Ts :: time
  Rev :: nat
  Data :: "gmap option"
  Epoch :: nat
  ExpiresAt :: int
  CRC :: "nat option"

definition zero_time :: time where
  "zero_time = - 62135596800 * 10 ^ 9"

definition empty_entry :: entry where
  "empty_entry = \<lparr>ID = 0, Op = [], Ts = zero_time, Rev = 0, Data = None, Epoch = 0, ExpiresAt = 0, CRC = None\<rparr>"

datatype store_err =
    ErrMarshal
  | ErrUnmarshal
  | ErrCorruptEntry nat

section \<open>Checksums\<close>

text \<open>The bytes of the checksum: every optional counter only when it is not zero, the data only
  when the map is not nil.\<close>

definition opt_u64 :: "nat \<Rightarrow> string" where
  "opt_u64 n = (if n = 0 then [] else le_bytes 8 n)"

definition opt_i64 :: "int \<Rightarrow> string" where
  "opt_i64 i = (if i = 0 then [] else le_bytes 8 (u64_of_i64 i))"

definition checksum_input ::
  "nat \<Rightarrow> string \<Rightarrow> nat \<Rightarrow> int \<Rightarrow> nat \<Rightarrow> gmap option \<Rightarrow> string option" where
  "checksum_input rid opn rv expires epoch data =
     (case data of
        None \<Rightarrow> Some (le_bytes 8 rid @ opn @ opt_u64 rv @ opt_i64 expires @ opt_u64 epoch)
      | Some m \<Rightarrow> (case marshal_gval (JObj m) of
          None \<Rightarrow> None
        | Some b \<Rightarrow>
            Some (le_bytes 8 rid @ opn @ opt_u64 rv @ opt_i64 expires @ opt_u64 epoch @ b)))"

definition checksum :: "entry \<Rightarrow> nat option" where
  "checksum e =
     map_option crc32c (checksum_input (ID e) (Op e) (Rev e) (ExpiresAt e) (Epoch e) (Data e))"

section \<open>Encode\<close>

definition json_nat :: "nat \<Rightarrow> jtext" where
  "json_nat n = JNum (Lit False (show_nat n) None None)"

definition json_int :: "int \<Rightarrow> jtext" where
  "json_int i = JNum (Lit (i < 0) (show_nat (nat (abs i))) None None)"

text \<open>The struct fields with \<open>omitempty\<close>: a zero counter and an empty map are left out.\<close>

definition nat_member :: "string \<Rightarrow> nat \<Rightarrow> (string \<times> jtext) list" where
  "nat_member k n = (if n = 0 then [] else [(k, json_nat n)])"

definition int_member :: "string \<Rightarrow> int \<Rightarrow> (string \<times> jtext) list" where
  "int_member k i = (if i = 0 then [] else [(k, json_int i)])"

definition data_member :: "gmap option \<Rightarrow> (string \<times> jtext) list option" where
  "data_member data = (case data of
     None \<Rightarrow> Some []
   | Some m \<Rightarrow> if m = [] then Some [] else map_option (\<lambda>j. [(''data'', j)]) (of_gval (JObj m)))"

definition entry_json :: "entry \<Rightarrow> jtext option" where
  "entry_json e = (case (fmt_time (Ts e), data_member (Data e)) of
     (Some ts, Some dm) \<Rightarrow>
       Some (JObj ([(''id'', json_nat (ID e)), (''op'', JStr (Op e)), (''ts'', JStr ts)]
         @ nat_member ''rev'' (Rev e) @ dm @ nat_member ''epoch'' (Epoch e)
         @ int_member ''expires_at'' (ExpiresAt e)
         @ (case CRC e of None \<Rightarrow> [] | Some c \<Rightarrow> [(''crc'', json_nat c)])))
   | _ \<Rightarrow> None)"

definition Encode :: "entry \<Rightarrow> store_err + string" where
  "Encode e = (case checksum e of
     None \<Rightarrow> Inl ErrMarshal
   | Some crc \<Rightarrow> (case entry_json (e\<lparr>CRC := Some crc\<rparr>) of
       None \<Rightarrow> Inl ErrMarshal
     | Some j \<Rightarrow> Inr (print_json j @ [NL])))"

section \<open>Decode\<close>

text \<open>Field names match up to simple case folding; besides the ASCII letters only the long s and
  the Kelvin sign fold into them.\<close>

definition lower :: "char \<Rightarrow> char" where
  "lower c = (if CHR ''A'' \<le> c \<and> c \<le> CHR ''Z'' then char_of (byte c + 32) else c)"

fun fold_name :: "string \<Rightarrow> string" where
  "fold_name (c # d # e # r) =
     (if c = CHR 0xC5 \<and> d = CHR 0xBF then CHR ''s'' # fold_name (e # r)
      else if c = CHR 0xE2 \<and> d = CHR 0x84 \<and> e = CHR 0xAA then CHR ''k'' # fold_name r
      else lower c # fold_name (d # e # r))"
| "fold_name [c, d] = (if c = CHR 0xC5 \<and> d = CHR 0xBF then ''s'' else [lower c, lower d])"
| "fold_name [c] = [lower c]"
| "fold_name [] = []"

text \<open>Integer targets accept only plain integer literals in range; \<open>null\<close> leaves them alone.\<close>

definition get_uint :: "nat \<Rightarrow> jtext \<Rightarrow> nat \<Rightarrow> nat option" where
  "get_uint bits j old = (case j of
     JNull \<Rightarrow> Some old
   | JNum (Lit neg ip None None) \<Rightarrow>
       if \<not> neg \<and> read_nat ip < 2 ^ bits then Some (read_nat ip) else None
   | _ \<Rightarrow> None)"

definition get_int64 :: "jtext \<Rightarrow> int \<Rightarrow> int option" where
  "get_int64 j old = (case j of
     JNull \<Rightarrow> Some old
   | JNum (Lit neg ip None None) \<Rightarrow>
       (let i = (if neg then - int (read_nat ip) else int (read_nat ip)) in
        if is_i64 i then Some i else None)
   | _ \<Rightarrow> None)"

definition get_str :: "jtext \<Rightarrow> string \<Rightarrow> string option" where
  "get_str j old = (case j of JNull \<Rightarrow> Some old | JStr s \<Rightarrow> Some s | _ \<Rightarrow> None)"

definition get_time :: "jtext \<Rightarrow> time \<Rightarrow> time option" where
  "get_time j old = (case j of JNull \<Rightarrow> Some old | JStr s \<Rightarrow> parse_time s | _ \<Rightarrow> None)"

text \<open>An object is merged into the map already there; \<open>null\<close> makes it nil.\<close>

definition get_map :: "jtext \<Rightarrow> gmap option \<Rightarrow> gmap option option" where
  "get_map j old = (case j of
     JNull \<Rightarrow> Some None
   | JObj kvs \<Rightarrow> (case to_gval (JObj kvs) of
       Some (JObj m) \<Rightarrow> Some (Some (fold (\<lambda>(k, v). om_ins k v) m (case old of None \<Rightarrow> [] | Some o' \<Rightarrow> o')))
     | _ \<Rightarrow> None)
   | _ \<Rightarrow> None)"

definition get_ptr_uint :: "nat \<Rightarrow> jtext \<Rightarrow> nat option option" where
  "get_ptr_uint bits j = (if j = JNull then Some None else map_option Some (get_uint bits j 0))"

definition set_field :: "string \<times> jtext \<Rightarrow> entry \<Rightarrow> entry option" where
  "set_field kv e =
     (let k = fold_name (fst kv); j = snd kv in
      if k = ''id'' then map_option (\<lambda>n. e\<lparr>ID := n\<rparr>) (get_uint 64 j (ID e))
      else if k = ''op'' then map_option (\<lambda>s. e\<lparr>Op := s\<rparr>) (get_str j (Op e))
      else if k = ''ts'' then map_option (\<lambda>t. e\<lparr>Ts := t\<rparr>) (get_time j (Ts e))
      else if k = ''rev'' then map_option (\<lambda>n. e\<lparr>Rev := n\<rparr>) (get_uint 64 j (Rev e))
      else if k = ''data'' then map_option (\<lambda>m. e\<lparr>Data := m\<rparr>) (get_map j (Data e))
      else if k = ''epoch'' then map_option (\<lambda>n. e\<lparr>Epoch := n\<rparr>) (get_uint 64 j (Epoch e))
      else if k = ''expires_at'' then map_option (\<lambda>i. e\<lparr>ExpiresAt := i\<rparr>) (get_int64 j (ExpiresAt e))
      else if k = ''crc'' then map_option (\<lambda>c. e\<lparr>CRC := c\<rparr>) (get_ptr_uint 32 j)
      else Some e)"

fun set_fields :: "(string \<times> jtext) list \<Rightarrow> entry \<Rightarrow> entry option" where
  "set_fields [] e = Some e"
| "set_fields (kv # kvs) e = (case set_field kv e of None \<Rightarrow> None | Some e' \<Rightarrow> set_fields kvs e')"

definition unmarshal_entry :: "string \<Rightarrow> entry option" where
  "unmarshal_entry s = (case parse_json s of
     Some JNull \<Rightarrow> Some empty_entry
   | Some (JObj kvs) \<Rightarrow> set_fields kvs empty_entry
   | _ \<Rightarrow> None)"

definition Decode :: "string \<Rightarrow> store_err + entry" where
  "Decode line = (case unmarshal_entry line of
     None \<Rightarrow> Inl ErrUnmarshal
   | Some e \<Rightarrow> (case CRC e of
       None \<Rightarrow> Inr e
     | Some want \<Rightarrow> (case checksum e of
         None \<Rightarrow> Inl ErrMarshal
       | Some got \<Rightarrow> if got \<noteq> want then Inl (ErrCorruptEntry (ID e)) else Inr e)))"

section \<open>Constructors\<close>

text \<open>The current time, which the source reads from the clock, is an argument.\<close>

definition NewInsert :: "time \<Rightarrow> nat \<Rightarrow> gmap option \<Rightarrow> entry" where
  "NewInsert now rid data = empty_entry\<lparr>ID := rid, Op := OpInsert, Ts := now, Data := data\<rparr>"

definition NewUpdate :: "time \<Rightarrow> nat \<Rightarrow> gmap option \<Rightarrow> entry" where
  "NewUpdate now rid data = empty_entry\<lparr>ID := rid, Op := OpUpdate, Ts := now, Data := data\<rparr>"

definition NewDelete :: "time \<Rightarrow> nat \<Rightarrow> entry" where
  "NewDelete now rid = empty_entry\<lparr>ID := rid, Op := OpDelete, Ts := now\<rparr>"

section \<open>Entries that round-trip\<close>

definition data_ok :: "gmap option \<Rightarrow> bool" where
  "data_ok data = (case data of None \<Rightarrow> True
     | Some m \<Rightarrow> m \<noteq> [] \<and> gval_ok (JObj m) \<and> nesting (JObj m) < max_nesting)"

definition entry_ok :: "entry \<Rightarrow> bool" where
  "entry_ok e \<longleftrightarrow> is_u64 (ID e) \<and> valid_utf8 (Op e) \<and> fmt_time (Ts e) \<noteq> None \<and> is_u64 (Rev e)
     \<and> data_ok (Data e) \<and> is_u64 (Epoch e) \<and> is_i64 (ExpiresAt e)"

section \<open>Checksums are 32-bit\<close>

lemma take_bit_32: "take_bit 32 n = n \<longleftrightarrow> n < 4294967296" for n :: nat
  by (simp add: take_bit_nat_eq_self_iff)

lemma crc_bit_lt: "c < 4294967296 \<Longrightarrow> crc_bit c < 4294967296"
proof -
  assume "c < 4294967296"
  then have "c div 2 < 4294967296" by simp
  then have "take_bit 32 (c div 2) = c div 2" by (simp only: take_bit_32)
  moreover have "take_bit 32 (0x82F63B78::nat) = 0x82F63B78" by simp
  ultimately have "take_bit 32 (crc_bit c) = crc_bit c" by (simp add: crc_bit_def take_bit_xor)
  then show ?thesis by (simp only: take_bit_32)
qed

lemma crc_byte_lt: "c < 4294967296 \<Longrightarrow> crc_byte b c < 4294967296"
proof -
  assume "c < 4294967296"
  moreover have "byte b < 4294967296" using byte_lt [of b] by linarith
  ultimately have "take_bit 32 (c XOR byte b) = c XOR byte b"
    by (simp only: take_bit_xor flip: take_bit_32)
  then have "c XOR byte b < 4294967296" by (simp only: take_bit_32)
  then have "(crc_bit ^^ n) (c XOR byte b) < 4294967296" for n by (induction n) (auto intro: crc_bit_lt)
  then show ?thesis by (simp only: crc_byte_def)
qed

lemma crc32c_lt: "crc32c s < 4294967296"
proof -
  have "fold crc_byte s c < 4294967296" if "c < 4294967296" for c
    using that by (induction s arbitrary: c) (auto intro: crc_byte_lt)
  from this [of "0xFFFFFFFF"] have "take_bit 32 (fold crc_byte s 0xFFFFFFFF) = fold crc_byte s 0xFFFFFFFF"
    by (simp add: take_bit_32)
  then have "take_bit 32 (crc32c s) = crc32c s" by (simp add: crc32c_def take_bit_xor)
  then show ?thesis by (simp only: take_bit_32)
qed

section \<open>Fields read back\<close>

lemma fold_names [simp]:
  "fold_name ''id'' = ''id''" "fold_name ''op'' = ''op''" "fold_name ''ts'' = ''ts''"
  "fold_name ''rev'' = ''rev''" "fold_name ''data'' = ''data''" "fold_name ''epoch'' = ''epoch''"
  "fold_name ''expires_at'' = ''expires_at''" "fold_name ''crc'' = ''crc''" "fold_name ''tx'' = ''tx''"
  "fold_name ''t'' = ''t''" "fold_name ''i'' = ''i''" "fold_name ''n'' = ''n''"
  by (simp_all add: lower_def less_eq_char_def)

declare fold_name.simps [simp del]

lemma get_uint_json [simp]: "n < 2 ^ bits \<Longrightarrow> get_uint bits (json_nat n) old = Some n"
  by (simp add: get_uint_def json_nat_def)

lemma get_int64_json [simp]: "is_i64 i \<Longrightarrow> get_int64 (json_int i) old = Some i"
  by (simp add: get_int64_def json_int_def Let_def)

lemma get_ptr_json [simp]: "n < 2 ^ bits \<Longrightarrow> get_ptr_uint bits (json_nat n) = Some (Some n)"
  by (simp add: get_ptr_uint_def) (simp add: json_nat_def)

lemma json_ok_nat [simp]: "json_ok (json_nat n)"
  using hd_show_nat [of n] show_nat_0 by (cases "n = 0") (auto simp: json_nat_def show_nat_digits)

lemma json_ok_int [simp]: "json_ok (json_int i)"
  using json_ok_nat [of "nat (abs i)"] by (simp add: json_int_def json_nat_def)

lemma nesting_num [simp]: "nesting (json_nat n) = 0" "nesting (json_int i) = 0"
  by (simp_all add: json_nat_def json_int_def)

lemma field_names_utf8 [simp]:
  "valid_utf8 ''id''" "valid_utf8 ''op''" "valid_utf8 ''ts''" "valid_utf8 ''rev''" "valid_utf8 ''data''"
  "valid_utf8 ''epoch''" "valid_utf8 ''expires_at''" "valid_utf8 ''crc''" "valid_utf8 ''tx''"
  "valid_utf8 ''t''" "valid_utf8 ''i''" "valid_utf8 ''n''"
  by (rule valid_utf8_ascii, simp)+

lemma digits_ascii: "list_all is_digit s \<Longrightarrow> list_all (\<lambda>c. byte c < 128) s"
  by (auto simp: list_all_iff is_digit_iff)

lemma fmt_time_utf8: "fmt_time t = Some s \<Longrightarrow> valid_utf8 s"
proof -
  have "list_all is_digit (trim_zeros (pad_nat 9 n))" for n
    using trim_zeros_replicate [of "pad_nat 9 n"] pad_nat_digits [of 9 n] by (metis list_all_append)
  then have f: "list_all (\<lambda>c. byte c < 128) (frac_str n)" for n
    by (simp add: frac_str_def digits_ascii)
  assume "fmt_time t = Some s"
  then have "list_all (\<lambda>c. byte c < 128) s"
    by (auto simp: fmt_time_def Let_def digits_ascii [OF pad_nat_digits] f split: if_splits prod.splits)
  then show ?thesis by (rule valid_utf8_ascii)
qed

text \<open>The data member of a well-formed record and what it reads back as.\<close>

lemma data_member_back:
  assumes "data_ok data"
  obtains dm where "data_member data = Some dm" "list_all (\<lambda>kv. valid_utf8 (fst kv) \<and> json_ok (snd kv)) dm"
    "\<forall>kv\<in>set dm. nesting (snd kv) < max_nesting"
    "case data of None \<Rightarrow> dm = [] | Some m \<Rightarrow> (\<exists>j. dm = [(''data'', j)] \<and> get_map j None = Some (Some m))"
proof (cases data)
  case None
  with that show ?thesis by (simp add: data_member_def)
next
  case (Some m)
  then have m: "m \<noteq> []" "gval_ok (JObj m)" "nesting (JObj m) < max_nesting"
    using assms by (simp_all add: data_ok_def)
  from of_gval_back [OF m(2)] obtain j where j: "of_gval (JObj m) = Some j" "reads_back (JObj m) j" by blast
  then obtain kvs where kvs: "j = JObj kvs" by auto
  have "om_ok m" using m(2) by simp
  then have "get_map j None = Some (Some m)"
    using j(2) fold_om_ins_sorted [of "[]" m] by (auto simp: get_map_def reads_back_def kvs)
  then show ?thesis
    using that [of "[(''data'', j)]"] j m Some by (simp add: data_member_def reads_back_def)
qed

lemma set_fields_append:
  "set_fields (a @ b) e = (case set_fields a e of None \<Rightarrow> None | Some e' \<Rightarrow> set_fields b e')"
  by (induction a arbitrary: e) (auto split: option.splits)

lemma set_fields_nat_member:
  "n < 2 ^ 64 \<Longrightarrow> Rev e = 0 \<Longrightarrow> set_fields (nat_member ''rev'' n) e = Some (e\<lparr>Rev := n\<rparr>)"
  "n < 2 ^ 64 \<Longrightarrow> Epoch e = 0 \<Longrightarrow> set_fields (nat_member ''epoch'' n) e = Some (e\<lparr>Epoch := n\<rparr>)"
  "is_i64 i \<Longrightarrow> ExpiresAt e = 0 \<Longrightarrow> set_fields (int_member ''expires_at'' i) e = Some (e\<lparr>ExpiresAt := i\<rparr>)"
  by (simp_all add: nat_member_def int_member_def set_field_def)

lemma entry_json_back:
  assumes ok: "entry_ok e" and crc: "\<forall>c. CRC e = Some c \<longrightarrow> c < 2 ^ 32"
  obtains kvs where "entry_json e = Some (JObj kvs)" "json_ok (JObj kvs)"
    "nesting (JObj kvs) \<le> max_nesting" "set_fields kvs empty_entry = Some e"
proof -
  obtain ts where ts: "fmt_time (Ts e) = Some ts" using ok by (auto simp: entry_ok_def)
  have dok: "data_ok (Data e)" using ok by (simp add: entry_ok_def)
  obtain dm where dm: "data_member (Data e) = Some dm"
    "list_all (\<lambda>kv. valid_utf8 (fst kv) \<and> json_ok (snd kv)) dm"
    "\<forall>kv\<in>set dm. nesting (snd kv) < max_nesting"
    "case Data e of None \<Rightarrow> dm = [] | Some m \<Rightarrow> (\<exists>j. dm = [(''data'', j)] \<and> get_map j None = Some (Some m))"
    by (rule data_member_back [OF dok])
  have sd: "set_fields dm e' = Some (e'\<lparr>Data := Data e\<rparr>)" if "Data e' = None" for e'
    using dm(4) that by (cases "Data e") (auto simp: set_field_def)
  define cm where "cm = (case CRC e of None \<Rightarrow> [] | Some c \<Rightarrow> [(''crc'', json_nat c)])"
  have sc: "set_fields cm e' = Some (e'\<lparr>CRC := CRC e\<rparr>)" if "CRC e' = None" for e'
    using crc that by (cases "CRC e") (auto simp: cm_def set_field_def)
  define kvs where "kvs = [(''id'', json_nat (ID e)), (''op'', JStr (Op e)), (''ts'', JStr ts)]
         @ nat_member ''rev'' (Rev e) @ dm @ nat_member ''epoch'' (Epoch e)
         @ int_member ''expires_at'' (ExpiresAt e) @ cm"
  have "entry_json e = Some (JObj kvs)" by (simp add: entry_json_def ts dm(1) kvs_def cm_def)
  moreover have "json_ok (JObj kvs)"
    using dm(2) ok fmt_time_utf8 [OF ts]
    by (simp add: kvs_def cm_def nat_member_def int_member_def entry_ok_def valid_utf8_ascii split: option.splits)
  moreover have "\<forall>kv\<in>set kvs. nesting (snd kv) < max_nesting"
    using dm(3) by (auto simp: kvs_def cm_def nat_member_def int_member_def max_nesting_def split: option.splits)
  then have "\<forall>kv\<in>set kvs. nesting (snd kv) \<le> 9999" by (fastforce simp: max_nesting_def)
  then have "nesting (JObj kvs) \<le> max_nesting"
    using foldr_max_le [of "\<lambda>kv. nesting (snd kv)" kvs 9999] by (simp add: max_nesting_def)
  moreover have "set_fields kvs empty_entry = Some e"
    using ok parse_fmt_time [OF ts]
    by (simp add: kvs_def set_fields_append set_field_def get_str_def get_time_def sd sc empty_entry_def
        set_fields_nat_member entry_ok_def is_u64_def)
  ultimately show ?thesis by (rule that)
qed

lemma checksum_crc [simp]: "checksum (e\<lparr>CRC := c\<rparr>) = checksum e"
  by (simp add: checksum_def)

lemma checksum_lt: "checksum e = Some c \<Longrightarrow> c < 4294967296"
  using crc32c_lt by (auto simp: checksum_def)

lemma entry_ok_crc [simp]: "entry_ok (e\<lparr>CRC := c\<rparr>) = entry_ok e"
  by (simp add: entry_ok_def)

lemma data_ok_input:
  assumes "data_ok data"
  obtains inp where "checksum_input rid opn rv expires epoch data = Some inp"
proof (cases data)
  case (Some m)
  then have "gval_ok (JObj m)" using assms by (simp add: data_ok_def)
  then obtain j where "of_gval (JObj m) = Some j" using of_gval_back by blast
  then show ?thesis using that Some by (auto simp: checksum_input_def marshal_gval_def)
qed (use that in \<open>auto simp: checksum_input_def\<close>)

lemma entry_ok_checksum:
  assumes "entry_ok e"
  obtains c where "checksum e = Some c"
proof -
  have "data_ok (Data e)" using assms by (simp add: entry_ok_def)
  then obtain inp where "checksum_input (ID e) (Op e) (Rev e) (ExpiresAt e) (Epoch e) (Data e) = Some inp"
    by (rule data_ok_input)
  then show ?thesis using that by (simp add: checksum_def)
qed

theorem Decode_Encode_entry:
  assumes "entry_ok e"
  obtains l c where "Encode e = Inr (l @ [NL])" "NL \<notin> set l" "checksum e = Some c"
    "Decode l = Inr (e\<lparr>CRC := Some c\<rparr>)"
proof -
  obtain c where sum: "checksum e = Some c" by (rule entry_ok_checksum [OF assms])
  let ?e = "e\<lparr>CRC := Some c\<rparr>"
  obtain kvs where kvs: "entry_json ?e = Some (JObj kvs)" "json_ok (JObj kvs)"
    "nesting (JObj kvs) \<le> max_nesting" "set_fields kvs empty_entry = Some ?e"
    using entry_json_back [of ?e] assms checksum_lt [OF sum] by auto
  have "parse_json (print_json (JObj kvs)) = Some (JObj kvs)" using kvs(2,3) by (rule parse_print_json)
  then have "Decode (print_json (JObj kvs)) = Inr ?e"
    using kvs(4) sum by (simp add: Decode_def unmarshal_entry_def)
  moreover have "Encode e = Inr (print_json (JObj kvs) @ [NL])" using sum kvs(1) by (simp add: Encode_def)
  moreover have "NL \<notin> set (print_json (JObj kvs))" using kvs(2) by (rule print_json_no_nl)
  ultimately show ?thesis using sum that by blast
qed

section \<open>Empty data\<close>

lemma parse_quoted_empty: "marshal_gval (JObj []) = Some ''{}''"
  by (simp add: marshal_gval_def)

lemma entry_json_empty:
  "entry_json (e\<lparr>Data := Some [], CRC := c\<rparr>) = entry_json (e\<lparr>Data := None, CRC := c\<rparr>)"
  by (cases "fmt_time (Ts e)") (simp_all add: entry_json_def data_member_def)

text \<open>An entry whose data map is empty but not nil is checksummed with the text \<open>{}\<close> and
  written without it, so the reader compares against the checksum of different bytes.\<close>

lemma Decode_Encode_empty_data:
  assumes ok: "entry_ok (e\<lparr>Data := None\<rparr>)"
  obtains l c c' where "Encode (e\<lparr>Data := Some []\<rparr>) = Inr (l @ [NL])"
    "checksum (e\<lparr>Data := Some []\<rparr>) = Some c" "checksum (e\<lparr>Data := None\<rparr>) = Some c'"
    "Decode l = (if c' \<noteq> c then Inl (ErrCorruptEntry (ID e)) else Inr (e\<lparr>Data := None, CRC := Some c\<rparr>))"
proof -
  obtain c where c: "checksum (e\<lparr>Data := Some []\<rparr>) = Some c"
    by (simp add: checksum_def checksum_input_def parse_quoted_empty)
  obtain c' where c': "checksum (e\<lparr>Data := None\<rparr>) = Some c'"
    by (simp add: checksum_def checksum_input_def)
  let ?e = "e\<lparr>Data := None, CRC := Some c\<rparr>"
  obtain kvs where kvs: "entry_json ?e = Some (JObj kvs)" "json_ok (JObj kvs)"
    "nesting (JObj kvs) \<le> max_nesting" "set_fields kvs empty_entry = Some ?e"
    using entry_json_back [of ?e] ok checksum_lt [OF c] by (auto simp: entry_ok_def)
  have "entry_json (e\<lparr>Data := Some [], CRC := Some c\<rparr>) = Some (JObj kvs)"
    using kvs(1) by (simp only: entry_json_empty)
  then have "Encode (e\<lparr>Data := Some []\<rparr>) = Inr (print_json (JObj kvs) @ [NL])"
    using c by (simp add: Encode_def)
  moreover have "parse_json (print_json (JObj kvs)) = Some (JObj kvs)" using kvs(2,3) by (rule parse_print_json)
  then have "Decode (print_json (JObj kvs)) =
      (if c' \<noteq> c then Inl (ErrCorruptEntry (ID e)) else Inr ?e)"
    using kvs(4) c' checksum_crc [where e = "e\<lparr>Data := None\<rparr>"] by (simp add: Decode_def unmarshal_entry_def)
  ultimately show ?thesis using c c' that by blast
qed

lemma funpow8: "(f ^^ 8) x = f (f (f (f (f (f (f (f x)))))))"
  by (simp add: numeral_eq_Suc)

lemmas crc_eval = crc32c_def crc_byte_def crc_bit_def funpow8

section \<open>Properties\<close>

text \<open>C14: every well-formed entry is encoded as one line (newline last and nowhere else), and decoding
  that line returns the entry with the checksum that was stamped on it.\<close>

theorem encode_decode:
  assumes "entry_ok e"
  shows "\<exists>l. Encode e = Inr (l @ [NL]) \<and> NL \<notin> set l \<and> Decode l = Inr (e\<lparr>CRC := checksum e\<rparr>)
    \<and> checksum e \<noteq> None"
  by (rule Decode_Encode_entry [OF assms]) auto

lemma le_bytes_8: "le_bytes 8 n = map (\<lambda>k. char_of (n div 256 ^ k mod 256)) [0, 1, 2, 3, 4, 5, 6, 7]"
proof -
  have "(8::nat) = Suc (Suc (Suc (Suc (Suc (Suc (Suc (Suc 0)))))))" by simp
  then show ?thesis by (simp only: le_bytes.simps) (simp add: div_mult2_eq [symmetric])
qed

definition sample_entry :: entry where
  "sample_entry = empty_entry\<lparr>ID := 1, Op := OpInsert, Ts := 0, Rev := 1, Data := Some [(''a'', JStr ''x'')]\<rparr>"

lemma pad_nat_eval:
  "pad_nat 2 n = [digit_char (n div 10 mod 10), digit_char (n mod 10)]"
  "pad_nat 4 n = [digit_char (n div 1000 mod 10), digit_char (n div 100 mod 10), digit_char (n div 10 mod 10), digit_char (n mod 10)]"
proof -
  have "(4::nat) = Suc (Suc (Suc (Suc 0)))" "(2::nat) = Suc (Suc 0)" by simp_all
  then show "pad_nat 2 n = [digit_char (n div 10 mod 10), digit_char (n mod 10)]"
    "pad_nat 4 n = [digit_char (n div 1000 mod 10), digit_char (n div 100 mod 10), digit_char (n div 10 mod 10), digit_char (n mod 10)]"
    by (simp_all only: pad_nat.simps) (simp_all flip: div_mult2_eq)
qed

lemma fmt_time_0: "fmt_time 0 = Some ''1970-01-01T00:00:00Z''"
  by (simp add: fmt_time_def epoch_day_def year_of_day_def Let_def leap_def month_lens_def frac_str_def pad_nat_eval
      digit_char_def char_of_def bit_Suc_0_iff)

lemma sample_entry_ok: "entry_ok sample_entry"
  by (simp add: sample_entry_def entry_ok_def empty_entry_def data_ok_def OpInsert_def valid_utf8_ascii is_u64_def
      is_i64_def max_nesting_def om_ok_def fmt_time_0)

lemma sample_checksum: "checksum sample_entry = Some 1270984353"
  by (simp add: sample_entry_def empty_entry_def checksum_def checksum_input_def marshal_gval_def OpInsert_def
        opt_u64_def opt_i64_def le_bytes_8 crc_eval quote_def esc_byte_def)

theorem encode_decode_witness:
  "\<exists>l. Encode sample_entry = Inr (l @ [NL]) \<and> NL \<notin> set l
     \<and> Decode l = Inr (sample_entry\<lparr>CRC := checksum sample_entry\<rparr>) \<and> checksum sample_entry \<noteq> None"
  by (rule encode_decode [OF sample_entry_ok])

text \<open>C15: an entry whose data is an empty but non-nil map is encoded without error, and the line is then
  rejected as corrupt: the checksum covers the text \<open>{}\<close> of the data, which the line omits.\<close>

theorem empty_data_unreadable:
  assumes "entry_ok (e\<lparr>Data := None\<rparr>)" "checksum (e\<lparr>Data := Some []\<rparr>) \<noteq> checksum (e\<lparr>Data := None\<rparr>)"
  shows "\<exists>l. Encode (e\<lparr>Data := Some []\<rparr>) = Inr (l @ [NL]) \<and> Decode l = Inl (ErrCorruptEntry (ID e))"
proof -
  obtain l c c' where "Encode (e\<lparr>Data := Some []\<rparr>) = Inr (l @ [NL])"
    "checksum (e\<lparr>Data := Some []\<rparr>) = Some c" "checksum (e\<lparr>Data := None\<rparr>) = Some c'"
    "Decode l = (if c' \<noteq> c then Inl (ErrCorruptEntry (ID e)) else Inr (e\<lparr>Data := None, CRC := Some c\<rparr>))"
    by (rule Decode_Encode_empty_data [OF assms(1)])
  then show ?thesis using assms(2) by auto
qed

theorem empty_data_unreadable_witness:
  "\<exists>l. Encode (sample_entry\<lparr>Data := Some []\<rparr>) = Inr (l @ [NL]) \<and> Decode l = Inl (ErrCorruptEntry 1)"
proof -
  have "entry_ok (sample_entry\<lparr>Data := None\<rparr>)" using sample_entry_ok by (simp add: entry_ok_def data_ok_def)
  moreover have "checksum (sample_entry\<lparr>Data := Some []\<rparr>) \<noteq> checksum (sample_entry\<lparr>Data := None\<rparr>)"
    by (simp add: sample_entry_def empty_entry_def checksum_def checksum_input_def marshal_gval_def OpInsert_def
        opt_u64_def opt_i64_def le_bytes_8 crc_eval)
  ultimately show ?thesis using empty_data_unreadable [of sample_entry] by (simp add: sample_entry_def)
qed

end
