(* ===== verification/Wire.thy ===== *)
theory Wire
  imports Ndjson
begin

text \<open>
  \<open>engine/xtx_wire.go\<close>: the transaction stamp of a segment entry, its domain-separated
  checksum, and \<open>decodeSegmentLine\<close>, which reads plain and stamped lines alike.
\<close>

section \<open>Stamps and stamped entries\<close>

record TxStamp =
  stT :: string
  stI :: nat
  stN :: nat

record stampedEntry =
  seID :: nat
  seOp :: string
  seTs :: string
  seRev :: nat
  seData :: "gmap option"
  seEpoch :: nat
  seExpiresAt :: int
  seTx :: TxStamp
  seCRC :: nat

datatype wire_err =
    ErrBadStamp
  | ErrMissingCRC
  | ErrV1CRCOnStamp
  | WStore store_err

definition xtxMaxTxIDLen :: nat where
  "xtxMaxTxIDLen = 64"

section \<open>Checksums\<close>

definition v1InputBytes ::
  "nat \<Rightarrow> string \<Rightarrow> nat \<Rightarrow> int \<Rightarrow> nat \<Rightarrow> gmap option \<Rightarrow> string option" where
  "v1InputBytes rid opn rv expires epoch data =
     (let b = le_bytes 8 rid @ opn;
          b = (if rv \<noteq> 0 then b @ le_bytes 8 rv else b);
          b = (if expires \<noteq> 0 then b @ le_bytes 8 (u64_of_i64 expires) else b);
          b = (if epoch \<noteq> 0 then b @ le_bytes 8 epoch else b)
      in case data of
        None \<Rightarrow> Some b
      | Some m \<Rightarrow> map_option (\<lambda>j. b @ j) (marshal_gval (JObj m)))"

definition checksumV1 ::
  "nat \<Rightarrow> string \<Rightarrow> nat \<Rightarrow> int \<Rightarrow> nat \<Rightarrow> gmap option \<Rightarrow> nat option" where
  "checksumV1 rid opn rv expires epoch data =
     map_option crc32c (v1InputBytes rid opn rv expires epoch data)"

definition checksumV2 ::
  "nat \<Rightarrow> string \<Rightarrow> nat \<Rightarrow> int \<Rightarrow> nat \<Rightarrow> gmap option \<Rightarrow> TxStamp \<Rightarrow> wire_err + nat" where
  "checksumV2 rid opn rv expires epoch data tx =
     (if length (stT tx) = 0 \<or> length (stT tx) > xtxMaxTxIDLen then Inl ErrBadStamp
      else case v1InputBytes rid opn rv expires epoch data of
        None \<Rightarrow> Inl (WStore ErrMarshal)
      | Some inp \<Rightarrow>
          Inr (crc32c (''XTX1'' @ [CHR 0x00] @ le_bytes 1 (length (stT tx)) @ stT tx
            @ le_bytes 4 (stI tx) @ le_bytes 4 (stN tx) @ inp)))"

section \<open>Encoding\<close>

definition stamp_json :: "TxStamp \<Rightarrow> jtext" where
  "stamp_json tx = JObj [(''t'', JStr (stT tx)), (''i'', json_nat (stI tx)), (''n'', json_nat (stN tx))]"

definition stamped_json :: "stampedEntry \<Rightarrow> jtext option" where
  "stamped_json e = map_option
     (\<lambda>dm. JObj ([(''id'', json_nat (seID e)), (''op'', JStr (seOp e)), (''ts'', JStr (seTs e))]
         @ nat_member ''rev'' (seRev e) @ dm @ nat_member ''epoch'' (seEpoch e)
         @ int_member ''expires_at'' (seExpiresAt e)
         @ [(''tx'', stamp_json (seTx e)), (''crc'', json_nat (seCRC e))]))
     (data_member (seData e))"

definition encodeStamped :: "stampedEntry \<Rightarrow> wire_err + string" where
  "encodeStamped e =
     (if stN (seTx e) = 0 \<or> stI (seTx e) \<ge> stN (seTx e) then Inl ErrBadStamp
      else case checksumV2 (seID e) (seOp e) (seRev e) (seExpiresAt e) (seEpoch e) (seData e) (seTx e) of
        Inl err \<Rightarrow> Inl err
      | Inr c \<Rightarrow> (case stamped_json (e\<lparr>seCRC := c\<rparr>) of
          None \<Rightarrow> Inl (WStore ErrMarshal)
        | Some j \<Rightarrow> Inr (print_json j @ [NL])))"

section \<open>Decoding\<close>

definition empty_stamp :: TxStamp where
  "empty_stamp = \<lparr>stT = [], stI = 0, stN = 0\<rparr>"

definition empty_stamped :: stampedEntry where
  "empty_stamped = \<lparr>seID = 0, seOp = [], seTs = [], seRev = 0, seData = None, seEpoch = 0,
     seExpiresAt = 0, seTx = empty_stamp, seCRC = 0\<rparr>"

definition set_stamp_field :: "string \<times> jtext \<Rightarrow> TxStamp \<Rightarrow> TxStamp option" where
  "set_stamp_field kv tx =
     (let k = fold_name (fst kv); j = snd kv in
      if k = ''t'' then map_option (\<lambda>s. tx\<lparr>stT := s\<rparr>) (get_str j (stT tx))
      else if k = ''i'' then map_option (\<lambda>n. tx\<lparr>stI := n\<rparr>) (get_uint 32 j (stI tx))
      else if k = ''n'' then map_option (\<lambda>n. tx\<lparr>stN := n\<rparr>) (get_uint 32 j (stN tx))
      else Some tx)"

fun set_stamp_fields :: "(string \<times> jtext) list \<Rightarrow> TxStamp \<Rightarrow> TxStamp option" where
  "set_stamp_fields [] tx = Some tx"
| "set_stamp_fields (kv # kvs) tx =
     (case set_stamp_field kv tx of None \<Rightarrow> None | Some tx' \<Rightarrow> set_stamp_fields kvs tx')"

definition get_stamp :: "jtext \<Rightarrow> TxStamp \<Rightarrow> TxStamp option" where
  "get_stamp j old = (case j of JNull \<Rightarrow> Some old | JObj kvs \<Rightarrow> set_stamp_fields kvs old | _ \<Rightarrow> None)"

text \<open>The probe for a \<open>tx\<close> object: a pointer field, nil until an object is read.\<close>

definition get_ptr_stamp :: "jtext \<Rightarrow> TxStamp option \<Rightarrow> TxStamp option option" where
  "get_ptr_stamp j old =
     (if j = JNull then Some None
      else map_option Some (get_stamp j (case old of None \<Rightarrow> empty_stamp | Some tx \<Rightarrow> tx)))"

fun probe_fields :: "(string \<times> jtext) list \<Rightarrow> TxStamp option \<Rightarrow> TxStamp option option" where
  "probe_fields [] p = Some p"
| "probe_fields (kv # kvs) p =
     (if fold_name (fst kv) = ''tx'' then
        (case get_ptr_stamp (snd kv) p of None \<Rightarrow> None | Some p' \<Rightarrow> probe_fields kvs p')
      else probe_fields kvs p)"

definition probe_tx :: "string \<Rightarrow> TxStamp option option" where
  "probe_tx s = (case parse_json s of
     Some JNull \<Rightarrow> Some None
   | Some (JObj kvs) \<Rightarrow> probe_fields kvs None
   | _ \<Rightarrow> None)"

text \<open>The struct read by \<open>parseStamped\<close>: the stamped entry with its own \<open>crc\<close> hidden by a
  pointer field.\<close>

type_synonym raw_stamped = "stampedEntry \<times> nat option"

definition set_raw_field :: "string \<times> jtext \<Rightarrow> raw_stamped \<Rightarrow> raw_stamped option" where
  "set_raw_field kv raw =
     (let k = fold_name (fst kv); j = snd kv; e = fst raw; c = snd raw in
      if k = ''id'' then map_option (\<lambda>n. (e\<lparr>seID := n\<rparr>, c)) (get_uint 64 j (seID e))
      else if k = ''op'' then map_option (\<lambda>s. (e\<lparr>seOp := s\<rparr>, c)) (get_str j (seOp e))
      else if k = ''ts'' then map_option (\<lambda>s. (e\<lparr>seTs := s\<rparr>, c)) (get_str j (seTs e))
      else if k = ''rev'' then map_option (\<lambda>n. (e\<lparr>seRev := n\<rparr>, c)) (get_uint 64 j (seRev e))
      else if k = ''data'' then map_option (\<lambda>m. (e\<lparr>seData := m\<rparr>, c)) (get_map j (seData e))
      else if k = ''epoch'' then map_option (\<lambda>n. (e\<lparr>seEpoch := n\<rparr>, c)) (get_uint 64 j (seEpoch e))
      else if k = ''expires_at'' then
        map_option (\<lambda>i. (e\<lparr>seExpiresAt := i\<rparr>, c)) (get_int64 j (seExpiresAt e))
      else if k = ''tx'' then map_option (\<lambda>tx. (e\<lparr>seTx := tx\<rparr>, c)) (get_stamp j (seTx e))
      else if k = ''crc'' then map_option (\<lambda>c'. (e, c')) (get_ptr_uint 32 j)
      else Some raw)"

fun set_raw_fields :: "(string \<times> jtext) list \<Rightarrow> raw_stamped \<Rightarrow> raw_stamped option" where
  "set_raw_fields [] r = Some r"
| "set_raw_fields (kv # kvs) r =
     (case set_raw_field kv r of None \<Rightarrow> None | Some r' \<Rightarrow> set_raw_fields kvs r')"

definition unmarshal_raw :: "string \<Rightarrow> raw_stamped option" where
  "unmarshal_raw s = (case parse_json s of
     Some JNull \<Rightarrow> Some (empty_stamped, None)
   | Some (JObj kvs) \<Rightarrow> set_raw_fields kvs (empty_stamped, None)
   | _ \<Rightarrow> None)"

definition trim_nl :: "string \<Rightarrow> string" where
  "trim_nl s = rev (dropWhile (\<lambda>c. c = NL) (rev s))"

definition parseStamped :: "string \<Rightarrow> wire_err + stampedEntry" where
  "parseStamped line = (case unmarshal_raw (trim_nl line) of
     None \<Rightarrow> Inl (WStore ErrUnmarshal)
   | Some (e, c) \<Rightarrow>
       if stT (seTx e) = [] then Inl ErrBadStamp
       else if stN (seTx e) = 0 \<or> stI (seTx e) \<ge> stN (seTx e) then Inl ErrBadStamp
       else (case c of
         None \<Rightarrow> Inl ErrMissingCRC
       | Some crc \<Rightarrow>
           (let e = e\<lparr>seCRC := crc\<rparr> in
            case checksumV2 (seID e) (seOp e) (seRev e) (seExpiresAt e) (seEpoch e) (seData e) (seTx e) of
              Inl err \<Rightarrow> Inl err
            | Inr v2 \<Rightarrow>
                if v2 \<noteq> seCRC e then
                  (if checksumV1 (seID e) (seOp e) (seRev e) (seExpiresAt e) (seEpoch e) (seData e)
                        = Some (seCRC e)
                   then Inl ErrV1CRCOnStamp else Inl (WStore (ErrCorruptEntry (seID e))))
                else Inr e)))"

fun contains_sub :: "string \<Rightarrow> string \<Rightarrow> bool" where
  "contains_sub pat [] = (pat = [])"
| "contains_sub pat (c # cs) = (take (length pat) (c # cs) = pat \<or> contains_sub pat cs)"

definition entry_of_stamped :: "stampedEntry \<Rightarrow> entry" where
  "entry_of_stamped se =
     \<lparr>ID = seID se, Op = seOp se,
      Ts = (if seTs se = [] then zero_time
            else case parse_time (seTs se) of None \<Rightarrow> zero_time | Some t \<Rightarrow> t),
      Rev = seRev se, Data = seData se, Epoch = seEpoch se, ExpiresAt = seExpiresAt se,
      CRC = Some (seCRC se)\<rparr>"

definition decodeSegmentLine :: "string \<Rightarrow> wire_err + (entry \<times> TxStamp option)" where
  "decodeSegmentLine line =
     (let trimmed = trim_nl line;
          plain = (case Decode line of Inl err \<Rightarrow> Inl (WStore err) | Inr e \<Rightarrow> Inr (e, None))
      in if contains_sub [CHR 0x22, CHR ''t'', CHR ''x'', CHR 0x22] trimmed then
           (case probe_tx trimmed of
              Some (Some tx) \<Rightarrow>
                if stT tx \<noteq> [] then
                  (case parseStamped trimmed of
                     Inl err \<Rightarrow> Inl err
                   | Inr se \<Rightarrow> Inr (entry_of_stamped se, Some (seTx se)))
                else plain
            | _ \<Rightarrow> plain)
         else plain)"

text \<open>Visibility of an entry under the decision map of the transaction journal.\<close>

definition entryVisible :: "TxStamp option \<Rightarrow> (string \<rightharpoonup> string) \<Rightarrow> bool" where
  "entryVisible tx decisions = (case tx of
     None \<Rightarrow> True
   | Some s \<Rightarrow>
       stT s = [] \<or> decisions (stT s) = Some ''commit'' \<or> decisions (stT s) = Some ''retire-commit'')"

section \<open>Lines that round-trip\<close>

definition stamped_ok :: "stampedEntry \<Rightarrow> bool" where
  "stamped_ok e \<longleftrightarrow> is_u64 (seID e) \<and> valid_utf8 (seOp e) \<and> valid_utf8 (seTs e) \<and> is_u64 (seRev e)
     \<and> data_ok (seData e) \<and> is_u64 (seEpoch e) \<and> is_i64 (seExpiresAt e)
     \<and> stT (seTx e) \<noteq> [] \<and> valid_utf8 (stT (seTx e)) \<and> length (stT (seTx e)) \<le> xtxMaxTxIDLen
     \<and> stI (seTx e) < stN (seTx e) \<and> stN (seTx e) < 2 ^ 32"

section \<open>The two checksum inputs agree\<close>

lemma v1InputBytes_eq: "v1InputBytes = checksum_input"
  by (intro ext) (auto simp: v1InputBytes_def checksum_input_def opt_u64_def opt_i64_def Let_def
      split: option.splits)

section \<open>Plain lines read back\<close>

lemma trim_nl_free: "NL \<notin> set s \<Longrightarrow> trim_nl s = s"
proof -
  assume "NL \<notin> set s"
  then have "dropWhile (\<lambda>c. c = NL) (rev s) = rev s" by (cases "rev s") auto
  then show ?thesis by (simp add: trim_nl_def)
qed

lemma trim_nl_line: "NL \<notin> set s \<Longrightarrow> trim_nl (s @ [NL]) = s"
  using trim_nl_free by (simp add: trim_nl_def)

text \<open>The keys an encoded plain entry has; none of them is \<open>tx\<close>.\<close>

lemma probe_no_tx:
  "\<forall>kv\<in>set kvs. fold_name (fst kv) \<noteq> ''tx'' \<Longrightarrow> probe_fields kvs p = Some p"
  by (induction kvs) auto

lemma entry_json_keys:
  "entry_json e = Some (JObj kvs) \<Longrightarrow> kv \<in> set kvs \<Longrightarrow> fold_name (fst kv) \<noteq> ''tx''"
  by (auto simp: entry_json_def data_member_def nat_member_def int_member_def split: option.splits if_splits)

lemma probe_entry:
  assumes "Encode e = Inr (l @ [NL])" "entry_ok e"
  shows "probe_tx l = Some None"
proof -
  obtain c where c: "checksum e = Some c" by (rule entry_ok_checksum [OF assms(2)])
  obtain kvs where kvs: "entry_json (e\<lparr>CRC := Some c\<rparr>) = Some (JObj kvs)" "json_ok (JObj kvs)"
    "nesting (JObj kvs) \<le> max_nesting"
    using entry_json_back [of "e\<lparr>CRC := Some c\<rparr>"] assms(2) checksum_lt [OF c] by auto
  have l: "l = print_json (JObj kvs)" using assms(1) c kvs(1) by (simp add: Encode_def)
  have "parse_json l = Some (JObj kvs)" unfolding l by (rule parse_print_json [OF kvs(2,3)])
  then show ?thesis using probe_no_tx entry_json_keys [OF kvs(1)] by (simp add: probe_tx_def)
qed

theorem decode_plain_line:
  assumes "entry_ok e"
  obtains l c where "Encode e = Inr (l @ [NL])" "NL \<notin> set l" "checksum e = Some c"
    "decodeSegmentLine l = Inr (e\<lparr>CRC := Some c\<rparr>, None)"
proof -
  obtain l c where l: "Encode e = Inr (l @ [NL])" "NL \<notin> set l" "checksum e = Some c"
    "Decode l = Inr (e\<lparr>CRC := Some c\<rparr>)"
    by (rule Decode_Encode_entry [OF assms])
  have "decodeSegmentLine l = Inr (e\<lparr>CRC := Some c\<rparr>, None)"
    using l probe_entry [OF l(1) assms] by (simp add: decodeSegmentLine_def Let_def trim_nl_free)
  with l that show ?thesis by blast
qed

section \<open>Stamped lines read back\<close>

lemma set_raw_fields_append:
  "set_raw_fields (a @ b) r = (case set_raw_fields a r of None \<Rightarrow> None | Some r' \<Rightarrow> set_raw_fields b r')"
  by (induction a arbitrary: r) (auto split: option.splits)

lemma set_raw_members:
  "n < 2 ^ 64 \<Longrightarrow> seRev e = 0 \<Longrightarrow> set_raw_fields (nat_member ''rev'' n) (e, c) = Some (e\<lparr>seRev := n\<rparr>, c)"
  "n < 2 ^ 64 \<Longrightarrow> seEpoch e = 0 \<Longrightarrow> set_raw_fields (nat_member ''epoch'' n) (e, c) = Some (e\<lparr>seEpoch := n\<rparr>, c)"
  "is_i64 i \<Longrightarrow> seExpiresAt e = 0 \<Longrightarrow>
   set_raw_fields (int_member ''expires_at'' i) (e, c) = Some (e\<lparr>seExpiresAt := i\<rparr>, c)"
  by (simp_all add: nat_member_def int_member_def set_raw_field_def)

lemma get_stamp_json:
  "stI tx < 2 ^ 32 \<Longrightarrow> stN tx < 2 ^ 32 \<Longrightarrow> get_stamp (stamp_json tx) empty_stamp = Some tx"
  by (simp add: get_stamp_def stamp_json_def set_stamp_field_def get_str_def)

lemma nesting_stamp [simp]: "nesting (stamp_json tx) = 1"
  by (simp add: stamp_json_def)

lemma probe_append:
  "probe_fields (a @ b) p = (case probe_fields a p of None \<Rightarrow> None | Some p' \<Rightarrow> probe_fields b p')"
  by (induction a arbitrary: p) (auto split: option.splits)

lemma stamped_json_back:
  assumes ok: "stamped_ok e" and crc: "seCRC e < 2 ^ 32"
  obtains pre post where
    "stamped_json e = Some (JObj (pre @ (''tx'', stamp_json (seTx e)) # post))"
    "json_ok (JObj (pre @ (''tx'', stamp_json (seTx e)) # post))"
    "nesting (JObj (pre @ (''tx'', stamp_json (seTx e)) # post)) \<le> max_nesting"
    "set_raw_fields (pre @ (''tx'', stamp_json (seTx e)) # post) (empty_stamped, None)
       = Some (e\<lparr>seCRC := 0\<rparr>, Some (seCRC e))"
    "probe_fields (pre @ (''tx'', stamp_json (seTx e)) # post) None = Some (Some (seTx e))"
proof -
  have dok: "data_ok (seData e)" using ok by (simp add: stamped_ok_def)
  obtain dm where dm: "data_member (seData e) = Some dm"
    "list_all (\<lambda>kv. valid_utf8 (fst kv) \<and> json_ok (snd kv)) dm"
    "\<forall>kv\<in>set dm. nesting (snd kv) < max_nesting"
    "case seData e of None \<Rightarrow> dm = [] | Some m \<Rightarrow> (\<exists>j. dm = [(''data'', j)] \<and> get_map j None = Some (Some m))"
    by (rule data_member_back [OF dok])
  have sd: "set_raw_fields dm (e', c) = Some (e'\<lparr>seData := seData e\<rparr>, c)" if "seData e' = None" for e' c
    using dm(4) that by (cases "seData e") (auto simp: set_raw_field_def)
  have pd: "probe_fields dm p = Some p" for p
    using dm(4) by (intro probe_no_tx) (auto split: option.splits)
  define pre where "pre = [(''id'', json_nat (seID e)), (''op'', JStr (seOp e)), (''ts'', JStr (seTs e))]
         @ nat_member ''rev'' (seRev e) @ dm @ nat_member ''epoch'' (seEpoch e)
         @ int_member ''expires_at'' (seExpiresAt e)"
  define kvs where "kvs = pre @ (''tx'', stamp_json (seTx e)) # [(''crc'', json_nat (seCRC e))]"
  have ib: "stI (seTx e) < 2 ^ 32" "stN (seTx e) < 2 ^ 32" using ok by (auto simp: stamped_ok_def)
  have "stamped_json e = Some (JObj kvs)" by (simp add: stamped_json_def dm(1) kvs_def pre_def)
  moreover have "json_ok (JObj kvs)"
    using dm(2) ok
    by (simp add: kvs_def pre_def nat_member_def int_member_def stamped_ok_def stamp_json_def)
  moreover have "\<forall>kv\<in>set kvs. nesting (snd kv) \<le> 9999"
  proof -
    have "\<forall>kv\<in>set dm. nesting (snd kv) \<le> 9999" using dm(3) by (fastforce simp: max_nesting_def)
    then show ?thesis by (auto simp: kvs_def pre_def nat_member_def int_member_def)
  qed
  then have "nesting (JObj kvs) \<le> max_nesting"
    using foldr_max_le [of "\<lambda>kv. nesting (snd kv)" kvs 9999] by (simp add: max_nesting_def)
  moreover have "set_raw_fields kvs (empty_stamped, None) = Some (e\<lparr>seCRC := 0\<rparr>, Some (seCRC e))"
    using ok crc ib
    by (simp add: kvs_def pre_def set_raw_fields_append set_raw_field_def get_str_def sd empty_stamped_def
        set_raw_members stamped_ok_def is_u64_def get_stamp_json)
  moreover have "probe_fields kvs None = Some (Some (seTx e))"
    using ib by (simp add: kvs_def pre_def probe_append pd nat_member_def int_member_def get_ptr_stamp_def
        get_stamp_json stamp_json_def [symmetric]) (simp add: stamp_json_def)
  ultimately show ?thesis using that unfolding kvs_def by blast
qed

lemma contains_sub_append: "contains_sub pat (a @ pat @ b)"
proof (induction a)
  case Nil
  then show ?case by (cases "pat @ b") (auto simp flip: take_Suc_Cons, metis append_eq_conv_conj)
qed simp

lemma commas_split: "\<exists>a b. commas (map f (pre @ x # post)) = a @ f x @ b"
proof (induction pre)
  case Nil
  then show ?case by (cases post) (auto intro: exI [of _ "[]"])
next
  case (Cons y pre)
  then obtain a b where "commas (map f (pre @ x # post)) = a @ f x @ b" by blast
  then have "commas (map f ((y # pre) @ x # post)) = (f y @ CHR '','' # a) @ f x @ b"
    by (cases "pre @ x # post") auto
  then show ?case by blast
qed

lemma print_contains_key:
  "contains_sub (quote k) (print_json (JObj (pre @ (k, v) # post)))"
proof -
  obtain a b where "commas (map print_member (pre @ (k, v) # post)) = a @ print_member (k, v) @ b"
    using commas_split [of print_member pre "(k, v)" post] by blast
  then have "print_json (JObj (pre @ (k, v) # post))
      = (CHR ''{'' # a) @ quote k @ (CHR '':'' # print_json v @ b @ ''}'')"
    by simp
  then show ?thesis by (metis contains_sub_append)
qed

lemma quote_tx: "quote ''tx'' = [CHR 0x22, CHR ''t'', CHR ''x'', CHR 0x22]"
  by (simp add: quote_def esc_byte_def)

theorem decode_stamped_line:
  assumes ok: "stamped_ok e"
  obtains l c where "encodeStamped e = Inr (l @ [NL])" "NL \<notin> set l"
    "checksumV2 (seID e) (seOp e) (seRev e) (seExpiresAt e) (seEpoch e) (seData e) (seTx e) = Inr c"
    "decodeSegmentLine l = Inr (entry_of_stamped (e\<lparr>seCRC := c\<rparr>), Some (seTx e))"
proof -
  obtain inp where inp: "v1InputBytes (seID e) (seOp e) (seRev e) (seExpiresAt e) (seEpoch e) (seData e) = Some inp"
    unfolding v1InputBytes_eq using ok data_ok_input [of "seData e"] by (metis stamped_ok_def)
  obtain c where c: "checksumV2 (seID e) (seOp e) (seRev e) (seExpiresAt e) (seEpoch e) (seData e) (seTx e) = Inr c"
    "c < 2 ^ 32"
    using ok crc32c_lt by (auto simp: checksumV2_def inp stamped_ok_def)
  let ?e = "e\<lparr>seCRC := c\<rparr>"
  have "stamped_ok ?e" "seCRC ?e < 2 ^ 32" using ok c(2) by (simp_all add: stamped_ok_def)
  then obtain pre post where kvs: "stamped_json ?e = Some (JObj (pre @ (''tx'', stamp_json (seTx ?e)) # post))"
    "json_ok (JObj (pre @ (''tx'', stamp_json (seTx ?e)) # post))"
    "nesting (JObj (pre @ (''tx'', stamp_json (seTx ?e)) # post)) \<le> max_nesting"
    "set_raw_fields (pre @ (''tx'', stamp_json (seTx ?e)) # post) (empty_stamped, None)
       = Some (?e\<lparr>seCRC := 0\<rparr>, Some (seCRC ?e))"
    "probe_fields (pre @ (''tx'', stamp_json (seTx ?e)) # post) None = Some (Some (seTx ?e))"
    by (rule stamped_json_back)
  define l where "l = print_json (JObj (pre @ (''tx'', stamp_json (seTx ?e)) # post))"
  have nl: "NL \<notin> set l" unfolding l_def using kvs(2) by (rule print_json_no_nl)
  have pj: "parse_json l = Some (JObj (pre @ (''tx'', stamp_json (seTx ?e)) # post))"
    unfolding l_def using kvs(2,3) by (rule parse_print_json)
  have "stI (seTx e) < stN (seTx e)" "stT (seTx e) \<noteq> []" using ok by (auto simp: stamped_ok_def)
  then have "parseStamped l = Inr ?e"
    using kvs(4) c(1) nl by (simp add: parseStamped_def trim_nl_free unmarshal_raw_def pj)
  moreover have "probe_tx l = Some (Some (seTx e))" using kvs(5) by (simp add: probe_tx_def pj)
  moreover have "contains_sub [CHR 0x22, CHR ''t'', CHR ''x'', CHR 0x22] l"
    unfolding l_def using print_contains_key [of "''tx''"] by (simp only: quote_tx)
  ultimately have "decodeSegmentLine l = Inr (entry_of_stamped ?e, Some (seTx e))"
    using nl \<open>stT (seTx e) \<noteq> []\<close> by (simp add: decodeSegmentLine_def Let_def trim_nl_free)
  moreover have "encodeStamped e = Inr (l @ [NL])"
    using c(1) kvs(1) ok by (simp add: encodeStamped_def l_def stamped_ok_def)
  ultimately show ?thesis using nl c(1) that by blast
qed

section \<open>Properties\<close>

text \<open>C16: a well-formed stamped entry is encoded as one line, and the segment reader returns its fields,
  the domain-separated checksum it was written with, and its transaction stamp.\<close>

theorem stamped_roundtrip:
  assumes "stamped_ok e"
  shows "\<exists>l c. encodeStamped e = Inr (l @ [NL]) \<and> NL \<notin> set l
    \<and> checksumV2 (seID e) (seOp e) (seRev e) (seExpiresAt e) (seEpoch e) (seData e) (seTx e) = Inr c
    \<and> decodeSegmentLine l = Inr (entry_of_stamped (e\<lparr>seCRC := c\<rparr>), Some (seTx e))"
  by (rule decode_stamped_line [OF assms]) blast

definition sample_stamped :: stampedEntry where
  "sample_stamped = empty_stamped\<lparr>seID := 1, seOp := OpInsert, seTs := ''1970-01-01T00:00:00Z'', seRev := 1,
     seData := Some [(''a'', JStr ''x'')], seTx := \<lparr>stT = ''0a-1'', stI = 0, stN = 2\<rparr>\<rparr>"

lemma sample_stamped_ok: "stamped_ok sample_stamped"
  by (simp add: sample_stamped_def stamped_ok_def empty_stamped_def data_ok_def OpInsert_def valid_utf8_ascii is_u64_def
      is_i64_def max_nesting_def om_ok_def xtxMaxTxIDLen_def)

theorem stamped_roundtrip_witness:
  "\<exists>l c. encodeStamped sample_stamped = Inr (l @ [NL]) \<and> NL \<notin> set l
    \<and> checksumV2 (seID sample_stamped) (seOp sample_stamped) (seRev sample_stamped) (seExpiresAt sample_stamped)
        (seEpoch sample_stamped) (seData sample_stamped) (seTx sample_stamped) = Inr c
    \<and> decodeSegmentLine l = Inr (entry_of_stamped (sample_stamped\<lparr>seCRC := c\<rparr>), Some (seTx sample_stamped))"
  by (rule stamped_roundtrip [OF sample_stamped_ok])

text \<open>C17: the engine's copy of the plain checksum computes the checksum of the store package, on every
  entry and for every failure to marshal.\<close>

theorem checksumV1_is_store_checksum:
  "checksumV1 (ID e) (Op e) (Rev e) (ExpiresAt e) (Epoch e) (Data e) = checksum e"
  by (simp add: checksumV1_def checksum_def v1InputBytes_eq)

end
