(* ===== verification/Segment.thy ===== *)
theory Segment
  imports Wire
begin

text \<open>
  \<open>engine/segment.go\<close>: one NDJSON file of a collection.  The files of a data directory are
  a map from paths to contents; a segment is the in-memory descriptor of one of them.  The
  outcome of every operating-system call is an argument, so that short writes, failed
  truncations and failed syncs are inputs of the model.
\<close>

type_synonym disk = "(string, string) omap"

record segment =
  segpath :: string
  segsize :: nat
  sealed :: bool
  hasfile :: bool
  poisoned :: bool

datatype seg_err =
    SegSealed
  | SegEncode wire_err
  | ErrRecordTooLarge nat nat
  | ErrSegmentPoisoned
  | SegWrite
  | SegWriteRollback
  | SegOpen
  | SegTooLong
  | SegEmpty
  | SegDecode wire_err
  | SegSync
  | SegClose
  | SegRecover

text \<open>The outcome of a \<open>Write\<close> (\<open>None\<close>: complete; \<open>Some n\<close>: it failed with \<open>n\<close> bytes in the
  file) and of a \<open>Truncate\<close>.\<close>

record seg_io =
  io_write :: "nat option"
  io_trunc :: bool

definition good_io :: seg_io where
  "good_io = \<lparr>io_write = None, io_trunc = True\<rparr>"

definition maxScanTokenSize :: nat where
  "maxScanTokenSize = 16 * 1024 * 1024"

definition DefaultSegmentMaxSize :: nat where
  "DefaultSegmentMaxSize = 4 * 1024 * 1024"

definition content :: "disk \<Rightarrow> string \<Rightarrow> string" where
  "content d p = (case map_of d p of None \<Rightarrow> [] | Some s \<Rightarrow> s)"

section \<open>The line scanner\<close>

text \<open>\<open>bufio.Scanner\<close> with \<open>ScanLines\<close>: every line, the unterminated last one included, without
  its newline and one trailing carriage return; it stops at a line that does not fit.\<close>

definition drop_cr :: "string \<Rightarrow> string" where
  "drop_cr l = (if l \<noteq> [] \<and> last l = CHR 0x0D then butlast l else l)"

definition raw_lines :: "string \<Rightarrow> string list" where
  "raw_lines s = (case split_nl s of (ls, r) \<Rightarrow> if r = [] then ls else ls @ [r])"

definition fits :: "string \<Rightarrow> bool" where
  "fits l \<longleftrightarrow> length l + 1 \<le> maxScanTokenSize"

definition newSegmentScanner :: "string \<Rightarrow> string list \<times> bool" where
  "newSegmentScanner s = (map drop_cr (takeWhile fits (raw_lines s)), list_all fits (raw_lines s))"

section \<open>Opening and crash recovery\<close>

text \<open>The index of the last newline of a chunk.\<close>

fun last_nl :: "string \<Rightarrow> nat option" where
  "last_nl [] = None"
| "last_nl (c # cs) = (case last_nl cs of
     Some i \<Rightarrow> Some (i + 1)
   | None \<Rightarrow> if c = NL then Some 0 else None)"

text \<open>The backward search in steps of 512 bytes; each step reads from its offset to the end.\<close>

function recover_scan :: "string \<Rightarrow> nat \<Rightarrow> nat option" where
  "recover_scan s offset = (case last_nl (drop offset s) of
     Some i \<Rightarrow> Some (offset + i + 1)
   | None \<Rightarrow> if offset = 0 then None else recover_scan s (offset - 512))"
  by pat_completeness auto
termination
  by (relation "measure snd") auto

declare recover_scan.simps [simp del]

definition recoverPartialLine :: "bool \<Rightarrow> string \<Rightarrow> seg_err + (nat \<times> string)" where
  "recoverPartialLine trunc_ok s =
     (if s = [] then Inr (0, s)
      else if last s = NL then Inr (length s, s)
      else case recover_scan s (length s - 512) of
        Some valid \<Rightarrow> if trunc_ok then Inr (valid, take valid s) else Inl SegRecover
      | None \<Rightarrow> if trunc_ok then Inr (0, []) else Inl SegRecover)"

definition openActiveSegmentWith :: "bool \<Rightarrow> bool \<Rightarrow> disk \<Rightarrow> string \<Rightarrow> seg_err + (disk \<times> segment)" where
  "openActiveSegmentWith open_ok trunc_ok d p =
     (if \<not> open_ok then Inl SegOpen
      else case recoverPartialLine trunc_ok (content d p) of
        Inl err \<Rightarrow> Inl err
      | Inr (sz, s) \<Rightarrow>
          Inr (om_ins p s d, \<lparr>segpath = p, segsize = sz, sealed = False, hasfile = True, poisoned = False\<rparr>))"

definition openSealedSegment :: "string \<Rightarrow> nat \<Rightarrow> segment" where
  "openSealedSegment p sz = \<lparr>segpath = p, segsize = sz, sealed = True, hasfile = False, poisoned = False\<rparr>"

section \<open>Appending\<close>

definition rollbackLocked :: "bool \<Rightarrow> disk \<Rightarrow> segment \<Rightarrow> nat \<Rightarrow> seg_err option \<times> disk \<times> segment" where
  "rollbackLocked trunc_ok d s n =
     (if poisoned s then (Some ErrSegmentPoisoned, d, s)
      else if \<not> trunc_ok then (Some ErrSegmentPoisoned, d, s\<lparr>poisoned := True\<rparr>)
      else (None, om_ins (segpath s) (take n (content d (segpath s))) d, s\<lparr>segsize := n\<rparr>))"

definition rollback :: "bool \<Rightarrow> disk \<Rightarrow> segment \<Rightarrow> nat \<Rightarrow> seg_err option \<times> disk \<times> segment" where
  "rollback trunc_ok d s n =
     (if sealed s then (Some SegSealed, d, s) else rollbackLocked trunc_ok d s n)"

text \<open>What \<open>Append\<close> and \<open>AppendStamped\<close> do with their encoded line.\<close>

definition append_line ::
  "seg_io \<Rightarrow> disk \<Rightarrow> segment \<Rightarrow> nat \<Rightarrow> wire_err + string \<Rightarrow> (seg_err + nat) \<times> disk \<times> segment" where
  "append_line io d s rid enc =
     (if sealed s then (Inl SegSealed, d, s)
      else case enc of
        Inl err \<Rightarrow> (Inl (SegEncode err), d, s)
      | Inr b \<Rightarrow>
          if length b > maxScanTokenSize then (Inl (ErrRecordTooLarge rid (length b)), d, s)
          else if poisoned s then (Inl ErrSegmentPoisoned, d, s)
          else (case io_write io of
            None \<Rightarrow>
              (Inr (segsize s), om_ins (segpath s) (content d (segpath s) @ b) d, s\<lparr>segsize := segsize s + length b\<rparr>)
          | Some n \<Rightarrow>
              (let d' = om_ins (segpath s) (content d (segpath s) @ take n b) d in
               case rollbackLocked (io_trunc io) d' s (segsize s) of
                 (None, d'', s') \<Rightarrow> (Inl SegWrite, d'', s')
               | (Some _, d'', s') \<Rightarrow> (Inl SegWriteRollback, d'', s'))))"

definition Append :: "seg_io \<Rightarrow> disk \<Rightarrow> segment \<Rightarrow> entry \<Rightarrow> (seg_err + nat) \<times> disk \<times> segment" where
  "Append io d s e = append_line io d s (ID e) (case Encode e of Inl err \<Rightarrow> Inl (WStore err) | Inr b \<Rightarrow> Inr b)"

definition AppendStamped ::
  "seg_io \<Rightarrow> disk \<Rightarrow> segment \<Rightarrow> stampedEntry \<Rightarrow> (seg_err + nat) \<times> disk \<times> segment" where
  "AppendStamped io d s e = append_line io d s (seID e) (encodeStamped e)"

section \<open>Reading\<close>

definition ReadStampedAt :: "disk \<Rightarrow> segment \<Rightarrow> nat \<Rightarrow> seg_err + (entry \<times> TxStamp option)" where
  "ReadStampedAt d s off = (case map_of d (segpath s) of
     None \<Rightarrow> Inl SegOpen
   | Some b \<Rightarrow> (case newSegmentScanner (drop off b) of
       (l # _, _) \<Rightarrow> (case decodeSegmentLine l of Inl err \<Rightarrow> Inl (SegDecode err) | Inr r \<Rightarrow> Inr r)
     | ([], True) \<Rightarrow> Inl SegEmpty
     | ([], False) \<Rightarrow> Inl SegTooLong))"

definition ReadAt :: "disk \<Rightarrow> segment \<Rightarrow> nat \<Rightarrow> seg_err + entry" where
  "ReadAt d s off = (case ReadStampedAt d s off of Inl err \<Rightarrow> Inl err | Inr (e, _) \<Rightarrow> Inr e)"

type_synonym scanned = "nat \<times> entry \<times> TxStamp option"

text \<open>The records a scan yields, in order, up to the line that stops it.\<close>

fun scan_lines :: "nat \<Rightarrow> string list \<Rightarrow> scanned list \<times> seg_err option" where
  "scan_lines off [] = ([], None)"
| "scan_lines off (l # ls) =
     (if l = [] then scan_lines (off + 1) ls
      else case decodeSegmentLine l of
        Inl err \<Rightarrow> ([], Some (SegDecode err))
      | Inr (e, tx) \<Rightarrow> (case scan_lines (off + length l + 1) ls of (es, r) \<Rightarrow> ((off, e, tx) # es, r)))"

definition ScanStampedFromOffset :: "disk \<Rightarrow> segment \<Rightarrow> nat \<Rightarrow> scanned list \<times> seg_err option" where
  "ScanStampedFromOffset d s from = (case map_of d (segpath s) of
     None \<Rightarrow> ([], Some SegOpen)
   | Some b \<Rightarrow> (case newSegmentScanner (drop from b) of (toks, ok) \<Rightarrow>
       (case scan_lines from toks of
          (es, Some err) \<Rightarrow> (es, Some err)
        | (es, None) \<Rightarrow> (es, if ok then None else Some SegTooLong))))"

definition ScanFromOffset :: "disk \<Rightarrow> segment \<Rightarrow> nat \<Rightarrow> (nat \<times> entry) list \<times> seg_err option" where
  "ScanFromOffset d s from = (case ScanStampedFromOffset d s from of
     (es, r) \<Rightarrow> (map (\<lambda>(off, e, tx). (off, e)) es, r))"

definition ScanFrom :: "disk \<Rightarrow> segment \<Rightarrow> (nat \<times> entry) list \<times> seg_err option" where
  "ScanFrom d s = ScanFromOffset d s 0"

definition ScanAll :: "disk \<Rightarrow> segment \<Rightarrow> seg_err + entry list" where
  "ScanAll d s = (case ScanFrom d s of
     (es, None) \<Rightarrow> Inr (map snd es)
   | (_, Some err) \<Rightarrow> Inl err)"

section \<open>Syncing, sealing, closing\<close>

definition Sync :: "bool \<Rightarrow> segment \<Rightarrow> seg_err option" where
  "Sync sync_ok s = (if sealed s \<or> \<not> hasfile s then None else if sync_ok then None else Some SegSync)"

definition Seal :: "bool \<Rightarrow> bool \<Rightarrow> segment \<Rightarrow> seg_err option \<times> segment" where
  "Seal sync_ok close_ok s =
     (if sealed s then (None, s)
      else if hasfile s then
        (if \<not> sync_ok then (Some SegSync, s)
         else (if close_ok then None else Some SegClose, s\<lparr>hasfile := False, sealed := True\<rparr>))
      else (None, s\<lparr>sealed := True\<rparr>))"

definition closeNoSync :: "bool \<Rightarrow> segment \<Rightarrow> seg_err option \<times> segment" where
  "closeNoSync close_ok s =
     (if \<not> hasfile s then (None, s)
      else (if close_ok then None else Some SegClose, s\<lparr>hasfile := False\<rparr>))"

definition CloseSeg :: "bool \<Rightarrow> bool \<Rightarrow> segment \<Rightarrow> seg_err option" where
  "CloseSeg sync_ok close_ok s =
     (if hasfile s then (if \<not> sync_ok then Some SegSync else if close_ok then None else Some SegClose)
      else None)"

section \<open>Recovery keeps exactly the complete lines\<close>

lemma last_nl_None: "last_nl s = None \<longleftrightarrow> NL \<notin> set s"
  by (induction s) (auto split: option.splits)

lemma last_nl_Some:
  "last_nl s = Some i \<Longrightarrow> \<exists>a b. s = a @ NL # b \<and> length a = i \<and> NL \<notin> set b"
proof (induction s arbitrary: i)
  case (Cons c cs)
  show ?case
  proof (cases "last_nl cs")
    case None
    with Cons.prems show ?thesis
      by (intro exI [of _ "[]"] exI [of _ cs]) (auto simp: last_nl_None split: if_splits)
  next
    case (Some j)
    with Cons obtain a b where "cs = a @ NL # b" "length a = j" "NL \<notin> set b" by blast
    with Some Cons.prems show ?thesis by (intro exI [of _ "c # a"] exI [of _ b]) auto
  qed
qed simp

lemma split_nl_snd: "NL \<notin> set b \<Longrightarrow> snd (split_nl (u @ NL # b)) = b \<and> fst (split_nl (u @ NL # b)) \<noteq> []"
  by (induction u) (auto simp: line_simps split: prod.splits list.splits)

lemma recover_scan_spec:
  "recover_scan s offset =
     (if NL \<in> set s then Some (length (join_nl (fst (split_nl s)))) else None)"
proof (induction offset rule: less_induct)
  case (less offset)
  show ?case
  proof (cases "last_nl (drop offset s)")
    case (Some i)
    then obtain a b where ab: "drop offset s = a @ NL # b" "length a = i" "NL \<notin> set b"
      using last_nl_Some by blast
    have s: "s = (take offset s @ a @ [NL]) @ b"
      using append_take_drop_id [of offset s] ab(1) by simp
    have "length (take offset s) = offset"
      using ab(1) by (cases "offset \<le> length s") auto
    moreover have "join_nl (fst (split_nl s)) = take offset s @ a @ [NL]"
    proof -
      define u where "u = take offset s @ a"
      have "join_nl (fst (split_nl (u @ NL # b))) @ b = u @ NL # b"
        using join_split_nl [of "u @ NL # b"] split_nl_snd [OF ab(3), of u] by simp
      then show ?thesis using s by (simp add: u_def)
    qed
    moreover have "NL \<in> set s" using s by (metis Un_iff append.assoc list.set_intros(1) set_append)
    ultimately show ?thesis using Some ab(2) by (subst recover_scan.simps) simp
  next
    case None
    show ?thesis
    proof (cases "offset = 0")
      case True
      then have "NL \<notin> set s" using None by (simp add: last_nl_None)
      then show ?thesis using True None by (subst recover_scan.simps) simp
    next
      case False
      then have "recover_scan s (offset - 512) =
          (if NL \<in> set s then Some (length (join_nl (fst (split_nl s)))) else None)"
        by (intro less) simp
      then show ?thesis using None False by (subst recover_scan.simps) simp
    qed
  qed
qed

lemma split_nl_rest_last: "s \<noteq> [] \<Longrightarrow> last s = NL \<Longrightarrow> snd (split_nl s) = []"
proof -
  assume "s \<noteq> []" "last s = NL"
  then obtain u where "s = u @ [NL]" by (metis append_butlast_last_id)
  then show ?thesis
    using join_split_nl [of s] split_nl_rest_free [of s]
    by (metis last_appendR last_in_set \<open>last s = NL\<close>)
qed

lemma recoverPartialLine_spec:
  "recoverPartialLine True s = Inr (length (join_nl (fst (split_nl s))), join_nl (fst (split_nl s)))"
proof (cases "s = [] \<or> last s = NL")
  case True
  then have "snd (split_nl s) = []" using split_nl_rest_last by (cases "s = []") auto
  then show ?thesis using True join_split_nl [of s] by (auto simp: recoverPartialLine_def)
next
  case False
  have "take (length (join_nl (fst (split_nl s)))) s = join_nl (fst (split_nl s))"
    using join_split_nl [of s] by (metis append_eq_conv_conj)
  moreover have "join_nl (fst (split_nl s)) = []" if "NL \<notin> set s"
    using that by (simp add: line_simps)
  ultimately show ?thesis using False by (simp add: recoverPartialLine_def recover_scan_spec)
qed

section \<open>Records in a file\<close>

text \<open>The interface between the segment and the line codec: what is written is one non-empty
  line that fits the scanner and reads back as its view.\<close>

locale line_codec =
  fixes enc :: "'a \<Rightarrow> string" and ok :: "'a \<Rightarrow> bool" and view :: "'a \<Rightarrow> entry \<times> TxStamp option"
  assumes enc_no_nl: "ok x \<Longrightarrow> NL \<notin> set (enc x)"
    and enc_nonempty: "ok x \<Longrightarrow> enc x \<noteq> []"
    and enc_no_cr: "ok x \<Longrightarrow> last (enc x) \<noteq> CHR 0x0D"
    and enc_fits: "ok x \<Longrightarrow> fits (enc x)"
    and dec_enc: "ok x \<Longrightarrow> decodeSegmentLine (enc x) = Inr (view x)"

text \<open>The records of a file with the offsets they start at.\<close>

fun layout :: "('a \<Rightarrow> string) \<Rightarrow> ('a \<Rightarrow> 'b) \<Rightarrow> nat \<Rightarrow> 'a list \<Rightarrow> (nat \<times> 'b) list" where
  "layout enc view off [] = []"
| "layout enc view off (x # xs) = (off, view x) # layout enc view (off + length (enc x) + 1) xs"

definition file_of :: "('a \<Rightarrow> string) \<Rightarrow> 'a list \<Rightarrow> string" where
  "file_of enc xs = join_nl (map enc xs)"

lemma file_of_simps [simp]:
  "file_of enc [] = []" "file_of enc (x # xs) = enc x @ NL # file_of enc xs"
  "file_of enc (xs @ ys) = file_of enc xs @ file_of enc ys"
  by (simp_all add: file_of_def line_simps)

lemma layout_append:
  "layout enc view off (xs @ ys) = layout enc view off xs @ layout enc view (off + length (file_of enc xs)) ys"
  by (induction xs arbitrary: off) (auto simp: add.assoc)

context line_codec
begin

lemma raw_lines_file: "list_all ok xs \<Longrightarrow> raw_lines (file_of enc xs) = map enc xs"
  using split_join_nl [of "map enc xs" "[]"] enc_no_nl
  by (auto simp: raw_lines_def file_of_def list_all_iff)

lemma scanner_file: "list_all ok xs \<Longrightarrow> newSegmentScanner (file_of enc xs) = (map enc xs, True)"
proof -
  assume ok: "list_all ok xs"
  then have "takeWhile fits (map enc xs) = map enc xs" "list_all fits (map enc xs)"
    using enc_fits by (auto simp: list_all_iff takeWhile_eq_all_conv)
  moreover have "map drop_cr (map enc xs) = map enc xs"
    using ok enc_no_cr by (auto simp: drop_cr_def list_all_iff)
  ultimately show ?thesis by (simp only: newSegmentScanner_def raw_lines_file [OF ok])
qed

lemma scan_lines_file: "list_all ok xs \<Longrightarrow> scan_lines off (map enc xs) = (layout enc view off xs, None)"
  by (induction xs arbitrary: off) (auto simp: enc_nonempty dec_enc split: prod.splits)

lemma scan_from:
  assumes "list_all ok ys" "map_of d (segpath s) = Some (a @ file_of enc ys)"
  shows "ScanStampedFromOffset d s (length a) = (layout enc view (length a) ys, None)"
  using assms by (simp add: ScanStampedFromOffset_def scanner_file scan_lines_file)

lemma read_at:
  assumes "list_all ok (y # ys)" "map_of d (segpath s) = Some (a @ file_of enc (y # ys))"
  shows "ReadStampedAt d s (length a) = Inr (view y)"
  using assms scanner_file [OF assms(1)] by (simp add: ReadStampedAt_def dec_enc)

end

text \<open>The records the engine writes: plain entries and stamped ones.\<close>

datatype segrec = Plain entry | Stamped stampedEntry

definition rec_bytes :: "segrec \<Rightarrow> wire_err + string" where
  "rec_bytes r = (case r of
     Plain e \<Rightarrow> (case Encode e of Inl err \<Rightarrow> Inl (WStore err) | Inr b \<Rightarrow> Inr b)
   | Stamped e \<Rightarrow> encodeStamped e)"

definition rec_line :: "segrec \<Rightarrow> string" where
  "rec_line r = (case rec_bytes r of Inl _ \<Rightarrow> [] | Inr b \<Rightarrow> butlast b)"

definition rec_ok :: "segrec \<Rightarrow> bool" where
  "rec_ok r \<longleftrightarrow> (case r of Plain e \<Rightarrow> entry_ok e | Stamped e \<Rightarrow> stamped_ok e)
     \<and> length (rec_line r) + 1 \<le> maxScanTokenSize"

definition rec_view :: "segrec \<Rightarrow> entry \<times> TxStamp option" where
  "rec_view r = (case r of
     Plain e \<Rightarrow> (e\<lparr>CRC := checksum e\<rparr>, None)
   | Stamped e \<Rightarrow>
       (entry_of_stamped (e\<lparr>seCRC := (case checksumV2 (seID e) (seOp e) (seRev e) (seExpiresAt e) (seEpoch e)
            (seData e) (seTx e) of Inr c \<Rightarrow> c | Inl _ \<Rightarrow> 0)\<rparr>), Some (seTx e)))"

lemma last_Encode: "Encode e = Inr (l @ [NL]) \<Longrightarrow> l \<noteq> [] \<and> last l = CHR ''}''"
  by (auto simp: Encode_def entry_json_def split: option.splits)

lemma last_encodeStamped: "encodeStamped e = Inr (l @ [NL]) \<Longrightarrow> l \<noteq> [] \<and> last l = CHR ''}''"
  by (auto simp: encodeStamped_def stamped_json_def split: option.splits sum.splits if_splits)

lemma rec_line_props:
  assumes "rec_ok r"
  shows "rec_bytes r = Inr (rec_line r @ [NL])" "NL \<notin> set (rec_line r)" "rec_line r \<noteq> []"
    "last (rec_line r) = CHR ''}''" "decodeSegmentLine (rec_line r) = Inr (rec_view r)"
proof -
  have "rec_bytes r = Inr (rec_line r @ [NL]) \<and> NL \<notin> set (rec_line r) \<and> rec_line r \<noteq> []
    \<and> last (rec_line r) = CHR ''}'' \<and> decodeSegmentLine (rec_line r) = Inr (rec_view r)"
  proof (cases r)
    case (Plain e)
    then have "entry_ok e" using assms by (simp add: rec_ok_def)
    then obtain l c where "Encode e = Inr (l @ [NL])" "NL \<notin> set l" "checksum e = Some c"
      "decodeSegmentLine l = Inr (e\<lparr>CRC := Some c\<rparr>, None)"
      by (rule decode_plain_line)
    then show ?thesis using last_Encode [of e l] by (simp add: Plain rec_bytes_def rec_line_def rec_view_def)
  next
    case (Stamped e)
    then have "stamped_ok e" using assms by (simp add: rec_ok_def)
    then obtain l c where "encodeStamped e = Inr (l @ [NL])" "NL \<notin> set l"
      "checksumV2 (seID e) (seOp e) (seRev e) (seExpiresAt e) (seEpoch e) (seData e) (seTx e) = Inr c"
      "decodeSegmentLine l = Inr (entry_of_stamped (e\<lparr>seCRC := c\<rparr>), Some (seTx e))"
      by (rule decode_stamped_line)
    then show ?thesis
      using last_encodeStamped [of e l] by (simp add: Stamped rec_bytes_def rec_line_def rec_view_def)
  qed
  then show "rec_bytes r = Inr (rec_line r @ [NL])" "NL \<notin> set (rec_line r)" "rec_line r \<noteq> []"
    "last (rec_line r) = CHR ''}''" "decodeSegmentLine (rec_line r) = Inr (rec_view r)"
    by blast+
qed

interpretation seg: line_codec rec_line rec_ok rec_view
  by unfold_locales (auto simp: rec_line_props, simp add: rec_ok_def fits_def)

section \<open>The segment invariant\<close>

text \<open>The segment's file holds exactly the records \<open>rs\<close> and the descriptor knows its length.\<close>

definition seg_holds :: "disk \<Rightarrow> segment \<Rightarrow> segrec list \<Rightarrow> bool" where
  "seg_holds d s rs \<longleftrightarrow> om_ok d \<and> list_all rec_ok rs \<and> \<not> poisoned s
     \<and> map_of d (segpath s) = Some (file_of rec_line rs) \<and> segsize s = length (file_of rec_line rs)"

definition append_rec :: "seg_io \<Rightarrow> disk \<Rightarrow> segment \<Rightarrow> segrec \<Rightarrow> (seg_err + nat) \<times> disk \<times> segment" where
  "append_rec io d s r = (case r of Plain e \<Rightarrow> Append io d s e | Stamped e \<Rightarrow> AppendStamped io d s e)"

lemma append_rec_line:
  "append_rec io d s r =
     append_line io d s (case r of Plain e \<Rightarrow> ID e | Stamped e \<Rightarrow> seID e) (rec_bytes r)"
  by (cases r) (auto simp: append_rec_def Append_def AppendStamped_def rec_bytes_def)

lemma om_ins_same:
  assumes "om_ok d" "map_of d p = Some v"
  shows "om_ins p v d = d"
  using assms by (intro om_ext) (auto simp: omap_simps fun_eq_iff)

lemma om_ins_twice [simp]: "om_ins p v (om_ins p w d) = om_ins p v d"
  by (induction p w d rule: om_ins.induct) auto

lemma content_ins [simp]: "om_ok d \<Longrightarrow> content (om_ins p v d) p = v"
  by (simp add: content_def omap_simps)

lemma append_rec_ok:
  assumes "seg_holds d s rs" "\<not> sealed s" "rec_ok r" "io_write io = None"
  obtains d' s' where "append_rec io d s r = (Inr (segsize s), d', s')" "seg_holds d' s' (rs @ [r])"
    "segpath s' = segpath s" "sealed s' = sealed s" "hasfile s' = hasfile s"
    "d' = om_ins (segpath s) (file_of rec_line (rs @ [r])) d"
proof -
  have "length (rec_line r @ [NL]) \<le> maxScanTokenSize" using assms(3) by (simp add: rec_ok_def)
  moreover have "content d (segpath s) = file_of rec_line rs" using assms(1) by (simp add: seg_holds_def content_def)
  ultimately show ?thesis
    using assms
    by (intro that [of "om_ins (segpath s) (file_of rec_line (rs @ [r])) d"
          "s\<lparr>segsize := segsize s + length (rec_line r @ [NL])\<rparr>"])
      (auto simp: append_rec_line rec_line_props append_line_def seg_holds_def omap_simps)
qed

lemma append_rec_fault:
  assumes "seg_holds d s rs" "\<not> sealed s" "rec_ok r" "io_write io = Some n" "io_trunc io"
  shows "append_rec io d s r = (Inl SegWrite, d, s)"
proof -
  have "length (rec_line r @ [NL]) \<le> maxScanTokenSize" using assms(3) by (simp add: rec_ok_def)
  moreover have "content d (segpath s) = file_of rec_line rs" using assms(1) by (simp add: seg_holds_def content_def)
  ultimately show ?thesis
    using assms by (auto simp: append_rec_line rec_line_props append_line_def seg_holds_def rollbackLocked_def
        Let_def om_ins_same)
qed

lemma append_rec_poison:
  assumes "seg_holds d s rs" "\<not> sealed s" "rec_ok r" "io_write io = Some n" "\<not> io_trunc io"
  shows "append_rec io d s r =
    (Inl SegWriteRollback, om_ins (segpath s) (file_of rec_line rs @ take n (rec_line r @ [NL])) d, s\<lparr>poisoned := True\<rparr>)"
proof -
  have "length (rec_line r @ [NL]) \<le> maxScanTokenSize" using assms(3) by (simp add: rec_ok_def)
  moreover have "content d (segpath s) = file_of rec_line rs" using assms(1) by (simp add: seg_holds_def content_def)
  ultimately show ?thesis
    using assms by (auto simp: append_rec_line rec_line_props append_line_def seg_holds_def rollbackLocked_def Let_def)
qed

lemma append_poisoned:
  assumes "poisoned s"
  shows "\<exists>err. append_rec io d s r = (Inl err, d, s)"
  using assms by (auto simp: append_rec_line append_line_def split: sum.splits)

text \<open>Reopening a file that ends in the first \<open>n\<close> bytes of a record: the torn bytes are cut, a
  record that reached the file whole is kept.\<close>

lemma split_file:
  "list_all rec_ok rs \<Longrightarrow> split_nl (file_of rec_line rs @ t)
     = (map rec_line rs @ fst (split_nl t), snd (split_nl t))"
  unfolding file_of_def by (rule split_join_nl) (auto simp: list_all_iff rec_line_props)

lemma recover_torn:
  assumes "list_all rec_ok rs" "rec_ok r"
  shows "recoverPartialLine True (file_of rec_line rs @ take n (rec_line r @ [NL]))
    = (let rs' = (if n \<le> length (rec_line r) then rs else rs @ [r])
       in Inr (length (file_of rec_line rs'), file_of rec_line rs'))"
proof -
  have nl: "NL \<notin> set (rec_line r)" using assms(2) by (rule rec_line_props)
  have "fst (split_nl (take n (rec_line r @ [NL]))) = (if n \<le> length (rec_line r) then [] else [rec_line r])"
  proof (cases "n \<le> length (rec_line r)")
    case True
    then have "NL \<notin> set (take n (rec_line r @ [NL]))" using nl by (auto dest: in_set_takeD)
    with True show ?thesis by (simp add: line_simps)
  next
    case False
    then show ?thesis using split_nl_line [OF nl, of "[]"] by simp
  qed
  then show ?thesis
    by (simp add: recoverPartialLine_spec split_file [OF assms(1)] Let_def) (simp add: file_of_def line_simps)
qed

section \<open>Properties\<close>

text \<open>C18: a complete append returns the offset the file had, adds exactly the record, makes it readable
  at that offset, and a scan yields the old records followed by the new one.\<close>

theorem append_then_read:
  assumes "seg_holds d s rs" "\<not> sealed s" "rec_ok r" "io_write io = None"
  shows "\<exists>d' s'. append_rec io d s r = (Inr (segsize s), d', s') \<and> seg_holds d' s' (rs @ [r])
    \<and> ReadStampedAt d' s' (segsize s) = Inr (rec_view r)
    \<and> ScanStampedFromOffset d' s' 0 = (layout rec_line rec_view 0 (rs @ [r]), None)"
proof -
  obtain d' s' where a: "append_rec io d s r = (Inr (segsize s), d', s')" "seg_holds d' s' (rs @ [r])"
    by (rule append_rec_ok [OF assms])
  have f: "map_of d' (segpath s') = Some (file_of rec_line (rs @ [r]))" "list_all rec_ok (rs @ [r])"
    "segsize s = length (file_of rec_line rs)"
    using a(2) assms(1) by (simp_all add: seg_holds_def)
  have "ReadStampedAt d' s' (segsize s) = Inr (rec_view r)"
    using seg.read_at [of r "[]" d' s' "file_of rec_line rs"] f by simp
  moreover have "ScanStampedFromOffset d' s' 0 = (layout rec_line rec_view 0 (rs @ [r]), None)"
    using seg.scan_from [of "rs @ [r]" d' s' "[]"] f by simp
  ultimately show ?thesis using a by blast
qed

definition sample_disk :: disk where
  "sample_disk = [(''seg_000001.ndjson'', [])]"

definition sample_seg :: segment where
  "sample_seg = \<lparr>segpath = ''seg_000001.ndjson'', segsize = 0, sealed = False, hasfile = True, poisoned = False\<rparr>"

lemma sample_holds: "seg_holds sample_disk sample_seg []" "\<not> sealed sample_seg"
  by (simp_all add: seg_holds_def sample_disk_def sample_seg_def om_ok_def)

lemma sample_line_length: "length (rec_line (Plain sample_entry)) \<le> 200"
  by (simp add: rec_line_def rec_bytes_def Encode_def sample_checksum)
    (simp add: sample_entry_def empty_entry_def entry_json_def fmt_time_0 data_member_def json_nat_def nat_member_def
      int_member_def OpInsert_def quote_def show_nat_def digits_rev.simps esc_byte_def sign_str_def)

lemma sample_rec_ok: "rec_ok (Plain sample_entry)"
  using sample_entry_ok sample_line_length by (simp add: rec_ok_def maxScanTokenSize_def)

theorem append_then_read_witness:
  "\<exists>d' s'. append_rec good_io sample_disk sample_seg (Plain sample_entry) = (Inr 0, d', s')
    \<and> seg_holds d' s' [Plain sample_entry] \<and> ReadStampedAt d' s' 0 = Inr (rec_view (Plain sample_entry))
    \<and> ScanStampedFromOffset d' s' 0 = ([(0, rec_view (Plain sample_entry))], None)"
  using append_then_read [OF sample_holds sample_rec_ok, of good_io] by (simp add: good_io_def sample_seg_def)

text \<open>C19: when a write fails after any number of bytes and the file can be truncated back, the file and
  the descriptor are exactly what they were before the append.\<close>

theorem failed_append_no_effect:
  assumes "seg_holds d s rs" "\<not> sealed s" "rec_ok r" "io_write io = Some n" "io_trunc io"
  shows "append_rec io d s r = (Inl SegWrite, d, s)"
  using assms by (rule append_rec_fault)

theorem failed_append_no_effect_witness:
  "append_rec \<lparr>io_write = Some 7, io_trunc = True\<rparr> sample_disk sample_seg (Plain sample_entry)
     = (Inl SegWrite, sample_disk, sample_seg)"
  using failed_append_no_effect [OF sample_holds sample_rec_ok] by simp

text \<open>C20: when the truncation fails too, the segment refuses every later append without touching the file,
  and reopening it after a restart recovers the records before the failed one, plus that record only
  when all of its bytes had reached the file.\<close>

theorem poisoned_until_reopened:
  assumes "seg_holds d s rs" "\<not> sealed s" "rec_ok r" "io_write io = Some n" "\<not> io_trunc io"
  shows "\<exists>d' s'. append_rec io d s r = (Inl SegWriteRollback, d', s')
    \<and> (\<forall>io' r'. \<exists>err. append_rec io' d' s' r' = (Inl err, d', s'))
    \<and> (\<exists>d'' s''. openActiveSegmentWith True True d' (segpath s) = Inr (d'', s'')
         \<and> seg_holds d'' s'' (if n \<le> length (rec_line r) then rs else rs @ [r]))"
proof -
  let ?t = "file_of rec_line rs @ take n (rec_line r @ [NL])"
  have o: "om_ok d" "list_all rec_ok rs" using assms(1) by (simp_all add: seg_holds_def)
  have "content (om_ins (segpath s) ?t d) (segpath s) = ?t" using o by simp
  then have "\<exists>d'' s''. openActiveSegmentWith True True (om_ins (segpath s) ?t d) (segpath s) = Inr (d'', s'')
         \<and> seg_holds d'' s'' (if n \<le> length (rec_line r) then rs else rs @ [r])"
    using recover_torn [OF o(2) assms(3), of n] o assms(3)
    by (simp add: openActiveSegmentWith_def Let_def seg_holds_def omap_simps)
  then show ?thesis
    using append_rec_poison [OF assms] append_poisoned [of "s\<lparr>poisoned := True\<rparr>"] by auto
qed

theorem poisoned_until_reopened_witness:
  "\<exists>d' s'. append_rec \<lparr>io_write = Some 7, io_trunc = False\<rparr> sample_disk sample_seg (Plain sample_entry)
      = (Inl SegWriteRollback, d', s')
    \<and> (\<forall>io' r'. \<exists>err. append_rec io' d' s' r' = (Inl err, d', s'))
    \<and> (\<exists>d'' s''. openActiveSegmentWith True True d' (segpath sample_seg) = Inr (d'', s'')
         \<and> seg_holds d'' s'' (if 7 \<le> length (rec_line (Plain sample_entry)) then [] else [] @ [Plain sample_entry]))"
  by (rule poisoned_until_reopened [OF sample_holds sample_rec_ok]) simp_all

text \<open>C21: opening an active segment cuts the file after its last newline and nowhere else, whatever its
  bytes: the backward search in 512-byte steps terminates and finds exactly that position.\<close>

theorem recovery_cuts_after_last_newline:
  "\<exists>keep rest. s = keep @ rest \<and> NL \<notin> set rest \<and> (keep = [] \<or> last keep = NL)
     \<and> recoverPartialLine True s = Inr (length keep, keep)"
proof -
  let ?ls = "fst (split_nl s)" and ?r = "snd (split_nl s)"
  have "join_nl ?ls = [] \<or> last (join_nl ?ls) = NL"
    by (cases ?ls rule: rev_cases) (simp_all add: line_simps)
  then show ?thesis
    using join_split_nl [of s] split_nl_rest_free [of s] recoverPartialLine_spec [of s]
    by (intro exI [of _ "join_nl ?ls"] exI [of _ ?r]) simp
qed

end
