(* ===== verification/Sha256.thy ===== *)
theory Sha256
  imports Prelude
begin

text \<open>
  \<open>crypto/sha256\<close> and \<open>encoding/hex\<close>: the digest the engine takes of segment prefixes, index
  files and journal participants.  Words are natural numbers below \<open>2 ^ 32\<close>.
\<close>

unbundle bit_operations_syntax

definition add32 :: "nat \<Rightarrow> nat \<Rightarrow> nat" where
  "add32 a b = (a + b) mod 2 ^ 32"

definition rotr32 :: "nat \<Rightarrow> nat \<Rightarrow> nat" where
  "rotr32 n x = x div 2 ^ n + (x mod 2 ^ n) * 2 ^ (32 - n)"

definition not32 :: "nat \<Rightarrow> nat" where
  "not32 x = 0xFFFFFFFF - x"

text \<open>The constants as the standard derives them: the first 32 bits of the fractional parts of the
  cube roots of the first 64 primes and of the square roots of the first 8.  \<open>root_bits k n b r\<close> adds
  to \<open>r\<close> the bits below \<open>2 ^ b\<close> of the integer \<open>k\<close>-th root of \<open>n\<close>; the roots here are below
  \<open>2 ^ 40\<close>.\<close>

fun root_bits :: "nat \<Rightarrow> nat \<Rightarrow> nat \<Rightarrow> nat \<Rightarrow> nat" where
  "root_bits k n 0 r = r"
| "root_bits k n (Suc b) r = root_bits k n b (if (r + 2 ^ b) ^ k \<le> n then r + 2 ^ b else r)"

definition frac_root :: "nat \<Rightarrow> nat \<Rightarrow> nat" where
  "frac_root k p = root_bits k (p * 2 ^ (32 * k)) 40 0 mod 2 ^ 32"

definition sha_primes :: "nat list" where
  "sha_primes = [
    2, 3, 5, 7, 11, 13, 17, 19, 23, 29, 31, 37, 41, 43, 47, 53,
    59, 61, 67, 71, 73, 79, 83, 89, 97, 101, 103, 107, 109, 113, 127, 131,
    137, 139, 149, 151, 157, 163, 167, 173, 179, 181, 191, 193, 197, 199, 211, 223,
    227, 229, 233, 239, 241, 251, 257, 263, 269, 271, 277, 281, 283, 293, 307, 311]"

definition sha_k :: "nat list" where
  "sha_k = map (frac_root 3) sha_primes"

definition sha_h0 :: "nat list" where
  "sha_h0 = map (frac_root 2) (take 8 sha_primes)"

text \<open>The message schedule, newest word first.\<close>

fun sha_extend :: "nat \<Rightarrow> nat list \<Rightarrow> nat list" where
  "sha_extend 0 w = w"
| "sha_extend (Suc n) w =
     (let a = w ! 14; s0 = rotr32 7 a XOR rotr32 18 a XOR (a div 2 ^ 3);
          b = w ! 1; s1 = rotr32 17 b XOR rotr32 19 b XOR (b div 2 ^ 10)
      in sha_extend n (add32 (add32 (w ! 15) s0) (add32 (w ! 6) s1) # w))"

fun sha_round :: "nat list \<Rightarrow> nat \<times> nat \<Rightarrow> nat list" where
  "sha_round [a, b, c, d, e, f, g, h] (k, w) =
     (let S1 = rotr32 6 e XOR rotr32 11 e XOR rotr32 25 e;
          ch = (e AND f) XOR (not32 e AND g);
          t1 = add32 (add32 h S1) (add32 ch (add32 k w));
          S0 = rotr32 2 a XOR rotr32 13 a XOR rotr32 22 a;
          maj = (a AND b) XOR (a AND c) XOR (b AND c)
      in [add32 t1 (add32 S0 maj), a, b, c, add32 d t1, e, f, g])"
| "sha_round hs _ = hs"

definition be_nat :: "string \<Rightarrow> nat" where
  "be_nat s = foldl (\<lambda>n c. 256 * n + of_char c) 0 s"

fun chunks :: "nat \<Rightarrow> 'a list \<Rightarrow> 'a list list" where
  "chunks n [] = []"
| "chunks n (x # xs) = take (Suc n) (x # xs) # chunks n (drop n xs)"

definition sha_block :: "nat list \<Rightarrow> string \<Rightarrow> nat list" where
  "sha_block hs b =
     (let w = rev (sha_extend 48 (rev (map be_nat (chunks 3 b))))
      in map2 add32 hs (foldl sha_round hs (zip sha_k w)))"

definition sha_pad :: "string \<Rightarrow> string" where
  "sha_pad s = s @ [CHR 0x80] @ replicate ((119 - length s mod 64) mod 64) (CHR 0x00)
     @ rev (le_bytes 8 (8 * length s))"

definition sha256 :: "string \<Rightarrow> string" where
  "sha256 s = concat (map (\<lambda>h. rev (le_bytes 4 h)) (foldl sha_block sha_h0 (chunks 63 (sha_pad s))))"

definition hex_char :: "nat \<Rightarrow> char" where
  "hex_char d = (if d < 10 then char_of (48 + d) else char_of (87 + d))"

definition hex_encode :: "string \<Rightarrow> string" where
  "hex_encode s = concat (map (\<lambda>c. [hex_char (of_char c div 16), hex_char (of_char c mod 16)]) s)"

definition sha256_hex :: "string \<Rightarrow> string" where
  "sha256_hex s = hex_encode (sha256 s)"

lemma of_hex_char: "d < 16 \<Longrightarrow> (of_char (hex_char d) :: nat) = (if d < 10 then 48 + d else 87 + d)"
  by (simp add: hex_char_def of_char_of)

lemma hex_encode_chars:
  "c \<in> set (hex_encode s) \<Longrightarrow> \<exists>d<16. c = hex_char d"
proof -
  assume "c \<in> set (hex_encode s)"
  then obtain x :: char where "c = hex_char (of_char x div 16) \<or> c = hex_char (of_char x mod 16)"
    by (auto simp: hex_encode_def)
  moreover have "(of_char x :: nat) < 256" by (metis of_char_mod_256 mod_less_divisor zero_less_numeral)
  then have "(of_char x :: nat) < 16 * 16" by linarith
  then have "(of_char x :: nat) div 16 < 16" by (rule less_mult_imp_div_less)
  moreover have "(of_char x :: nat) mod 16 < 16" by simp
  ultimately show ?thesis by blast
qed

end
