(* ===== verification/Index.thy ===== *)
theory Index
  imports Segment Sha256 "HOL-Library.Product_Lexorder"
begin

text \<open>
  \<open>engine/index.go\<close>: the in-memory map from record id to the location of its latest version,
  its construction by replaying segments, and the coverage of the segments it describes.
\<close>

section \<open>State\<close>

record IndexEntry =
  SegmentPath :: string
  Offset :: nat
  IRev :: nat
  IExpiresAt :: int
  IEpoch :: nat

type_synonym locs = "(nat, IndexEntry) omap"

record SegmentCoverage =
  CovSegment :: string
  CovSize :: nat
  CovChecksum :: string
  CovTail :: string
  XTxApplied :: "string list"
  XTxEpoch :: string

record Index =
  ientries :: locs
  coverage :: "SegmentCoverage list"
  coverageKnown :: bool
  mayExpire :: bool

definition expired :: "int \<Rightarrow> int \<Rightarrow> bool" where
  "expired expiresAt now \<longleftrightarrow> expiresAt \<noteq> 0 \<and> now \<ge> expiresAt"

definition newIndex :: Index where
  "newIndex = \<lparr>ientries = [], coverage = [], coverageKnown = False, mayExpire = False\<rparr>"

section \<open>Operations\<close>

definition noteExpiringLocked :: "Index \<Rightarrow> Index" where
  "noteExpiringLocked idx =
     (if mayExpire idx then idx
      else if list_ex (\<lambda>(_, e). IExpiresAt e \<noteq> 0) (ientries idx) then idx\<lparr>mayExpire := True\<rparr> else idx)"

definition liveCount :: "Index \<Rightarrow> int \<Rightarrow> nat" where
  "liveCount idx now =
     (if \<not> mayExpire idx then length (ientries idx)
      else length (filter (\<lambda>(_, e). \<not> expired (IExpiresAt e) now) (ientries idx)))"

definition idxSet :: "Index \<Rightarrow> nat \<Rightarrow> IndexEntry \<Rightarrow> Index" where
  "idxSet idx rid ent =
     idx\<lparr>ientries := om_ins rid ent (ientries idx),
         mayExpire := (mayExpire idx \<or> IExpiresAt ent \<noteq> 0)\<rparr>"

definition idxGet :: "Index \<Rightarrow> nat \<Rightarrow> IndexEntry option" where
  "idxGet idx rid = map_of (ientries idx) rid"

definition idxDelete :: "Index \<Rightarrow> nat \<Rightarrow> Index" where
  "idxDelete idx rid = idx\<lparr>ientries := om_del rid (ientries idx)\<rparr>"

definition idxLen :: "Index \<Rightarrow> nat" where
  "idxLen idx = length (ientries idx)"

definition countAtEpoch :: "Index \<Rightarrow> nat \<Rightarrow> nat \<times> nat" where
  "countAtEpoch idx epoch =
     (length (ientries idx), length (filter (\<lambda>(_, e). IEpoch e = epoch) (ientries idx)))"

section \<open>Replay\<close>

definition applyOne :: "locs \<Rightarrow> string \<Rightarrow> nat \<Rightarrow> entry \<Rightarrow> locs" where
  "applyOne m p off e =
     (if Op e = OpInsert \<or> Op e = OpUpdate then
        (let rev1 = u64 ((case map_of m (ID e) of None \<Rightarrow> 0 | Some ie \<Rightarrow> IRev ie) + 1);
             rev2 = (if Rev e > rev1 then Rev e else rev1)
         in om_ins (ID e) \<lparr>SegmentPath = p, Offset = off, IRev = rev2, IExpiresAt = ExpiresAt e,
              IEpoch = Epoch e\<rparr> m)
      else if Op e = OpDelete then om_del (ID e) m
      else m)"

text \<open>The decision map of the transaction journal, as the replay consults it.\<close>

type_synonym decisions = "string \<rightharpoonup> string"

definition apply_scanned :: "decisions \<Rightarrow> string \<Rightarrow> scanned \<Rightarrow> locs \<Rightarrow> locs" where
  "apply_scanned dec p x m = (case x of (off, e, tx) \<Rightarrow>
     if entryVisible tx dec then applyOne m p off e else m)"

text \<open>The map is updated in place, so the records before a failing line have been applied when
  the error is returned.\<close>

definition applyEntries :: "disk \<Rightarrow> decisions \<Rightarrow> segment \<Rightarrow> nat \<Rightarrow> locs \<Rightarrow> locs \<times> seg_err option" where
  "applyEntries d dec s from m = (case ScanStampedFromOffset d s from of
     (xs, r) \<Rightarrow> (fold (apply_scanned dec (segpath s)) xs m, r))"

section \<open>Segment order\<close>

definition base_name :: "string \<Rightarrow> string" where
  "base_name p = rev (takeWhile (\<lambda>c. c \<noteq> CHR ''/'') (rev p))"

text \<open>\<open>fmt.Sscanf(base, "seg_%d.ndjson", &n)\<close>: what follows the name is not looked at.\<close>

definition segmentNum :: "string \<Rightarrow> nat option" where
  "segmentNum p =
     (let b = base_name p; r = drop 4 b; ds = takeWhile is_digit r in
      if take 4 b = ''seg_'' \<and> ds \<noteq> [] \<and> read_nat ds < 2 ^ 64 \<and> take 7 (dropWhile is_digit r) = ''.ndjson''
      then Some (read_nat ds) else None)"

definition segment_key :: "segment \<Rightarrow> bool \<times> nat \<times> string" where
  "segment_key s = (case segmentNum (segpath s) of
     Some n \<Rightarrow> (False, n, segpath s)
   | None \<Rightarrow> (True, 0, segpath s))"

definition sortSegments :: "segment list \<Rightarrow> segment list" where
  "sortSegments segs = sort_key segment_key segs"

text \<open>\<open>Rebuild\<close> leaves the index alone when a segment cannot be read.\<close>

fun replay_segments :: "disk \<Rightarrow> decisions \<Rightarrow> segment list \<Rightarrow> locs \<Rightarrow> seg_err + locs" where
  "replay_segments d dec [] m = Inr m"
| "replay_segments d dec (s # ss) m = (case applyEntries d dec s 0 m of
     (m', None) \<Rightarrow> replay_segments d dec ss m'
   | (_, Some err) \<Rightarrow> Inl err)"

definition Rebuild :: "disk \<Rightarrow> decisions \<Rightarrow> segment list \<Rightarrow> Index \<Rightarrow> seg_err + Index" where
  "Rebuild d dec segs idx = (case replay_segments d dec (sortSegments segs) [] of
     Inl err \<Rightarrow> Inl err
   | Inr fresh \<Rightarrow> Inr (noteExpiringLocked (idx\<lparr>ientries := fresh\<rparr>)))"

definition segmentsValid :: "Index \<Rightarrow> (string, nat) omap \<Rightarrow> bool" where
  "segmentsValid idx sizes \<longleftrightarrow>
     list_all (\<lambda>(_, e). case map_of sizes (SegmentPath e) of None \<Rightarrow> False | Some sz \<Rightarrow> Offset e < sz)
       (ientries idx)"

section \<open>Coverage\<close>

definition prefixChecksum :: "string \<Rightarrow> nat \<Rightarrow> string option" where
  "prefixChecksum s n = (if length s < n then None else Some (sha256_hex (take n s)))"

text \<open>The ids of visible transactions stamped in the covered prefix, each once, sorted.\<close>

definition applied_txids :: "decisions \<Rightarrow> nat \<Rightarrow> scanned list \<Rightarrow> string list" where
  "applied_txids dec n xs = sort (remdups
     (concat (map (\<lambda>(off, e, tx). case tx of
        Some st \<Rightarrow> if stT st \<noteq> [] \<and> entryVisible tx dec then [stT st] else []
      | None \<Rightarrow> []) (takeWhile (\<lambda>(off, _). off < n) xs))))"

definition captureCoverage :: "disk \<Rightarrow> decisions \<Rightarrow> string \<Rightarrow> segment \<Rightarrow> seg_err + SegmentCoverage" where
  "captureCoverage d dec epoch s = (case map_of d (segpath s) of
     None \<Rightarrow> Inl SegOpen
   | Some b \<Rightarrow> (case prefixChecksum b (segsize s) of
       None \<Rightarrow> Inl SegEmpty
     | Some h \<Rightarrow>
         (let txids = applied_txids dec (segsize s) (fst (ScanStampedFromOffset d s 0)) in
          Inr \<lparr>CovSegment = base_name (segpath s), CovSize = segsize s, CovChecksum = h, CovTail = [],
            XTxApplied = txids, XTxEpoch = (if txids = [] then [] else epoch)\<rparr>)))"

section \<open>Replay by records\<close>

text \<open>Replaying the records of a file, whatever its bytes.\<close>

definition replay_recs :: "decisions \<Rightarrow> string \<Rightarrow> nat \<Rightarrow> segrec list \<Rightarrow> locs \<Rightarrow> locs" where
  "replay_recs dec p off rs m = fold (apply_scanned dec p) (layout rec_line rec_view off rs) m"

lemma applyEntries_file:
  assumes "list_all rec_ok rs" "map_of d (segpath s) = Some (a @ file_of rec_line rs)"
  shows "applyEntries d dec s (length a) m = (replay_recs dec (segpath s) (length a) rs m, None)"
  using seg.scan_from [OF assms] by (simp add: applyEntries_def replay_recs_def)

lemma replay_recs_append:
  "replay_recs dec p off (rs @ rs') m =
     replay_recs dec p (off + length (file_of rec_line rs)) rs' (replay_recs dec p off rs m)"
  by (simp add: replay_recs_def layout_append)

lemma replay_recs_simps [simp]:
  "replay_recs dec p off [] m = m"
  "replay_recs dec p off (r # rs) m =
     replay_recs dec p (off + length (rec_line r) + 1) rs (apply_scanned dec p (off, rec_view r) m)"
  by (simp_all add: replay_recs_def)

lemma om_ok_applyOne [simp]: "om_ok m \<Longrightarrow> om_ok (applyOne m p off e)"
  by (simp add: applyOne_def Let_def)

lemma om_ok_apply_scanned [simp]: "om_ok m \<Longrightarrow> om_ok (apply_scanned dec p x m)"
  by (simp add: apply_scanned_def split: prod.splits)

lemma om_ok_replay_recs [simp]: "om_ok m \<Longrightarrow> om_ok (replay_recs dec p off rs m)"
  by (induction rs arbitrary: off m) auto

text \<open>The records of a list of segments, replayed in order.\<close>

fun replay_all :: "decisions \<Rightarrow> (segment \<times> segrec list) list \<Rightarrow> locs \<Rightarrow> locs" where
  "replay_all dec [] m = m"
| "replay_all dec ((s, rs) # srs) m = replay_all dec srs (replay_recs dec (segpath s) 0 rs m)"

lemma replay_all_append:
  "replay_all dec (a @ b) m = replay_all dec b (replay_all dec a m)"
  by (induction dec a m rule: replay_all.induct) auto

lemma om_ok_replay_all [simp]: "om_ok m \<Longrightarrow> om_ok (replay_all dec srs m)"
  by (induction dec srs m rule: replay_all.induct) auto

definition segs_hold :: "disk \<Rightarrow> (segment \<times> segrec list) list \<Rightarrow> bool" where
  "segs_hold d srs \<longleftrightarrow> (\<forall>(s, rs)\<in>set srs. list_all rec_ok rs \<and> map_of d (segpath s) = Some (file_of rec_line rs))"

lemma replay_segments_recs:
  "segs_hold d srs \<Longrightarrow> replay_segments d dec (map fst srs) m = Inr (replay_all dec srs m)"
proof (induction srs arbitrary: m)
  case (Cons x srs)
  obtain s rs where x: "x = (s, rs)" by force
  have "list_all rec_ok rs" "map_of d (segpath s) = Some ([] @ file_of rec_line rs)"
    using Cons.prems by (auto simp: x segs_hold_def)
  from applyEntries_file [OF this, of dec m] Cons show ?case by (simp add: x segs_hold_def)
qed simp

section \<open>Properties\<close>

text \<open>C24: replaying only the bytes appended since the index was saved, starting from the saved index,
  gives the index a full replay of the segment gives.\<close>

theorem tail_replay_equals_full_replay:
  assumes "list_all rec_ok (rs @ rs')" "map_of d (segpath s) = Some (file_of rec_line (rs @ rs'))"
    "map_of d0 (segpath s) = Some (file_of rec_line rs)"
  shows "applyEntries d dec s (length (file_of rec_line rs)) (fst (applyEntries d0 dec s 0 m))
    = applyEntries d dec s 0 m"
proof -
  have "applyEntries d0 dec s 0 m = (replay_recs dec (segpath s) 0 rs m, None)"
    "applyEntries d dec s 0 m = (replay_recs dec (segpath s) 0 (rs @ rs') m, None)"
    using applyEntries_file [of rs d0 s "[]"] applyEntries_file [of "rs @ rs'" d s "[]"] assms by simp_all
  moreover have "applyEntries d dec s (length (file_of rec_line rs)) m'
      = (replay_recs dec (segpath s) (length (file_of rec_line rs)) rs' m', None)" for m'
    using applyEntries_file [of rs' d s "file_of rec_line rs"] assms by simp
  ultimately show ?thesis by (simp add: replay_recs_append)
qed

theorem tail_replay_equals_full_replay_witness:
  "applyEntries [(''s'', file_of rec_line [Plain sample_entry, Plain sample_entry])] Map.empty (openSealedSegment ''s'' 0)
     (length (file_of rec_line [Plain sample_entry]))
     (fst (applyEntries [(''s'', file_of rec_line [Plain sample_entry])] Map.empty (openSealedSegment ''s'' 0) 0 []))
   = applyEntries [(''s'', file_of rec_line [Plain sample_entry, Plain sample_entry])] Map.empty
       (openSealedSegment ''s'' 0) 0 []"
  using tail_replay_equals_full_replay [of "[Plain sample_entry]" "[Plain sample_entry]"
      "[(''s'', file_of rec_line [Plain sample_entry, Plain sample_entry])]" "openSealedSegment ''s'' 0"
      "[(''s'', file_of rec_line [Plain sample_entry])]"] sample_rec_ok
  by (simp add: openSealedSegment_def)

end
