(* ===== verification/Query.thy ===== *)
theory Query
  imports Json Complex_Main
begin

text \<open>
  \<open>query/filter.go\<close>: filter evaluation over a record's data map and the comparison shared by
  filters, sorting and pagination.  The regular-expression engine is an argument: a function
  from a pattern and a text to \<open>None\<close> (the pattern does not compile) or the match result.
\<close>

section \<open>Formatting with \<open>%v\<close>\<close>

fun spaced :: "string list \<Rightarrow> string" where
  "spaced [] = []"
| "spaced [s] = s"
| "spaced (s # t # ss) = s @ CHR '' '' # spaced (t # ss)"

fun sprint_v :: "gval \<Rightarrow> string" where
  "sprint_v JNull = ''<nil>''"
| "sprint_v (JBool b) = (if b then ''true'' else ''false'')"
| "sprint_v (JNum f) = fmt_v f"
| "sprint_v (JStr s) = s"
| "sprint_v (JArr vs) = ''['' @ spaced (map sprint_v vs) @ '']''"
| "sprint_v (JObj kvs) = ''map['' @ spaced (map (\<lambda>kv. fst kv @ '':'' @ sprint_v (snd kv)) kvs) @ '']''"

section \<open>Comparison\<close>

definition asNumber :: "gval \<Rightarrow> float64 option" where
  "asNumber v = (case v of JNum f \<Rightarrow> Some f | _ \<Rightarrow> None)"

definition equal_q :: "gval \<Rightarrow> gval \<Rightarrow> bool" where
  "equal_q a b = (case (asNumber a, asNumber b) of
     (Some af, Some bf) \<Rightarrow> f_eq af bf
   | _ \<Rightarrow> sprint_v a = sprint_v b)"

definition strings_Compare :: "string \<Rightarrow> string \<Rightarrow> int" where
  "strings_Compare a b = (if a < b then -1 else if a > b then 1 else 0)"

definition Compare :: "gval \<Rightarrow> gval \<Rightarrow> int" where
  "Compare a b = (case (asNumber a, asNumber b) of
     (Some af, Some bf) \<Rightarrow> if f_less af bf then -1 else if f_less bf af then 1 else 0
   | _ \<Rightarrow> strings_Compare (sprint_v a) (sprint_v b))"

section \<open>Filters\<close>

record FieldFilter =
  Field :: string
  FOp :: string
  Value :: string

datatype filter = MatchAll | FieldF FieldFilter | AndFilter "filter list" | OrFilter "filter list"

type_synonym regexp = "string \<Rightarrow> string \<Rightarrow> bool option"

fun has_infix :: "string \<Rightarrow> string \<Rightarrow> bool" where
  "has_infix pat [] = (pat = [])"
| "has_infix pat (c # cs) = (take (length pat) (c # cs) = pat \<or> has_infix pat cs)"

text \<open>The comparison value: JSON when it parses, otherwise the text itself.\<close>

definition filter_cmp :: "string \<Rightarrow> gval" where
  "filter_cmp s = (case unmarshal_gval s of Some v \<Rightarrow> v | None \<Rightarrow> JStr s)"

definition match_field :: "regexp \<Rightarrow> FieldFilter \<Rightarrow> gmap \<Rightarrow> bool" where
  "match_field rx f r = (case map_of r (Field f) of
     None \<Rightarrow> False
   | Some v \<Rightarrow>
       (let cmp = filter_cmp (Value f) in
        if FOp f = ''eq'' then equal_q v cmp
        else if FOp f = ''neq'' then \<not> equal_q v cmp
        else if FOp f = ''gt'' then Compare v cmp > 0
        else if FOp f = ''gte'' then Compare v cmp \<ge> 0
        else if FOp f = ''lt'' then Compare v cmp < 0
        else if FOp f = ''lte'' then Compare v cmp \<le> 0
        else if FOp f = ''contains'' then has_infix (sprint_v cmp) (sprint_v v)
        else if FOp f = ''regex'' then
          (case rx (sprint_v cmp) (sprint_v v) of None \<Rightarrow> False | Some b \<Rightarrow> b)
        else False))"

fun Match :: "regexp \<Rightarrow> filter \<Rightarrow> gmap \<Rightarrow> bool" where
  "Match rx MatchAll r = True"
| "Match rx (FieldF f) r = match_field rx f r"
| "Match rx (AndFilter fs) r = list_all (\<lambda>f. Match rx f r) fs"
| "Match rx (OrFilter fs) r = list_ex (\<lambda>f. Match rx f r) fs"

section \<open>The order of numbers\<close>

definition dec_val :: "dec \<Rightarrow> real" where
  "dec_val d = (if dneg d then -1 else 1) * real (dcoef d) * 10 powi dexp d"

lemma dec_int_val: "e0 \<le> dexp d \<Longrightarrow> real_of_int (dec_int d e0) * 10 powi e0 = dec_val d"
proof -
  assume "e0 \<le> dexp d"
  then have "(10::real) ^ nat (dexp d - e0) = 10 powi (dexp d - e0)" by (simp add: power_int_def)
  also have "\<dots> * 10 powi e0 = 10 powi (dexp d - e0 + e0)" by (subst power_int_add) simp_all
  finally have "(10::real) ^ nat (dexp d - e0) * 10 powi e0 = 10 powi dexp d" by simp
  then show ?thesis by (simp add: dec_int_def dec_val_def mult.assoc)
qed

lemma dec_less_val: "dec_less a b \<longleftrightarrow> dec_val a < dec_val b"
proof -
  define e0 where "e0 = min (dexp a) (dexp b)"
  have "dec_val a = real_of_int (dec_int a e0) * 10 powi e0" "dec_val b = real_of_int (dec_int b e0) * 10 powi e0"
    by (simp_all add: e0_def dec_int_val)
  moreover have "(10::real) powi e0 > 0" by simp
  ultimately show ?thesis by (simp add: dec_less_def Let_def flip: e0_def)
qed

lemma dec_eq_val: "dec_eq a b \<longleftrightarrow> dec_val a = dec_val b"
proof -
  define e0 where "e0 = min (dexp a) (dexp b)"
  have "dec_val a = real_of_int (dec_int a e0) * 10 powi e0" "dec_val b = real_of_int (dec_int b e0) * 10 powi e0"
    by (simp_all add: e0_def dec_int_val)
  moreover have "(10::real) powi e0 \<noteq> 0" by simp
  ultimately show ?thesis by (simp add: dec_eq_def Let_def flip: e0_def)
qed

lemma f_less_trans: "f_less a b \<Longrightarrow> f_less b c \<Longrightarrow> f_less a c"
  by (cases a; cases b; cases c) (auto simp: dec_less_val)

lemma f_less_asym: "f_less a b \<Longrightarrow> \<not> f_less b a"
  by (cases a; cases b) (auto simp: dec_less_val)

lemma f_total: "a \<noteq> FNaN \<Longrightarrow> b \<noteq> FNaN \<Longrightarrow> f_less a b \<or> f_less b a \<or> f_eq a b"
  by (cases a; cases b) (auto simp: dec_less_val dec_eq_val)

lemma f_eq_iff: "a \<noteq> FNaN \<Longrightarrow> b \<noteq> FNaN \<Longrightarrow> f_eq a b \<longleftrightarrow> \<not> f_less a b \<and> \<not> f_less b a"
  by (cases a; cases b) (auto simp: dec_less_val dec_eq_val)

lemma f_incomparable_trans:
  "a \<noteq> FNaN \<Longrightarrow> b \<noteq> FNaN \<Longrightarrow> c \<noteq> FNaN \<Longrightarrow> \<not> f_less b a \<Longrightarrow> \<not> f_less c b \<Longrightarrow> \<not> f_less c a"
  by (cases a; cases b; cases c) (auto simp: dec_less_val)

text \<open>The values \<open>Compare\<close> orders consistently: all numbers that are not NaN, or none a
  number.\<close>

definition same_kind :: "gval list \<Rightarrow> bool" where
  "same_kind vs \<longleftrightarrow> (\<forall>v\<in>set vs. \<exists>f. asNumber v = Some f \<and> f \<noteq> FNaN) \<or> (\<forall>v\<in>set vs. asNumber v = None)"

lemma Compare_antisym: "Compare b a = - Compare a b"
  using f_less_asym by (auto simp: Compare_def strings_Compare_def split: option.splits)

lemma Compare_le_num:
  "asNumber a = Some f \<Longrightarrow> asNumber b = Some g \<Longrightarrow> Compare a b \<le> 0 \<longleftrightarrow> \<not> f_less g f"
  using f_less_asym by (simp add: Compare_def)

lemma Compare_le_str:
  "asNumber a = None \<Longrightarrow> Compare a b \<le> 0 \<longleftrightarrow> sprint_v a \<le> sprint_v b"
  by (auto simp: Compare_def strings_Compare_def)

lemma Compare_le_trans:
  assumes "same_kind [a, b, c]" "Compare a b \<le> 0" "Compare b c \<le> 0"
  shows "Compare a c \<le> 0"
proof (cases "asNumber a")
  case None
  then have "asNumber b = None" using assms(1) by (auto simp: same_kind_def)
  then show ?thesis using assms(2,3) None by (auto simp: Compare_le_str)
next
  case (Some f)
  then obtain g h where "asNumber b = Some g" "asNumber c = Some h" "f \<noteq> FNaN" "g \<noteq> FNaN" "h \<noteq> FNaN"
    using assms(1) by (auto simp: same_kind_def)
  then show ?thesis
    using assms(2,3) Some f_incomparable_trans [of f g h] by (simp add: Compare_le_num)
qed

lemma equal_Compare:
  assumes "\<forall>f. asNumber a = Some f \<longrightarrow> f \<noteq> FNaN" "\<forall>f. asNumber b = Some f \<longrightarrow> f \<noteq> FNaN"
  shows "equal_q a b \<longleftrightarrow> Compare a b = 0"
proof (cases "asNumber a = None \<or> asNumber b = None")
  case True
  then show ?thesis by (auto simp: equal_q_def Compare_def strings_Compare_def split: option.splits)
next
  case False
  then obtain f g where fg: "asNumber a = Some f" "asNumber b = Some g" by auto
  with assms f_eq_iff [of f g] show ?thesis by (simp add: equal_q_def Compare_def)
qed

section \<open>Properties\<close>

text \<open>C25: on values of one kind, all numbers or all not numbers, \<open>Compare\<close> is a total preorder whose
  equivalence is the equality of the \<open>eq\<close> operator.\<close>

theorem Compare_preorder:
  assumes "same_kind [a, b, c]"
  shows "Compare b a = - Compare a b \<and> (Compare a b \<le> 0 \<and> Compare b c \<le> 0 \<longrightarrow> Compare a c \<le> 0)
    \<and> (equal_q a b \<longleftrightarrow> Compare a b = 0)"
proof -
  have "equal_q a b \<longleftrightarrow> Compare a b = 0"
    by (rule equal_Compare) (use assms in \<open>auto simp: same_kind_def\<close>)
  then show ?thesis using Compare_antisym [of b a] Compare_le_trans [OF assms] by blast
qed

definition num :: "nat \<Rightarrow> int \<Rightarrow> gval" where
  "num c e = JNum (FFin (Dec False c e))"

theorem Compare_preorder_witness:
  "Compare (num 1 1) (num 2 0) = - Compare (num 2 0) (num 1 1) \<and> Compare (num 2 0) (num 2 1) \<le> 0
   \<and> (equal_q (num 2 0) (num 1 1) \<longleftrightarrow> Compare (num 2 0) (num 1 1) = 0)"
proof -
  have "same_kind [num 2 0, num 1 1, num 2 1]" by (simp add: same_kind_def num_def asNumber_def)
  moreover have "Compare (num 2 0) (num 1 1) \<le> 0 \<and> Compare (num 1 1) (num 2 1) \<le> 0"
    by (simp add: Compare_def num_def asNumber_def dec_less_def dec_int_def)
  ultimately show ?thesis using Compare_preorder [of "num 2 0" "num 1 1" "num 2 1"] by blast
qed


end
