(* ===== verification/SecondaryIndex.thy ===== *)
theory SecondaryIndex
  imports Index Query
begin

text \<open>
  \<open>engine/secondary_index.go\<close>: the inverted index of one field, from value to the ids that hold
  it, with the ordered view of its keys that serves range predicates.  A set of ids is a
  key-sorted map to unit.
\<close>

section \<open>State\<close>

definition KeyField :: string where
  "KeyField = ''_key''"

datatype indexKind = indexEmpty | indexNumeric | indexString | indexMixed

type_synonym idset = "(nat, unit) omap"
type_synonym orderedKey = "string \<times> gval"

record SecondaryIndex =
  sfield :: string
  unique :: bool
  buckets :: "(string, idset) omap"
  reverse :: "(nat, string) omap"
  dups :: "(string, unit) omap"
  kind :: indexKind
  ssorted :: "orderedKey list"
  scoverage :: "SegmentCoverage list"
  scoverageKnown :: bool

definition valKind :: "gval \<Rightarrow> indexKind \<times> gval" where
  "valKind v = (case v of
     JNum f \<Rightarrow> (indexNumeric, JNum f)
   | JStr s \<Rightarrow> (indexString, JStr s)
   | _ \<Rightarrow> (indexString, JStr (sprint_v v)))"

definition mergeKind :: "indexKind \<Rightarrow> indexKind \<Rightarrow> indexKind" where
  "mergeKind cur next = (if cur = indexEmpty then next else if cur = next then cur else indexMixed)"

text \<open>\<open>strconv.ParseFloat(s, 64)\<close>: the value and whether there was no error.  A syntax error gives
  zero, a value out of range an infinity.  Besides the literals of JSON it accepts a plus sign, a
  missing integer or fractional part, underscores between digits, hexadecimal mantissas with a
  binary exponent, and the names of the special values.\<close>

definition lower_char :: "char \<Rightarrow> char" where
  "lower_char c = char_of (of_char c OR (0x20 :: nat))"

definition hex_digit :: "char \<Rightarrow> bool" where
  "hex_digit c \<longleftrightarrow> is_digit c \<or> (CHR ''a'' \<le> lower_char c \<and> lower_char c \<le> CHR ''f'')"

definition hex_val :: "char \<Rightarrow> nat" where
  "hex_val c = (if is_digit c then char_digit c else of_char (lower_char c) - 87)"

definition read_base :: "nat \<Rightarrow> string \<Rightarrow> nat" where
  "read_base b s = foldl (\<lambda>n c. b * n + hex_val c) 0 s"

text \<open>The check on underscores; the state is the last character seen: start, digit, underscore or
  other.\<close>

datatype saw = SawStart | SawDigit | SawUnder | SawOther

fun under_ok :: "bool \<Rightarrow> saw \<Rightarrow> string \<Rightarrow> bool" where
  "under_ok hex st [] = (st \<noteq> SawUnder)"
| "under_ok hex st (c # cs) =
     (if is_digit c \<or> hex \<and> hex_digit c then under_ok hex SawDigit cs
      else if c = CHR ''_'' then st = SawDigit \<and> under_ok hex SawUnder cs
      else st \<noteq> SawUnder \<and> under_ok hex SawOther cs)"

definition split_sign :: "string \<Rightarrow> bool \<times> string" where
  "split_sign s = (case s of
     [] \<Rightarrow> (False, [])
   | c # cs \<Rightarrow> if c = CHR ''-'' then (True, cs) else if c = CHR ''+'' then (False, cs) else (False, s))"

definition underscoreOK :: "string \<Rightarrow> bool" where
  "underscoreOK s = (case snd (split_sign s) of
     a # b # cs \<Rightarrow>
       if a = CHR ''0'' \<and> lower_char b \<in> {CHR ''b'', CHR ''o'', CHR ''x''}
       then under_ok (lower_char b = CHR ''x'') SawDigit cs else under_ok False SawStart (a # b # cs)
   | cs \<Rightarrow> under_ok False SawStart cs)"

text \<open>Digits with at most one point among them: the digits before and after it, and the rest.\<close>

fun scan_mant :: "(char \<Rightarrow> bool) \<Rightarrow> bool \<Rightarrow> string \<Rightarrow> string \<times> string \<times> string" where
  "scan_mant dig dot [] = ([], [], [])"
| "scan_mant dig dot (c # cs) =
     (if c = CHR ''_'' then scan_mant dig dot cs
      else if c = CHR ''.'' \<and> \<not> dot then scan_mant dig True cs
      else if dig c then
        (case scan_mant dig dot cs of (a, b, r) \<Rightarrow> if dot then (a, c # b, r) else (c # a, b, r))
      else ([], [], c # cs))"

text \<open>The exponent, capped as the source caps it.\<close>

definition read_exp :: "string \<Rightarrow> int option" where
  "read_exp s = (case split_sign s of (neg, ds) \<Rightarrow>
     if ds = [] \<or> \<not> is_digit (hd ds) \<or> \<not> list_all (\<lambda>c. is_digit c \<or> c = CHR ''_'') ds then None
     else let e = foldl (\<lambda>n c. if c = CHR ''_'' \<or> n \<ge> 10000 then n else 10 * n + char_digit c) 0 ds
       in Some (if neg then - int e else int e))"

definition readFloat :: "string \<Rightarrow> dec option" where
  "readFloat s = (case split_sign s of (neg, t) \<Rightarrow>
     let hex = (length t > 2 \<and> hd t = CHR ''0'' \<and> lower_char (t ! 1) = CHR ''x'');
         base = (if hex then 16 else 10);
         expc = (if hex then CHR ''p'' else CHR ''e'')
     in case scan_mant (if hex then hex_digit else is_digit) False (if hex then drop 2 t else t) of (a, b, r) \<Rightarrow>
       if a @ b = [] \<or> CHR ''_'' \<in> set s \<and> \<not> underscoreOK s then None
       else case (case r of [] \<Rightarrow> if hex then None else Some 0
             | c # cs \<Rightarrow> if lower_char c = expc then read_exp cs else None) of
         None \<Rightarrow> None
       | Some e \<Rightarrow>
           (let m = read_base base (a @ b) in
            if hex then
              (let x = e - 4 * int (length b) in
               Some (if x \<ge> 0 then Dec neg (m * 2 ^ nat x) 0 else Dec neg (m * 5 ^ nat (- x)) x))
            else Some (Dec neg m (e - int (length b)))))"

definition special_float :: "string \<Rightarrow> float64 option" where
  "special_float s = (case split_sign s of (neg, t) \<Rightarrow>
     if map lower_char t = ''inf'' \<or> map lower_char t = ''infinity'' then Some (FInf neg)
     else if map lower_char s = ''nan'' then Some FNaN
     else None)"

definition float_of_dec :: "dec \<Rightarrow> float64 \<times> bool" where
  "float_of_dec d = (case round64 d of Some d' \<Rightarrow> (FFin d', True) | None \<Rightarrow> (FInf (dneg d), False))"

definition ParseFloat :: "string \<Rightarrow> float64 \<times> bool" where
  "ParseFloat s = (case scan_num s of
     Some (l, []) \<Rightarrow> float_of_dec (lit_dec l)
   | _ \<Rightarrow> (case special_float s of
       Some f \<Rightarrow> (f, True)
     | None \<Rightarrow> (case readFloat s of
         Some d \<Rightarrow> float_of_dec d
       | None \<Rightarrow> (FFin (Dec False 0 0), False))))"

definition key_float :: "string \<Rightarrow> float64" where
  "key_float s = fst (ParseFloat s)"

definition valForKind :: "indexKind \<Rightarrow> string \<Rightarrow> gval" where
  "valForKind k key = (if k = indexNumeric then JNum (key_float key) else JStr key)"

definition toIndexKey :: "gval \<Rightarrow> string" where
  "toIndexKey v = sprint_v v"

definition newSecondaryIndex :: "string \<Rightarrow> bool \<Rightarrow> SecondaryIndex" where
  "newSecondaryIndex f u =
     \<lparr>sfield = f, unique = u, buckets = [], reverse = [], dups = [], kind = indexEmpty, ssorted = [],
      scoverage = [], scoverageKnown = False\<rparr>"

definition accepts :: "SecondaryIndex \<Rightarrow> gval \<Rightarrow> bool" where
  "accepts s v \<longleftrightarrow> sfield s \<noteq> KeyField \<or> (\<exists>x. v = JStr x)"

lemma accepts_code [code]:
  "accepts s v \<longleftrightarrow> sfield s \<noteq> KeyField \<or> (case v of JStr _ \<Rightarrow> True | _ \<Rightarrow> False)"
  by (auto simp: accepts_def split: json.splits)

definition bucket_of :: "SecondaryIndex \<Rightarrow> string \<Rightarrow> idset" where
  "bucket_of s k = (case map_of (buckets s) k of None \<Rightarrow> [] | Some b \<Rightarrow> b)"

definition noteLocked :: "string \<Rightarrow> SecondaryIndex \<Rightarrow> SecondaryIndex" where
  "noteLocked k s =
     (if length (bucket_of s k) > 1 then s\<lparr>dups := om_ins k () (dups s)\<rparr>
      else s\<lparr>dups := om_del k (dups s)\<rparr>)"

text \<open>The loop over the duplicate keys uses the empty string for \<open>none yet\<close>.\<close>

definition firstDuplicate :: "nat \<Rightarrow> SecondaryIndex \<Rightarrow> (string \<times> nat list) option" where
  "firstDuplicate maxIDs s =
     (if dups s = [] then None
      else let first = fold (\<lambda>k first. if first = [] \<or> k < first then k else first) (om_keys (dups s)) []
        in Some (first, take maxIDs (om_keys (bucket_of s first))))"

section \<open>The ordered view\<close>

definition orderLessKey :: "orderedKey \<Rightarrow> orderedKey \<Rightarrow> bool" where
  "orderLessKey a b =
     (let c = Compare (snd a) (snd b) in if c \<noteq> 0 then c < 0 else fst a < fst b)"

definition searchSorted :: "orderedKey list \<Rightarrow> orderedKey \<Rightarrow> nat" where
  "searchSorted xs target = go_search (length xs) (\<lambda>i. \<not> orderLessKey (xs ! i) target)"

definition orderedInsert :: "string \<Rightarrow> gval \<Rightarrow> SecondaryIndex \<Rightarrow> SecondaryIndex" where
  "orderedInsert key val s =
     (if kind s = indexMixed then s
      else let i = searchSorted (ssorted s) (key, val) in
        if i < length (ssorted s) \<and> fst (ssorted s ! i) = key then s
        else s\<lparr>ssorted := take i (ssorted s) @ (key, val) # drop i (ssorted s)\<rparr>)"

definition orderedRemove :: "string \<Rightarrow> SecondaryIndex \<Rightarrow> SecondaryIndex" where
  "orderedRemove key s =
     (if kind s = indexMixed then s
      else let i = searchSorted (ssorted s) (key, valForKind (kind s) key) in
        if i < length (ssorted s) \<and> fst (ssorted s ! i) = key
        then s\<lparr>ssorted := take i (ssorted s) @ drop (i + 1) (ssorted s)\<rparr> else s)"

definition observe :: "gval \<Rightarrow> SecondaryIndex \<Rightarrow> SecondaryIndex" where
  "observe v s =
     (let k = mergeKind (kind s) (fst (valKind v)) in
      s\<lparr>kind := k, ssorted := (if k = indexMixed then [] else ssorted s)\<rparr>)"

section \<open>Updates\<close>

text \<open>Entering an id under a value: the second half of \<open>update\<close> and all of \<open>add\<close>.\<close>

definition sidx_enter :: "gval \<Rightarrow> nat \<Rightarrow> SecondaryIndex \<Rightarrow> SecondaryIndex" where
  "sidx_enter v rid s =
     (let key = toIndexKey v; fresh = (map_of (buckets s) key = None);
          s = s\<lparr>buckets := om_ins key (om_ins rid () (bucket_of s key)) (buckets s),
                reverse := om_ins rid key (reverse s)\<rparr>;
          s = observe v s;
          s = (if fresh then orderedInsert key (snd (valKind v)) s else s)
      in noteLocked key s)"

text \<open>Leaving the bucket an id is in.\<close>

definition sidx_leave :: "nat \<Rightarrow> string \<Rightarrow> SecondaryIndex \<Rightarrow> SecondaryIndex" where
  "sidx_leave rid key s =
     (let b = om_del rid (bucket_of s key);
          s = (if b = [] then orderedRemove key (s\<lparr>buckets := om_del key (buckets s)\<rparr>)
               else s\<lparr>buckets := om_ins key b (buckets s)\<rparr>)
      in noteLocked key s)"

definition sidx_add :: "gval \<Rightarrow> nat \<Rightarrow> SecondaryIndex \<Rightarrow> SecondaryIndex" where
  "sidx_add v rid s = (if accepts s v then sidx_enter v rid s else s)"

definition sidx_remove :: "nat \<Rightarrow> SecondaryIndex \<Rightarrow> SecondaryIndex" where
  "sidx_remove rid s = (case map_of (reverse s) rid of
     None \<Rightarrow> s
   | Some key \<Rightarrow> (let s = sidx_leave rid key s in s\<lparr>reverse := om_del rid (reverse s)\<rparr>))"

definition sidx_update :: "nat \<Rightarrow> gval \<Rightarrow> SecondaryIndex \<Rightarrow> SecondaryIndex" where
  "sidx_update rid v s =
     (if \<not> accepts s v then sidx_remove rid s
      else let s = (case map_of (reverse s) rid of None \<Rightarrow> s | Some key \<Rightarrow> sidx_leave rid key s)
        in sidx_enter v rid s)"

section \<open>Lookups\<close>

definition Lookup :: "SecondaryIndex \<Rightarrow> string \<Rightarrow> nat list" where
  "Lookup s key = om_keys (bucket_of s key)"

text \<open>The positions of the ordered view a range predicate selects.\<close>

definition range_bounds :: "string \<Rightarrow> gval \<Rightarrow> orderedKey list \<Rightarrow> (nat \<times> nat) option" where
  "range_bounds opn qv xs =
     (let n = length xs in
      if opn = ''gt'' then Some (go_search n (\<lambda>i. Compare (snd (xs ! i)) qv > 0), n)
      else if opn = ''gte'' then Some (go_search n (\<lambda>i. Compare (snd (xs ! i)) qv \<ge> 0), n)
      else if opn = ''lt'' then Some (0, go_search n (\<lambda>i. Compare (snd (xs ! i)) qv \<ge> 0))
      else if opn = ''lte'' then Some (0, go_search n (\<lambda>i. Compare (snd (xs ! i)) qv > 0))
      else None)"

definition LookupRange :: "SecondaryIndex \<Rightarrow> string \<Rightarrow> gval \<Rightarrow> nat list option" where
  "LookupRange s opn q =
     (if kind s = indexEmpty then Some []
      else if kind s = indexMixed then None
      else case valKind q of (qk, qv) \<Rightarrow>
        if qk \<noteq> kind s then None
        else case range_bounds opn qv (ssorted s) of
          None \<Rightarrow> None
        | Some (lo, hi) \<Rightarrow>
            Some (concat (map (\<lambda>x. om_keys (bucket_of s (fst x))) (drop lo (take hi (ssorted s))))))"

section \<open>Rebuild and replay\<close>

definition dupsOf :: "(string, idset) omap \<Rightarrow> (string, unit) omap" where
  "dupsOf bs = map (\<lambda>(k, _). (k, ())) (filter (\<lambda>(_, b). length b > 1) bs)"

definition buildSorted :: "(string, idset) omap \<Rightarrow> indexKind \<Rightarrow> orderedKey list" where
  "buildSorted bs k =
     (if k = indexMixed \<or> k = indexEmpty then []
      else sort_by orderLessKey (map (\<lambda>(key, _). (key, valForKind k key)) bs))"

text \<open>The latest data of every id, \<open>None\<close> for a deleted one.\<close>

definition latest_step :: "entry \<Rightarrow> (nat, gmap option option) omap \<Rightarrow> (nat, gmap option option) omap" where
  "latest_step e m =
     (if Op e = OpInsert \<or> Op e = OpUpdate then om_ins (ID e) (Some (Data e)) m
      else if Op e = OpDelete then om_ins (ID e) None m
      else m)"

definition field_of :: "string \<Rightarrow> gmap option \<Rightarrow> gval option" where
  "field_of f data = (case data of None \<Rightarrow> None | Some m \<Rightarrow> map_of m f)"

text \<open>One record of the latest versions folded into the fresh buckets, reverse map and kind.\<close>

definition rebuild_step ::
  "SecondaryIndex \<Rightarrow> nat \<times> gmap option option \<Rightarrow>
   (string, idset) omap \<times> (nat, string) omap \<times> indexKind \<Rightarrow>
   (string, idset) omap \<times> (nat, string) omap \<times> indexKind" where
  "rebuild_step s x acc = (case x of (rid, r) \<Rightarrow> case acc of (bs, rv, k) \<Rightarrow>
     (case r of
        None \<Rightarrow> acc
      | Some data \<Rightarrow> (case field_of (sfield s) data of
          None \<Rightarrow> acc
        | Some v \<Rightarrow>
            if accepts s v then
              (let key = toIndexKey v; b = (case map_of bs key of None \<Rightarrow> [] | Some b \<Rightarrow> b)
               in (om_ins key (om_ins rid () b) bs, om_ins rid key rv, mergeKind k (fst (valKind v))))
            else acc)))"

definition sidx_install :: "SecondaryIndex \<Rightarrow> (nat, gmap option option) omap \<Rightarrow> SecondaryIndex" where
  "sidx_install s latest = (case fold (rebuild_step s) latest ([], [], indexEmpty) of
     (bs, rv, k) \<Rightarrow>
       s\<lparr>buckets := bs, reverse := rv, dups := dupsOf bs, kind := k, ssorted := buildSorted bs k\<rparr>)"

definition visible_entries :: "decisions \<Rightarrow> scanned list \<Rightarrow> entry list" where
  "visible_entries dec xs =
     map (\<lambda>(_, e, _). e) (List.filter (\<lambda>(_, _, tx). entryVisible tx dec) xs)"

definition scanEntries :: "disk \<Rightarrow> decisions \<Rightarrow> segment \<Rightarrow> seg_err + entry list" where
  "scanEntries d dec sg = (case ScanStampedFromOffset d sg 0 of
     (xs, None) \<Rightarrow> Inr (visible_entries dec xs)
   | (_, Some err) \<Rightarrow> Inl err)"

fun scan_latest ::
  "disk \<Rightarrow> decisions \<Rightarrow> segment list \<Rightarrow> (nat, gmap option option) omap \<Rightarrow>
   seg_err + (nat, gmap option option) omap" where
  "scan_latest d dec [] m = Inr m"
| "scan_latest d dec (sg # sgs) m = (case scanEntries d dec sg of
     Inl err \<Rightarrow> Inl err
   | Inr es \<Rightarrow> scan_latest d dec sgs (fold latest_step es m))"

definition sidx_rebuild :: "disk \<Rightarrow> decisions \<Rightarrow> segment list \<Rightarrow> SecondaryIndex \<Rightarrow> seg_err + SecondaryIndex" where
  "sidx_rebuild d dec sgs s = (case scan_latest d dec sgs [] of
     Inl err \<Rightarrow> Inl err
   | Inr latest \<Rightarrow> Inr (sidx_install s latest))"

definition replay_entry :: "entry \<Rightarrow> SecondaryIndex \<Rightarrow> SecondaryIndex" where
  "replay_entry e s =
     (if Op e = OpInsert \<or> Op e = OpUpdate then
        (case field_of (sfield s) (Data e) of Some v \<Rightarrow> sidx_update (ID e) v s | None \<Rightarrow> sidx_remove (ID e) s)
      else if Op e = OpDelete then sidx_remove (ID e) s
      else s)"

definition sidx_replay ::
  "disk \<Rightarrow> decisions \<Rightarrow> segment \<Rightarrow> nat \<Rightarrow> SecondaryIndex \<Rightarrow> SecondaryIndex \<times> seg_err option" where
  "sidx_replay d dec sg from s = (case ScanStampedFromOffset d sg from of
     (xs, r) \<Rightarrow> (fold replay_entry (visible_entries dec xs) s, r))"

section \<open>Filter values\<close>

definition filterValueToIndexKey :: "string \<Rightarrow> string" where
  "filterValueToIndexKey fv = (case unmarshal_gval fv of None \<Rightarrow> fv | Some v \<Rightarrow> sprint_v v)"

definition filterValueTyped :: "string \<Rightarrow> gval" where
  "filterValueTyped fv = (case unmarshal_gval fv of None \<Rightarrow> JStr fv | Some v \<Rightarrow> v)"

definition sidxFilePath :: "string \<Rightarrow> string \<Rightarrow> string" where
  "sidxFilePath dir f = dir @ ''/sidx_'' @ f @ ''.json''"

section \<open>Searching an ordered view\<close>

lemma go_search_split:
  assumes "\<forall>a b. a \<le> b \<longrightarrow> b < n \<longrightarrow> f a \<longrightarrow> f b"
  shows "go_search n f \<le> n \<and> (\<forall>a<go_search n f. \<not> f a) \<and> (\<forall>a. go_search n f \<le> a \<longrightarrow> a < n \<longrightarrow> f a)"
proof -
  have m: "f b" if "a \<le> b" "b < n" "f a" for a b using assms that by blast
  show ?thesis using go_search_correct(1) [of n f] go_search_correct(2) [of n f] go_search_correct(3) [of n f] m
    by blast
qed

text \<open>What the ordered view needs of the order on its keys.\<close>

locale ordered_view =
  fixes lt :: "'a \<Rightarrow> 'a \<Rightarrow> bool" and S :: "'a set"
  assumes trans: "transp_on S lt" and total: "totalp_on S lt" and asym: "asymp_on S lt"
begin

lemma irrefl: "x \<in> S \<Longrightarrow> \<not> lt x x"
  using asymp_onD [OF asym] by blast

lemma search_mono:
  assumes "sorted_wrt lt xs" "set xs \<subseteq> S" "t \<in> S" "a \<le> b" "b < length xs" "\<not> lt (xs ! a) t"
  shows "\<not> lt (xs ! b) t"
proof (cases "a = b")
  case False
  then have "lt (xs ! a) (xs ! b)" using sorted_wrt_nth_less [OF assms(1), of a b] assms(4,5) by simp
  moreover have "xs ! a \<in> S" "xs ! b \<in> S" using assms(2,4,5) nth_mem by auto
  ultimately show ?thesis using assms(3,6) transp_onD [OF trans] by blast
qed (use assms in simp)

definition pos :: "'a list \<Rightarrow> 'a \<Rightarrow> nat" where
  "pos xs t = go_search (length xs) (\<lambda>i. \<not> lt (xs ! i) t)"

lemma pos_split:
  assumes "sorted_wrt lt xs" "set xs \<subseteq> S" "t \<in> S"
  shows "pos xs t \<le> length xs" "\<forall>x\<in>set (take (pos xs t) xs). lt x t" "\<forall>x\<in>set (drop (pos xs t) xs). \<not> lt x t"
proof -
  have m: "\<not> lt (xs ! b) t" if "a \<le> b" "b < length xs" "\<not> lt (xs ! a) t" for a b
    using search_mono [OF assms that] .
  then have g: "pos xs t \<le> length xs \<and> (\<forall>a<pos xs t. \<not> \<not> lt (xs ! a) t)
      \<and> (\<forall>a. pos xs t \<le> a \<longrightarrow> a < length xs \<longrightarrow> \<not> lt (xs ! a) t)"
    unfolding pos_def by (intro go_search_split) blast
  then show "pos xs t \<le> length xs" "\<forall>x\<in>set (take (pos xs t) xs). lt x t"
    "\<forall>x\<in>set (drop (pos xs t) xs). \<not> lt x t"
    by (auto simp: in_set_conv_nth)
qed

lemma insert_sorted:
  assumes "sorted_wrt lt xs" "set xs \<subseteq> S" "t \<in> S" "t \<notin> set xs"
  shows "sorted_wrt lt (take (pos xs t) xs @ t # drop (pos xs t) xs)"
proof -
  have "lt t x" if "x \<in> set (drop (pos xs t) xs)" for x
  proof -
    have "x \<in> set xs" using that by (rule in_set_dropD)
    then have "x \<in> S" "x \<noteq> t" using assms(2,4) by auto
    then show ?thesis
      using that pos_split(3) [OF assms(1-3)] totalp_onD [OF total assms(3)] by blast
  qed
  moreover have "sorted_wrt lt (take (pos xs t) xs @ drop (pos xs t) xs)" using assms(1) by simp
  ultimately show ?thesis
    using pos_split(2) [OF assms(1-3)] unfolding sorted_wrt_append by auto
qed

lemma pos_member:
  assumes "sorted_wrt lt xs" "set xs \<subseteq> S" "t \<in> set xs"
  shows "pos xs t < length xs \<and> xs ! pos xs t = t"
proof -
  have t: "t \<in> S" using assms by blast
  note p = pos_split [OF assms(1,2) t]
  have "t \<in> set (drop (pos xs t) xs)"
    using p(2) assms(3) irrefl [OF t] by (metis UnE append_take_drop_id set_append)
  then obtain y ys where d: "drop (pos xs t) xs = y # ys" by (cases "drop (pos xs t) xs") auto
  then have l: "pos xs t < length xs" by (metis drop_all list.distinct(1) not_le)
  then have y: "xs ! pos xs t = y" using d by (metis Cons_nth_drop_Suc list.inject)
  have "y = t"
  proof (rule ccontr)
    assume "y \<noteq> t"
    then have "t \<in> set ys" using \<open>t \<in> set (drop (pos xs t) xs)\<close> d by auto
    moreover have "sorted_wrt lt (y # ys)" using sorted_wrt_drop [OF assms(1), of "pos xs t"] d by simp
    ultimately have "lt y t" by simp
    then show False using p(3) d by auto
  qed
  with l y show ?thesis by simp
qed

lemma sorted_distinct: "sorted_wrt lt xs \<Longrightarrow> set xs \<subseteq> S \<Longrightarrow> distinct xs"
proof (induction xs)
  case (Cons x xs)
  then show ?case using irrefl [of x] by auto
qed simp

lemma remove_sorted:
  assumes "sorted_wrt lt xs" "set xs \<subseteq> S" "t \<in> set xs"
  shows "sorted_wrt lt (take (pos xs t) xs @ drop (pos xs t + 1) xs)"
    "set (take (pos xs t) xs @ drop (pos xs t + 1) xs) = set xs - {t}"
proof -
  let ?i = "pos xs t"
  have i: "?i < length xs" "xs ! ?i = t" using pos_member [OF assms] by auto
  then have xs: "xs = take ?i xs @ t # drop (?i + 1) xs" by (metis Suc_eq_plus1 id_take_nth_drop)
  have d: "distinct (take ?i xs @ t # drop (?i + 1) xs)" using sorted_distinct [OF assms(1,2)] xs by simp
  have s: "sorted_wrt lt (take ?i xs @ t # drop (?i + 1) xs)" using assms(1) xs by simp
  then show "sorted_wrt lt (take ?i xs @ drop (?i + 1) xs)" unfolding sorted_wrt_append by auto
  have "set xs = set (take ?i xs) \<union> {t} \<union> set (drop (?i + 1) xs)" by (subst xs) auto
  then show "set (take ?i xs @ drop (?i + 1) xs) = set xs - {t}" using d by auto
qed

lemma pos_notin:
  assumes "sorted_wrt lt xs" "set xs \<subseteq> S" "t \<in> S" "t \<notin> set xs" "pos xs t < length xs"
  shows "xs ! pos xs t \<noteq> t"
  using assms nth_mem by metis

end

section \<open>The keys of a homogeneous index are ordered\<close>

definition num_keys :: "orderedKey set" where
  "num_keys = {(k, JNum (key_float k)) | k. key_float k \<noteq> FNaN}"

definition str_keys :: "orderedKey set" where
  "str_keys = {(k, JStr k) | k. True}"

lemma same_kind_keys:
  "set xs \<subseteq> num_keys \<Longrightarrow> same_kind (map snd xs)" "set xs \<subseteq> str_keys \<Longrightarrow> same_kind (map snd xs)"
  by (auto simp: same_kind_def num_keys_def str_keys_def asNumber_def)

lemma orderLessKey_le: "orderLessKey a b \<Longrightarrow> Compare (snd a) (snd b) \<le> 0"
  by (auto simp: orderLessKey_def Let_def split: if_splits)

lemma orderLessKey_view:
  assumes kinds: "\<And>xs. set xs \<subseteq> S \<Longrightarrow> same_kind (map snd xs)"
    and inj: "\<And>a b. a \<in> S \<Longrightarrow> b \<in> S \<Longrightarrow> fst a = fst b \<Longrightarrow> a = b"
  shows "ordered_view orderLessKey S"
proof
  show "asymp_on S orderLessKey"
  proof (rule asymp_onI)
    fix a b assume "orderLessKey a b"
    then show "\<not> orderLessKey b a"
      using Compare_antisym [of "snd a" "snd b"] by (auto simp: orderLessKey_def Let_def split: if_splits)
  qed
  show "totalp_on S orderLessKey"
  proof (rule totalp_onI)
    fix a b assume "a \<in> S" "b \<in> S" "a \<noteq> b"
    then have "fst a \<noteq> fst b" using inj by blast
    then show "orderLessKey a b \<or> orderLessKey b a"
      using Compare_antisym [of "snd a" "snd b"] by (auto simp: orderLessKey_def Let_def)
  qed
  show "transp_on S orderLessKey"
  proof (rule transp_onI)
    fix a b c assume S: "a \<in> S" "b \<in> S" "c \<in> S" and ab: "orderLessKey a b" and bc: "orderLessKey b c"
    have k: "same_kind [snd a, snd b, snd c]" using kinds [of "[a, b, c]"] S by simp
    have k': "same_kind [snd c, snd a, snd b]" "same_kind [snd b, snd c, snd a]"
      using kinds [of "[c, a, b]"] kinds [of "[b, c, a]"] S by simp_all
    have ac: "Compare (snd a) (snd c) \<le> 0"
      using Compare_le_trans [OF k] orderLessKey_le [OF ab] orderLessKey_le [OF bc] by blast
    show "orderLessKey a c"
    proof (cases "Compare (snd a) (snd c) = 0")
      case True
      then have "Compare (snd c) (snd a) \<le> 0" using Compare_antisym [of "snd a" "snd c"] by simp
      then have "Compare (snd b) (snd a) \<le> 0" "Compare (snd c) (snd b) \<le> 0"
        using Compare_le_trans [OF k'(1)] Compare_le_trans [OF k'(2)] orderLessKey_le [OF ab] orderLessKey_le [OF bc]
        by blast+
      then have "Compare (snd a) (snd b) = 0" "Compare (snd b) (snd c) = 0"
        using Compare_antisym [of "snd a" "snd b"] Compare_antisym [of "snd b" "snd c"]
          orderLessKey_le [OF ab] orderLessKey_le [OF bc] by linarith+
      then show ?thesis using ab bc True by (auto simp: orderLessKey_def Let_def)
    next
      case False
      then show ?thesis using ac by (simp add: orderLessKey_def Let_def)
    qed
  qed
qed

interpretation numv: ordered_view orderLessKey num_keys
  by (rule orderLessKey_view) (auto simp: num_keys_def intro: same_kind_keys(1) [unfolded num_keys_def])

interpretation strv: ordered_view orderLessKey str_keys
  by (rule orderLessKey_view) (auto simp: str_keys_def intro: same_kind_keys(2) [unfolded str_keys_def])
section \<open>The invariant\<close>

text \<open>\<open>F\<close> is the field as the records have it: the value of every id whose record has the field
  and whose value the index accepts.\<close>

type_synonym fieldview = "nat \<Rightarrow> gval option"

definition sidx_buckets_ok :: "SecondaryIndex \<Rightarrow> fieldview \<Rightarrow> bool" where
  "sidx_buckets_ok s F \<longleftrightarrow> om_ok (buckets s) \<and> om_ok (reverse s)
     \<and> (\<forall>k b. map_of (buckets s) k = Some b \<longrightarrow> om_ok b \<and> b \<noteq> [])
     \<and> (\<forall>k i. i \<in> fst ` set (bucket_of s k) \<longleftrightarrow> (\<exists>v. F i = Some v \<and> toIndexKey v = k))
     \<and> (\<forall>i. map_of (reverse s) i = map_option toIndexKey (F i))"

definition sidx_dups_ok :: "SecondaryIndex \<Rightarrow> bool" where
  "sidx_dups_ok s \<longleftrightarrow> om_ok (dups s) \<and> (\<forall>k. map_of (dups s) k \<noteq> None \<longleftrightarrow> length (bucket_of s k) > 1)"

definition sidx_kinds_ok :: "SecondaryIndex \<Rightarrow> fieldview \<Rightarrow> bool" where
  "sidx_kinds_ok s F \<longleftrightarrow>
     (\<forall>i v. F i = Some v \<longrightarrow> gval_ok v \<and> accepts s v \<and> mergeKind (kind s) (fst (valKind v)) = kind s)"

text \<open>The ordered view holds the keys of the buckets, in order, while the kind is homogeneous.\<close>

definition view_keys :: "indexKind \<Rightarrow> string set \<Rightarrow> orderedKey set" where
  "view_keys k ks = (\<lambda>key. (key, valForKind k key)) ` ks"

definition sidx_view_ok :: "SecondaryIndex \<Rightarrow> bool" where
  "sidx_view_ok s \<longleftrightarrow>
     (if kind s = indexMixed then ssorted s = []
      else sorted_wrt orderLessKey (ssorted s) \<and> set (ssorted s) = view_keys (kind s) (fst ` set (buckets s)))"

definition sidx_ok :: "SecondaryIndex \<Rightarrow> fieldview \<Rightarrow> bool" where
  "sidx_ok s F \<longleftrightarrow> sidx_buckets_ok s F \<and> sidx_dups_ok s \<and> sidx_kinds_ok s F \<and> sidx_view_ok s"

section \<open>Keys read back\<close>

lemma scan_print_lit: "lit_ok l \<Longrightarrow> scan_num (print_lit l) = Some (l, [])"
  using scan_num_print [of l "[]"] by simp

lemma key_float_fmt:
  assumes "is_f64 d"
  shows "key_float (fmt_v (FFin d)) = FFin d"
proof -
  define l where "l = (if dcoef d \<noteq> 0 \<and> (dec_point d - 1 < -4 \<or> dec_point d - 1 \<ge> 6) then fmt_e True d else fmt_f d)"
  have c: "canon d" using assms by (rule canon_f64)
  have "lit_ok l" "lit_dec l = d"
    by (auto simp: l_def lit_ok_fmt_e lit_ok_fmt_f lit_dec_fmt_e [OF c] lit_dec_fmt_f [OF c])
  moreover have "fmt_v (FFin d) = print_lit l" by (simp add: fmt_v_def fmt_g_def l_def)
  ultimately show ?thesis
    using assms scan_print_lit [of l]
    by (simp add: key_float_def ParseFloat_def float_of_dec_def is_f64_def)
qed

lemma valForKind_key:
  assumes "gval_ok v" "fst (valKind v) = k"
  shows "valForKind k (toIndexKey v) = snd (valKind v)"
proof (cases v)
  case (JNum f)
  then obtain d where "f = FFin d" "is_f64 d" using assms(1) by (cases f) auto
  then show ?thesis using assms(2) JNum by (auto simp: valForKind_def valKind_def toIndexKey_def key_float_fmt)
qed (use assms(2) in \<open>auto simp: valForKind_def valKind_def toIndexKey_def\<close>)

text \<open>The keys of accepted values of a homogeneous kind form an ordered carrier.\<close>

definition key_carrier :: "indexKind \<Rightarrow> orderedKey set" where
  "key_carrier k = (if k = indexNumeric then num_keys else str_keys)"

lemma valKind_cases: "fst (valKind v) = indexNumeric \<or> fst (valKind v) = indexString"
  by (cases v) (auto simp: valKind_def)

lemma key_in_carrier:
  assumes "gval_ok v" "fst (valKind v) = k"
  shows "(toIndexKey v, valForKind k (toIndexKey v)) \<in> key_carrier k"
proof (cases "k = indexNumeric")
  case True
  then obtain f where "v = JNum f" using assms(2) by (cases v) (auto simp: valKind_def)
  then obtain d where "v = JNum (FFin d)" "is_f64 d" using assms(1) by (cases f) auto
  then show ?thesis
    using True by (auto simp: key_carrier_def num_keys_def valForKind_def toIndexKey_def key_float_fmt)
qed (auto simp: key_carrier_def str_keys_def valForKind_def)

lemma carrier_view: "ordered_view orderLessKey (key_carrier k)"
  using numv.ordered_view_axioms strv.ordered_view_axioms by (simp add: key_carrier_def)

lemmas carrier_insert = ordered_view.insert_sorted [OF carrier_view]
  and carrier_member = ordered_view.pos_member [OF carrier_view]
  and carrier_remove = ordered_view.remove_sorted [OF carrier_view]

lemma searchSorted_pos: "searchSorted xs t = ordered_view.pos orderLessKey xs t"
  by (simp add: searchSorted_def ordered_view.pos_def [OF carrier_view])

text \<open>In a homogeneous index every bucket key is in the carrier of the kind.\<close>

lemma bucket_key_value:
  assumes "sidx_buckets_ok s F" "k \<in> fst ` set (buckets s)"
  obtains i v where "F i = Some v" "toIndexKey v = k"
proof -
  obtain b where b: "map_of (buckets s) k = Some b"
    using assms by (metis domD dom_map_of_conv_image_fst)
  then have "b \<noteq> []" using assms(1) by (auto simp: sidx_buckets_ok_def)
  then obtain i where "i \<in> fst ` set b" by (cases b) auto
  then have "i \<in> fst ` set (bucket_of s k)" by (simp add: bucket_of_def b)
  then show ?thesis using that assms(1) by (auto simp: sidx_buckets_ok_def)
qed

lemma kind_of_value:
  assumes "sidx_kinds_ok s F" "F i = Some v" "kind s \<noteq> indexMixed"
  shows "fst (valKind v) = kind s" "gval_ok v"
  using assms valKind_cases [of v] by (fastforce simp: sidx_kinds_ok_def mergeKind_def split: if_splits)+

lemma view_in_carrier:
  assumes "sidx_buckets_ok s F" "sidx_kinds_ok s F" "kind s \<noteq> indexMixed"
  shows "view_keys (kind s) (fst ` set (buckets s)) \<subseteq> key_carrier (kind s)"
proof
  fix x assume "x \<in> view_keys (kind s) (fst ` set (buckets s))"
  then obtain k where k: "k \<in> fst ` set (buckets s)" "x = (k, valForKind (kind s) k)" by (auto simp: view_keys_def)
  obtain i v where "F i = Some v" "toIndexKey v = k" using assms(1) k(1) by (rule bucket_key_value)
  then show "x \<in> key_carrier (kind s)" using key_in_carrier kind_of_value [OF assms(2) _ assms(3)] k(2) by blast
qed

lemma view_keys_inj: "(k, x) \<in> view_keys kd ks \<longleftrightarrow> k \<in> ks \<and> x = valForKind kd k"
  by (auto simp: view_keys_def)
section \<open>Entering and leaving keep the invariant\<close>

lemma sidx_frame [simp]:
  "buckets (noteLocked k s) = buckets s" "reverse (noteLocked k s) = reverse s" "kind (noteLocked k s) = kind s"
  "ssorted (noteLocked k s) = ssorted s" "sfield (noteLocked k s) = sfield s" "unique (noteLocked k s) = unique s"
  "buckets (orderedInsert k v s) = buckets s" "reverse (orderedInsert k v s) = reverse s"
  "kind (orderedInsert k v s) = kind s" "dups (orderedInsert k v s) = dups s" "sfield (orderedInsert k v s) = sfield s"
  "unique (orderedInsert k v s) = unique s"
  "buckets (orderedRemove k s) = buckets s" "reverse (orderedRemove k s) = reverse s"
  "kind (orderedRemove k s) = kind s" "dups (orderedRemove k s) = dups s" "sfield (orderedRemove k s) = sfield s"
  "unique (orderedRemove k s) = unique s"
  "buckets (observe v s) = buckets s" "reverse (observe v s) = reverse s" "dups (observe v s) = dups s"
  "sfield (observe v s) = sfield s" "unique (observe v s) = unique s"
  "kind (observe v s) = mergeKind (kind s) (fst (valKind v))"
  by (simp_all add: noteLocked_def orderedInsert_def orderedRemove_def observe_def Let_def)

lemma bucket_of_cong: "buckets s = buckets s' \<Longrightarrow> bucket_of s k = bucket_of s' k"
  by (simp add: bucket_of_def)

lemma buckets_ok_cong:
  "buckets s = buckets s' \<Longrightarrow> reverse s = reverse s' \<Longrightarrow> sidx_buckets_ok s F = sidx_buckets_ok s' F"
  by (simp add: sidx_buckets_ok_def bucket_of_def)

lemma kinds_ok_cong:
  "kind s = kind s' \<Longrightarrow> sfield s = sfield s' \<Longrightarrow> sidx_kinds_ok s F = sidx_kinds_ok s' F"
  by (simp add: sidx_kinds_ok_def accepts_def)

lemma view_ok_cong:
  "kind s = kind s' \<Longrightarrow> ssorted s = ssorted s' \<Longrightarrow> buckets s = buckets s' \<Longrightarrow> sidx_view_ok s = sidx_view_ok s'"
  by (simp add: sidx_view_ok_def)

lemma note_ok:
  assumes "om_ok (dups s)" "\<And>k. k \<noteq> key \<Longrightarrow> map_of (dups s) k \<noteq> None \<longleftrightarrow> length (bucket_of s k) > 1"
  shows "sidx_dups_ok (noteLocked key s)"
  using assms bucket_of_cong [of "noteLocked key s" s]
  by (auto simp: sidx_dups_ok_def noteLocked_def omap_simps split: if_splits)

lemma mergeKind_idem: "mergeKind (mergeKind k k') k' = mergeKind k k'"
  by (auto simp: mergeKind_def)

lemma mergeKind_keep:
  "mergeKind k x = k \<Longrightarrow> x \<noteq> indexEmpty \<Longrightarrow> mergeKind (mergeKind k k') x = mergeKind k k'"
  by (auto simp: mergeKind_def split: if_splits)

lemma valKind_not_empty: "fst (valKind v) \<noteq> indexEmpty" "fst (valKind v) \<noteq> indexMixed"
  using valKind_cases [of v] by auto

lemma bucket_of_ins:
  "om_ok (buckets s) \<Longrightarrow> bucket_of (s\<lparr>buckets := om_ins key b (buckets s), reverse := r\<rparr>) k
     = (if k = key then b else bucket_of s k)"
  by (simp add: bucket_of_def omap_simps)

lemma om_ok_bucket: "sidx_buckets_ok s F \<Longrightarrow> om_ok (bucket_of s k)"
  by (auto simp: sidx_buckets_ok_def bucket_of_def split: option.splits)

lemma buckets_enter:
  assumes ok: "sidx_buckets_ok s F" and new: "F rid = None"
  shows "sidx_buckets_ok (s\<lparr>buckets := om_ins (toIndexKey v) (om_ins rid () (bucket_of s (toIndexKey v))) (buckets s),
           reverse := om_ins rid (toIndexKey v) (reverse s)\<rparr>) (F(rid \<mapsto> v))" (is "sidx_buckets_ok ?s _")
proof -
  let ?k = "toIndexKey v"
  have o: "om_ok (buckets s)" "om_ok (reverse s)" using ok by (auto simp: sidx_buckets_ok_def)
  have ne: "om_ins rid () (bucket_of s ?k) \<noteq> []"
    using fst_set_om_ins [of rid "()" "bucket_of s ?k"] by force
  have "i \<in> fst ` set (bucket_of ?s k) \<longleftrightarrow> (\<exists>w. (F(rid \<mapsto> v)) i = Some w \<and> toIndexKey w = k)" for k i
    using ok new o by (auto simp: sidx_buckets_ok_def bucket_of_ins)
  moreover have "om_ok b \<and> b \<noteq> []" if "map_of (buckets ?s) k = Some b" for k b
    using that ok ne om_ok_bucket [OF ok] o by (auto simp: sidx_buckets_ok_def omap_simps split: if_splits)
  moreover have "map_of (reverse ?s) i = map_option toIndexKey ((F(rid \<mapsto> v)) i)" for i
    using ok o by (simp add: sidx_buckets_ok_def omap_simps)
  ultimately show ?thesis using o by (simp add: sidx_buckets_ok_def)
qed

lemma fst_bucket_keys: "k \<in> fst ` set (buckets s) \<longleftrightarrow> map_of (buckets s) k \<noteq> None"
  by (metis dom_map_of_conv_image_fst domIff)

lemma view_insert:
  assumes "sorted_wrt orderLessKey (ssorted s)" "set (ssorted s) \<subseteq> key_carrier (kind s)"
    "(key, val) \<in> key_carrier (kind s)" "\<forall>x\<in>set (ssorted s). fst x \<noteq> key" "kind s \<noteq> indexMixed"
  shows "sorted_wrt orderLessKey (ssorted (orderedInsert key val s))"
    "set (ssorted (orderedInsert key val s)) = insert (key, val) (set (ssorted s))"
proof -
  let ?i = "searchSorted (ssorted s) (key, val)"
  have "\<not> (?i < length (ssorted s) \<and> fst (ssorted s ! ?i) = key)" using assms(4) nth_mem by blast
  then have e: "ssorted (orderedInsert key val s) = take ?i (ssorted s) @ (key, val) # drop ?i (ssorted s)"
    using assms(5) by (auto simp: orderedInsert_def Let_def)
  have "(key, val) \<notin> set (ssorted s)" using assms(4) by auto
  then show "sorted_wrt orderLessKey (ssorted (orderedInsert key val s))"
    unfolding e searchSorted_pos using assms by (intro carrier_insert)
  have "set (take ?i (ssorted s)) \<union> set (drop ?i (ssorted s)) = set (ssorted s)"
    by (metis append_take_drop_id set_append)
  then show "set (ssorted (orderedInsert key val s)) = insert (key, val) (set (ssorted s))" by (auto simp: e)
qed

lemma empty_kind:
  assumes "sidx_buckets_ok s F" "sidx_kinds_ok s F" "kind s = indexEmpty"
  shows "buckets s = []"
proof (rule ccontr)
  assume "buckets s \<noteq> []"
  then obtain k where k: "k \<in> fst ` set (buckets s)" by (cases "buckets s") auto
  obtain i w where "F i = Some w" using bucket_key_value [OF assms(1) k] by blast
  then show False using kind_of_value(1) [OF assms(2), of i w] assms(3) valKind_not_empty(1) [of w] by simp
qed

lemma kinds_enter:
  assumes "sidx_kinds_ok s F" "gval_ok v" "accepts s v" "sfield s' = sfield s"
    "kind s' = mergeKind (kind s) (fst (valKind v))"
  shows "sidx_kinds_ok s' (F(rid \<mapsto> v))"
proof -
  have "mergeKind (kind s') (fst (valKind w)) = kind s' \<and> gval_ok w \<and> accepts s' w" if "F i = Some w" for i w
    using assms(1,4) that mergeKind_keep [of "kind s" "fst (valKind w)"] valKind_not_empty(1) [of w]
    by (simp add: sidx_kinds_ok_def accepts_def assms(5))
  then show ?thesis
    using assms(2-) mergeKind_idem by (auto simp: sidx_kinds_ok_def accepts_def)
qed

text \<open>The ordered view after a value of a compatible kind was observed.\<close>

lemma view_observe:
  assumes ok: "sidx_ok s F" and k': "mergeKind (kind s) (fst (valKind v)) = k'" "k' \<noteq> indexMixed"
  shows "sorted_wrt orderLessKey (ssorted s)" "k' = fst (valKind v)"
    "set (ssorted s) = view_keys k' (fst ` set (buckets s))" "set (ssorted s) \<subseteq> key_carrier k'"
proof -
  have ks: "kind s \<noteq> indexMixed" and kd: "k' = fst (valKind v)"
    using k' by (auto simp: mergeKind_def split: if_splits)
  have b: "sidx_buckets_ok s F" "sidx_kinds_ok s F" "sidx_view_ok s" using ok by (auto simp: sidx_ok_def)
  have so: "sorted_wrt orderLessKey (ssorted s)" "set (ssorted s) = view_keys (kind s) (fst ` set (buckets s))"
    using b(3) ks by (simp_all add: sidx_view_ok_def)
  have "k' = kind s \<or> buckets s = []"
    using k' empty_kind [OF b(1,2)] by (auto simp: mergeKind_def split: if_splits)
  then have "set (ssorted s) = view_keys k' (fst ` set (buckets s)) \<and> set (ssorted s) \<subseteq> key_carrier k'"
  proof
    assume "k' = kind s"
    then show ?thesis using so view_in_carrier [OF b(1,2) ks] by simp
  qed (simp add: so view_keys_def)
  then show "sorted_wrt orderLessKey (ssorted s)" "k' = fst (valKind v)"
    "set (ssorted s) = view_keys k' (fst ` set (buckets s))" "set (ssorted s) \<subseteq> key_carrier k'"
    using so(1) kd by blast+
qed

lemma view_enter:
  assumes ok: "sidx_ok s F" and v: "gval_ok v" and fr: "fresh = (map_of (buckets s) (toIndexKey v) = None)"
    and s1: "fst ` set (buckets s1) = insert (toIndexKey v) (fst ` set (buckets s))" "kind s1 = kind s" "ssorted s1 = ssorted s"
  shows "sidx_view_ok (if fresh then orderedInsert (toIndexKey v) (snd (valKind v)) (observe v s1) else observe v s1)"
    (is "sidx_view_ok ?s3")
proof (cases "mergeKind (kind s) (fst (valKind v)) = indexMixed")
  case True
  then show ?thesis by (simp add: sidx_view_ok_def s1 orderedInsert_def) (simp add: observe_def Let_def s1)
next
  case False
  let ?k = "toIndexKey v" and ?kd = "mergeKind (kind s) (fst (valKind v))"
  note vo = view_observe [OF ok refl False]
  have o: "ssorted (observe v s1) = ssorted s" "kind (observe v s1) = ?kd"
    using False by (simp_all add: s1) (simp add: observe_def Let_def s1)
  have val: "snd (valKind v) = valForKind ?kd ?k" using valForKind_key [OF v] vo(2) by simp
  show ?thesis
  proof (cases fresh)
    case True
    have kin: "(?k, snd (valKind v)) \<in> key_carrier ?kd" using key_in_carrier [OF v] vo(2) val by simp
    have "?k \<notin> fst ` set (buckets s)" using True by (simp only: fst_bucket_keys fr) simp
    then have nin: "\<forall>x\<in>set (ssorted s). fst x \<noteq> ?k"
      unfolding vo(3) by (metis prod.collapse view_keys_inj)
    note vi = view_insert [of "observe v s1" ?k "snd (valKind v)", unfolded o, OF vo(1,4) kin nin False]
    show ?thesis using True False vi val by (simp add: sidx_view_ok_def s1 vo(3)) (simp add: view_keys_def)
  next
    case fr': False
    then have "fst ` set (buckets s1) = fst ` set (buckets s)"
      using s1(1) by (auto simp: fr fst_bucket_keys)
    then show ?thesis using fr' False o vo by (simp add: sidx_view_ok_def s1)
  qed
qed

lemma sidx_enter_ok:
  assumes ok: "sidx_ok s F" and new: "F rid = None" and v: "gval_ok v" "accepts s v"
  shows "sidx_ok (sidx_enter v rid s) (F(rid \<mapsto> v))"
proof -
  let ?k = "toIndexKey v"
  define fresh where "fresh = (map_of (buckets s) ?k = None)"
  define s1 where "s1 = s\<lparr>buckets := om_ins ?k (om_ins rid () (bucket_of s ?k)) (buckets s),
           reverse := om_ins rid ?k (reverse s)\<rparr>"
  define s3 where "s3 = (if fresh then orderedInsert ?k (snd (valKind v)) (observe v s1) else observe v s1)"
  have e: "sidx_enter v rid s = noteLocked ?k s3"
    by (simp add: sidx_enter_def Let_def s3_def s1_def fresh_def)
  have b0: "sidx_buckets_ok s F" and d0: "sidx_dups_ok s" and k0: "sidx_kinds_ok s F"
    using ok by (auto simp: sidx_ok_def)
  have b1: "sidx_buckets_ok s1 (F(rid \<mapsto> v))" unfolding s1_def using b0 new by (rule buckets_enter)
  have f3: "buckets s3 = buckets s1" "reverse s3 = reverse s1" "dups s3 = dups s" "sfield s3 = sfield s"
    "kind s3 = mergeKind (kind s) (fst (valKind v))"
    by (simp_all add: s3_def s1_def)
  have "sidx_view_ok s3" unfolding s3_def by (rule view_enter [OF ok v(1) fresh_def]) (simp_all add: s1_def)
  moreover have "sidx_kinds_ok s3 (F(rid \<mapsto> v))" using k0 v f3(4,5) by (rule kinds_enter)
  moreover have "sidx_dups_ok (noteLocked ?k s3)"
  proof (rule note_ok)
    show "om_ok (dups s3)" using d0 f3 by (simp add: sidx_dups_ok_def)
    fix k assume "k \<noteq> ?k"
    then have "bucket_of s3 k = bucket_of s k"
      using b0 f3 by (simp add: bucket_of_def s1_def sidx_buckets_ok_def omap_simps)
    then show "map_of (dups s3) k \<noteq> None \<longleftrightarrow> length (bucket_of s3 k) > 1"
      using d0 f3 by (simp add: sidx_dups_ok_def)
  qed
  moreover have "sidx_buckets_ok s3 (F(rid \<mapsto> v))" using b1 buckets_ok_cong [of s3 s1] f3 by simp
  ultimately show ?thesis
    using buckets_ok_cong [of "noteLocked ?k s3" s3] kinds_ok_cong [of "noteLocked ?k s3" s3]
      view_ok_cong [of "noteLocked ?k s3" s3]
    by (simp add: sidx_ok_def e)
qed
lemma fst_set_om_del: "om_ok m \<Longrightarrow> fst ` set (om_del k m) = fst ` set m - {k}"
proof -
  assume "om_ok m"
  then have "dom (map_of (om_del k m)) = dom (map_of m) - {k}" by (simp add: omap_simps)
  then show ?thesis by (simp only: dom_map_of_conv_image_fst)
qed

lemma view_remove:
  assumes v: "sidx_view_ok s" "kind s \<noteq> indexMixed" "view_keys (kind s) (fst ` set (buckets s)) \<subseteq> key_carrier (kind s)"
    and key: "key \<in> fst ` set (buckets s)" and s1: "ssorted s1 = ssorted s" "kind s1 = kind s"
  shows "sorted_wrt orderLessKey (ssorted (orderedRemove key s1))"
    "set (ssorted (orderedRemove key s1)) = set (ssorted s) - {(key, valForKind (kind s) key)}"
proof -
  let ?t = "(key, valForKind (kind s) key)" and ?i = "searchSorted (ssorted s) (key, valForKind (kind s) key)"
  have so: "sorted_wrt orderLessKey (ssorted s)" "set (ssorted s) \<subseteq> key_carrier (kind s)" "?t \<in> set (ssorted s)"
    using v key by (simp_all add: sidx_view_ok_def view_keys_inj)
  have "?i < length (ssorted s) \<and> ssorted s ! ?i = ?t"
    unfolding searchSorted_pos by (rule carrier_member [OF so])
  then have e: "ssorted (orderedRemove key s1) = take ?i (ssorted s) @ drop (?i + 1) (ssorted s)"
    using v(2) by (auto simp: orderedRemove_def Let_def s1)
  show "sorted_wrt orderLessKey (ssorted (orderedRemove key s1))"
    "set (ssorted (orderedRemove key s1)) = set (ssorted s) - {?t}"
    unfolding e searchSorted_pos by (rule carrier_remove [OF so])+
qed

lemma buckets_leave:
  assumes ok: "sidx_buckets_ok s F" and v: "F rid = Some v" and key: "key = toIndexKey v"
    and b: "b = om_del rid (bucket_of s key)"
    and s1: "buckets s1 = (if b = [] then om_del key (buckets s) else om_ins key b (buckets s))"
      "reverse s1 = om_del rid (reverse s)"
  shows "sidx_buckets_ok s1 (F(rid := None))"
proof -
  have o: "om_ok (buckets s)" "om_ok (reverse s)" using ok by (auto simp: sidx_buckets_ok_def)
  have ob: "om_ok b" using om_ok_bucket [OF ok] by (simp add: b)
  have bk: "bucket_of s1 k = (if k = key then b else bucket_of s k)" for k
    using o by (simp add: bucket_of_def s1 omap_simps)
  have base: "i \<in> fst ` set (bucket_of s k) \<longleftrightarrow> (\<exists>w. F i = Some w \<and> toIndexKey w = k)" for k i
    using ok by (simp add: sidx_buckets_ok_def)
  have fb: "fst ` set b = fst ` set (bucket_of s key) - {rid}"
    using om_ok_bucket [OF ok] by (simp only: b fst_set_om_del)
  have "i \<in> fst ` set (bucket_of s1 k) \<longleftrightarrow> (\<exists>w. (F(rid := None)) i = Some w \<and> toIndexKey w = k)" for k i
    unfolding bk using base [of i k] v key by (cases "k = key"; cases "i = rid") (simp_all only: fb if_True if_False, simp_all)
  moreover have "om_ok b' \<and> b' \<noteq> []" if "map_of (buckets s1) k = Some b'" for k b'
  proof (cases "k = key")
    case True
    then show ?thesis using that o ob by (cases "b = []") (simp_all add: s1 omap_simps)
  next
    case False
    then have "map_of (buckets s) k = Some b'" using that o by (cases "b = []") (simp_all add: s1 omap_simps)
    then show ?thesis using ok by (simp add: sidx_buckets_ok_def)
  qed
  moreover have "map_of (reverse s1) i = map_option toIndexKey ((F(rid := None)) i)" for i
    using ok o by (simp add: s1 sidx_buckets_ok_def omap_simps)
  moreover have "om_ok (buckets s1)" "om_ok (reverse s1)" using o by (simp_all add: s1)
  ultimately show ?thesis unfolding sidx_buckets_ok_def by blast
qed

lemma sidx_leave_ok:
  assumes ok: "sidx_ok s F" and v: "F rid = Some v" and key: "key = toIndexKey v"
  shows "sidx_ok ((sidx_leave rid key s)\<lparr>reverse := om_del rid (reverse s)\<rparr>) (F(rid := None))"
proof -
  define b where "b = om_del rid (bucket_of s key)"
  define s1 where "s1 = (if b = [] then orderedRemove key (s\<lparr>buckets := om_del key (buckets s)\<rparr>)
               else s\<lparr>buckets := om_ins key b (buckets s)\<rparr>)"
  let ?s = "(noteLocked key s1)\<lparr>reverse := om_del rid (reverse s)\<rparr>"
  have e: "sidx_leave rid key s = noteLocked key s1" by (simp add: sidx_leave_def Let_def s1_def b_def)
  have b0: "sidx_buckets_ok s F" and d0: "sidx_dups_ok s" and k0: "sidx_kinds_ok s F" and v0: "sidx_view_ok s"
    using ok by (auto simp: sidx_ok_def)
  have f1: "buckets s1 = (if b = [] then om_del key (buckets s) else om_ins key b (buckets s))"
    "dups s1 = dups s" "kind s1 = kind s" "sfield s1 = sfield s"
    by (simp_all add: s1_def)
  have o: "om_ok (buckets s)" using b0 by (simp add: sidx_buckets_ok_def)
  have "sidx_buckets_ok ?s (F(rid := None))" by (rule buckets_leave [OF b0 v key b_def]) (simp_all add: f1)
  moreover have "sidx_kinds_ok ?s (F(rid := None))" using k0 f1 by (auto simp: sidx_kinds_ok_def accepts_def)
  moreover have "sidx_dups_ok (noteLocked key s1)"
  proof (rule note_ok)
    show "om_ok (dups s1)" using d0 f1 by (simp add: sidx_dups_ok_def)
    fix k assume "k \<noteq> key"
    then have "bucket_of s1 k = bucket_of s k" using o by (simp add: bucket_of_def f1 omap_simps)
    then show "map_of (dups s1) k \<noteq> None \<longleftrightarrow> length (bucket_of s1 k) > 1" using d0 f1 by (simp add: sidx_dups_ok_def)
  qed
  then have "sidx_dups_ok ?s" by (simp add: sidx_dups_ok_def bucket_of_def)
  moreover have "sidx_view_ok s1"
  proof (cases "kind s = indexMixed")
    case True
    then show ?thesis using v0 by (auto simp: sidx_view_ok_def s1_def orderedRemove_def)
  next
    case False
    have "rid \<in> fst ` set (bucket_of s key)" using b0 v key by (simp add: sidx_buckets_ok_def)
    then have "map_of (buckets s) key \<noteq> None" by (cases "map_of (buckets s) key") (auto simp: bucket_of_def)
    then have kin: "key \<in> fst ` set (buckets s)" by (metis fst_bucket_keys)
    note vr = view_remove [OF v0 False view_in_carrier [OF b0 k0 False] kin]
    show ?thesis
    proof (cases "b = []")
      case True
      have "view_keys (kind s) (fst ` set (buckets s) - {key})
          = view_keys (kind s) (fst ` set (buckets s)) - {(key, valForKind (kind s) key)}"
        by (auto simp: view_keys_def)
      then show ?thesis
        using True False v0 vr [of "s\<lparr>buckets := om_del key (buckets s)\<rparr>"] o
        by (simp add: sidx_view_ok_def s1_def fst_set_om_del)
    next
      case ne: False
      then show ?thesis using False v0 kin by (simp add: sidx_view_ok_def s1_def insert_absorb)
    qed
  qed
  then have "sidx_view_ok ?s" by (simp add: sidx_view_ok_def)
  ultimately show ?thesis by (simp add: sidx_ok_def e)
qed

section \<open>The operations refine the field view\<close>

lemma sidx_reverse:
  assumes "sidx_ok s F"
  shows "map_of (reverse s) rid = map_option toIndexKey (F rid)"
  using assms by (simp add: sidx_ok_def sidx_buckets_ok_def)

lemma sidx_reverse_om: "sidx_ok s F \<Longrightarrow> om_ok (reverse s)"
  by (simp add: sidx_ok_def sidx_buckets_ok_def)

lemma reverse_leave [simp]: "reverse (sidx_leave rid key s) = reverse s"
  by (simp add: sidx_leave_def Let_def)

lemma sidx_remove_ok:
  assumes "sidx_ok s F"
  shows "sidx_ok (sidx_remove rid s) (F(rid := None))"
proof (cases "F rid")
  case None
  then show ?thesis using assms sidx_reverse [OF assms, of rid] by (simp add: sidx_remove_def fun_upd_idem)
next
  case (Some v)
  then show ?thesis
    using sidx_leave_ok [OF assms Some refl] sidx_reverse [OF assms, of rid] by (simp add: sidx_remove_def Let_def)
qed

lemma om_ins_del_same: "om_ok m \<Longrightarrow> om_ins k v (om_del k m) = om_ins k v m"
  by (rule om_ext) (auto simp: omap_simps)

lemma sidx_enter_reverse:
  "om_ok (reverse s) \<Longrightarrow> sidx_enter v rid (s\<lparr>reverse := om_del rid (reverse s)\<rparr>) = sidx_enter v rid s"
  by (simp add: sidx_enter_def Let_def om_ins_del_same bucket_of_def)

lemma accepts_cong: "sfield s = sfield s' \<Longrightarrow> accepts s v = accepts s' v"
  by (simp add: accepts_def)

lemma sfield_leave [simp]: "sfield (sidx_leave rid key s) = sfield s"
  by (simp add: sidx_leave_def Let_def)

lemma sidx_update_ok:
  assumes ok: "sidx_ok s F" and v: "gval_ok v"
  shows "sidx_ok (sidx_update rid v s) (F(rid := (if accepts s v then Some v else None)))"
proof (cases "accepts s v")
  case False
  then show ?thesis using sidx_remove_ok [OF ok] by (simp add: sidx_update_def)
next
  case True
  show ?thesis
  proof (cases "F rid")
    case None
    then show ?thesis
      using True sidx_enter_ok [OF ok None v True] sidx_reverse [OF ok, of rid] by (simp add: sidx_update_def)
  next
    case (Some w)
    let ?l = "sidx_leave rid (toIndexKey w) s"
    have l: "sidx_ok (?l\<lparr>reverse := om_del rid (reverse s)\<rparr>) (F(rid := None))"
      by (rule sidx_leave_ok [OF ok Some refl])
    have "accepts (?l\<lparr>reverse := om_del rid (reverse s)\<rparr>) v" using True by (simp add: accepts_def)
    then have "sidx_ok (sidx_enter v rid (?l\<lparr>reverse := om_del rid (reverse s)\<rparr>)) ((F(rid := None))(rid \<mapsto> v))"
      by (intro sidx_enter_ok [OF l _ v]) simp_all
    then show ?thesis
      using True Some sidx_reverse [OF ok, of rid] sidx_enter_reverse [where s = ?l and rid = rid and v = v] sidx_reverse_om [OF ok]
      by (simp add: sidx_update_def Let_def)
  qed
qed

lemma sidx_add_ok:
  assumes "sidx_ok s F" "gval_ok v" "F rid = None"
  shows "sidx_ok (sidx_add v rid s) (F(rid := (if accepts s v then Some v else None)))"
  using assms sidx_enter_ok [OF assms(1,3,2)] by (simp add: sidx_add_def fun_upd_idem)

lemma newSecondaryIndex_ok: "sidx_ok (newSecondaryIndex f u) (\<lambda>_. None)"
  by (simp add: sidx_ok_def sidx_buckets_ok_def sidx_dups_ok_def sidx_kinds_ok_def sidx_view_ok_def
      newSecondaryIndex_def bucket_of_def view_keys_def)

section \<open>Lookups answer for the records\<close>

lemma Lookup_ids:
  assumes "sidx_ok s F"
  shows "i \<in> set (Lookup s key) \<longleftrightarrow> (\<exists>v. F i = Some v \<and> toIndexKey v = key)"
  using assms by (simp add: Lookup_def sidx_ok_def sidx_buckets_ok_def)

text \<open>The operator a range predicate stands for.\<close>

definition range_holds :: "string \<Rightarrow> int \<Rightarrow> bool" where
  "range_holds opn c \<longleftrightarrow>
     (opn = ''gt'' \<and> c > 0) \<or> (opn = ''gte'' \<and> c \<ge> 0) \<or> (opn = ''lt'' \<and> c < 0) \<or> (opn = ''lte'' \<and> c \<le> 0)"

lemma Compare_norm:
  "fst (valKind v) = fst (valKind q) \<Longrightarrow> Compare (snd (valKind v)) (snd (valKind q)) = Compare v q"
proof -
  assume k: "fst (valKind v) = fst (valKind q)"
  have str: "snd (valKind x) = JStr (sprint_v x) \<and> asNumber x = None" if "fst (valKind x) = indexString" for x
    using that by (cases x) (simp_all add: valKind_def asNumber_def)
  have num: "snd (valKind x) = x" if "fst (valKind x) = indexNumeric" for x
    using that by (cases x) (simp_all add: valKind_def)
  show ?thesis
  proof (cases "fst (valKind v) = indexNumeric")
    case True
    then show ?thesis using k num [of v] num [of q] by simp
  next
    case False
    then have "fst (valKind v) = indexString" using valKind_cases by blast
    then show ?thesis using k str [of v] str [of q] by (simp add: Compare_def asNumber_def)
  qed
qed

lemma go_search_take_drop:
  assumes "\<forall>a b. a \<le> b \<longrightarrow> b < length xs \<longrightarrow> P (xs ! a) \<longrightarrow> P (xs ! b)"
  shows "set (drop (go_search (length xs) (\<lambda>i. P (xs ! i))) xs) = {x \<in> set xs. P x}"
    "set (take (go_search (length xs) (\<lambda>i. P (xs ! i))) xs) = {x \<in> set xs. \<not> P x}"
proof -
  let ?n = "go_search (length xs) (\<lambda>i. P (xs ! i))"
  have g: "?n \<le> length xs" "\<forall>a<?n. \<not> P (xs ! a)" "\<forall>a. ?n \<le> a \<longrightarrow> a < length xs \<longrightarrow> P (xs ! a)"
    using go_search_split [of "length xs" "\<lambda>i. P (xs ! i)", OF assms] by blast+
  have t: "\<forall>x\<in>set (take ?n xs). \<not> P x" using g(1,2) by (auto simp: in_set_conv_nth)
  have d: "\<forall>x\<in>set (drop ?n xs). P x" using g(3) by (auto simp: in_set_conv_nth)
  have "set xs = set (take ?n xs) \<union> set (drop ?n xs)" by (metis append_take_drop_id set_append)
  then show "set (drop ?n xs) = {x \<in> set xs. P x}" "set (take ?n xs) = {x \<in> set xs. \<not> P x}"
    using t d by blast+
qed

text \<open>On keys sorted by the order, comparison with a query value of their kind is monotone.\<close>

lemma Compare_mono:
  assumes "sorted_wrt orderLessKey xs" "\<And>a b. a \<in> set xs \<Longrightarrow> b \<in> set xs \<Longrightarrow> same_kind [snd a, snd b, q]"
    "a \<le> b" "b < length xs"
  shows "Compare (snd (xs ! a)) q > 0 \<longrightarrow> Compare (snd (xs ! b)) q > 0"
    "Compare (snd (xs ! a)) q \<ge> 0 \<longrightarrow> Compare (snd (xs ! b)) q \<ge> 0"
proof -
  have ab: "Compare (snd (xs ! a)) (snd (xs ! b)) \<le> 0"
  proof (cases "a = b")
    case True
    then show ?thesis using Compare_antisym [of "snd (xs ! a)" "snd (xs ! a)"] by simp
  next
    case False
    then have "orderLessKey (xs ! a) (xs ! b)" using sorted_wrt_nth_less [OF assms(1)] assms(3,4) by simp
    then show ?thesis by (rule orderLessKey_le)
  qed
  have k: "same_kind [snd (xs ! a), snd (xs ! b), q]" using assms(2-4) by simp
  then have k': "same_kind [q, snd (xs ! a), snd (xs ! b)]" by (auto simp: same_kind_def)
  show "Compare (snd (xs ! a)) q > 0 \<longrightarrow> Compare (snd (xs ! b)) q > 0"
    using Compare_le_trans [OF k ab] by linarith
  show "Compare (snd (xs ! a)) q \<ge> 0 \<longrightarrow> Compare (snd (xs ! b)) q \<ge> 0"
    using Compare_le_trans [OF k' _ ab] Compare_antisym [of q "snd (xs ! a)"] Compare_antisym [of q "snd (xs ! b)"]
    by linarith
qed

lemma range_bounds_set:
  assumes "sorted_wrt orderLessKey xs" "\<And>a b. a \<in> set xs \<Longrightarrow> b \<in> set xs \<Longrightarrow> same_kind [snd a, snd b, q]"
    "range_bounds opn q xs = Some (lo, hi)"
  shows "set (drop lo (take hi xs)) = {x \<in> set xs. range_holds opn (Compare (snd x) q)}"
proof -
  have m1: "\<forall>a b. a \<le> b \<longrightarrow> b < length xs \<longrightarrow> Compare (snd (xs ! a)) q > 0 \<longrightarrow> Compare (snd (xs ! b)) q > 0"
    using Compare_mono(1) [OF assms(1,2)] by blast
  have m2: "\<forall>a b. a \<le> b \<longrightarrow> b < length xs \<longrightarrow> Compare (snd (xs ! a)) q \<ge> 0 \<longrightarrow> Compare (snd (xs ! b)) q \<ge> 0"
    using Compare_mono(2) [OF assms(1,2)] by blast
  note s1 = go_search_take_drop [of xs "\<lambda>x. Compare (snd x) q > 0", OF m1]
    and s2 = go_search_take_drop [of xs "\<lambda>x. Compare (snd x) q \<ge> 0", OF m2]
  show ?thesis
    using assms(3) s1 s2 by (auto simp: range_bounds_def Let_def range_holds_def split: if_splits)
qed

theorem LookupRange_ids:
  assumes ok: "sidx_ok s F" and q: "gval_ok q" and r: "LookupRange s opn q = Some ids"
  shows "i \<in> set ids \<longleftrightarrow> (\<exists>v. F i = Some v \<and> range_holds opn (Compare v q))"
proof (cases "kind s = indexEmpty")
  case True
  have b: "sidx_buckets_ok s F" "sidx_kinds_ok s F" using ok by (auto simp: sidx_ok_def)
  have "F i = None"
  proof (rule ccontr)
    assume "F i \<noteq> None"
    then show False using kind_of_value(1) [OF b(2)] True valKind_not_empty(1) by fastforce
  qed
  then show ?thesis using r True by (simp add: LookupRange_def)
next
  case False
  have b: "sidx_buckets_ok s F" "sidx_kinds_ok s F" "sidx_view_ok s" using ok by (auto simp: sidx_ok_def)
  obtain lo hi where km: "kind s \<noteq> indexMixed" and kq: "fst (valKind q) = kind s"
    and rb: "range_bounds opn (snd (valKind q)) (ssorted s) = Some (lo, hi)"
    and ids: "ids = concat (map (\<lambda>x. om_keys (bucket_of s (fst x))) (drop lo (take hi (ssorted s))))"
    using r False by (auto simp: LookupRange_def split: if_splits prod.splits option.splits)
  have so: "sorted_wrt orderLessKey (ssorted s)" "set (ssorted s) = view_keys (kind s) (fst ` set (buckets s))"
    using b(3) km by (simp_all add: sidx_view_ok_def)
  have car: "set (ssorted s) \<subseteq> key_carrier (kind s)" using so(2) view_in_carrier [OF b(1,2) km] by simp
  have "(toIndexKey q, snd (valKind q)) \<in> key_carrier (kind s)"
    using key_in_carrier [OF q kq] valForKind_key [OF q kq] by simp
  then have sk: "same_kind [snd x, snd y, snd (valKind q)]" if "x \<in> set (ssorted s)" "y \<in> set (ssorted s)" for x y
    using same_kind_keys [of "[x, y, (toIndexKey q, snd (valKind q))]"] car that
    by (auto simp: key_carrier_def split: if_splits)
  have sel: "set (drop lo (take hi (ssorted s)))
      = {x \<in> set (ssorted s). range_holds opn (Compare (snd x) (snd (valKind q)))}"
    using range_bounds_set [OF so(1) sk rb] .
  have val: "Compare (valForKind (kind s) (toIndexKey v)) (snd (valKind q)) = Compare v q"
    and vin: "(toIndexKey v, valForKind (kind s) (toIndexKey v)) \<in> set (ssorted s)" if "F i = Some v" for v
  proof -
    have v: "fst (valKind v) = kind s" "gval_ok v" using kind_of_value [OF b(2) that km] by auto
    show "Compare (valForKind (kind s) (toIndexKey v)) (snd (valKind q)) = Compare v q"
      using valForKind_key [OF v(2,1)] Compare_norm [of v q] v(1) kq by simp
    have "i \<in> fst ` set (bucket_of s (toIndexKey v))" using b(1) that by (simp add: sidx_buckets_ok_def)
    then have "map_of (buckets s) (toIndexKey v) \<noteq> None"
      by (cases "map_of (buckets s) (toIndexKey v)") (auto simp: bucket_of_def)
    then show "(toIndexKey v, valForKind (kind s) (toIndexKey v)) \<in> set (ssorted s)"
      unfolding so(2) view_keys_inj by (metis fst_bucket_keys)
  qed
  have "i \<in> set ids \<longleftrightarrow> (\<exists>x\<in>set (drop lo (take hi (ssorted s))). \<exists>v. F i = Some v \<and> toIndexKey v = fst x)"
    using b(1) by (auto simp: ids sidx_buckets_ok_def)
  also have "\<dots> \<longleftrightarrow> (\<exists>v. F i = Some v \<and> range_holds opn (Compare v q))"
    unfolding sel
  proof safe
    fix k x v assume "(k, x) \<in> set (ssorted s)" and h: "range_holds opn (Compare (snd (k, x)) (snd (valKind q)))"
      and v: "F i = Some v" "toIndexKey v = fst (k, x)"
    then have "x = valForKind (kind s) (toIndexKey v)" by (simp add: so(2) view_keys_inj)
    then show "\<exists>v. F i = Some v \<and> range_holds opn (Compare v q)" using h v(1) val by auto
  next
    fix v assume v: "F i = Some v" "range_holds opn (Compare v q)"
    then show "\<exists>x\<in>{x \<in> set (ssorted s). range_holds opn (Compare (snd x) (snd (valKind q)))}.
        \<exists>v. F i = Some v \<and> toIndexKey v = fst x"
      using val [OF v(1)] vin [OF v(1)] by (intro bexI [of _ "(toIndexKey v, valForKind (kind s) (toIndexKey v))"]) auto
  qed
  finally show ?thesis .
qed

section \<open>Rebuilding gives the index of the latest versions\<close>

text \<open>The value of the indexed field in the latest version of a record.\<close>

definition rec_value :: "SecondaryIndex \<Rightarrow> gmap option option \<Rightarrow> gval option" where
  "rec_value s r = (case r of
     None \<Rightarrow> None
   | Some data \<Rightarrow> (case field_of (sfield s) data of
       None \<Rightarrow> None
     | Some v \<Rightarrow> if accepts s v then Some v else None))"

definition latest_view :: "SecondaryIndex \<Rightarrow> (nat, gmap option option) omap \<Rightarrow> fieldview" where
  "latest_view s latest i = (case map_of latest i of None \<Rightarrow> None | Some r \<Rightarrow> rec_value s r)"

lemma rebuild_step_value:
  "rebuild_step s (rid, r) (bs, rv, k) = (case rec_value s r of
     None \<Rightarrow> (bs, rv, k)
   | Some v \<Rightarrow> (om_ins (toIndexKey v) (om_ins rid () (bucket_of (s\<lparr>buckets := bs\<rparr>) (toIndexKey v))) bs,
       om_ins rid (toIndexKey v) rv, mergeKind k (fst (valKind v))))"
  by (simp add: rebuild_step_def rec_value_def bucket_of_def Let_def split: option.splits)

lemma rebuild_step_ok:
  assumes ok: "sidx_buckets_ok (s\<lparr>buckets := bs, reverse := rv, kind := k\<rparr>) F"
      "sidx_kinds_ok (s\<lparr>buckets := bs, reverse := rv, kind := k\<rparr>) F"
    and new: "F rid = None" and v: "\<And>v. rec_value s r = Some v \<Longrightarrow> gval_ok v"
    and st: "rebuild_step s (rid, r) (bs, rv, k) = (bs', rv', k')"
  shows "sidx_buckets_ok (s\<lparr>buckets := bs', reverse := rv', kind := k'\<rparr>) (F(rid := rec_value s r))"
    "sidx_kinds_ok (s\<lparr>buckets := bs', reverse := rv', kind := k'\<rparr>) (F(rid := rec_value s r))"
proof -
  let ?s = "s\<lparr>buckets := bs, reverse := rv, kind := k\<rparr>" and ?s' = "s\<lparr>buckets := bs', reverse := rv', kind := k'\<rparr>"
  have "sidx_buckets_ok ?s' (F(rid := rec_value s r)) \<and> sidx_kinds_ok ?s' (F(rid := rec_value s r))"
  proof (cases "rec_value s r")
    case None
    then show ?thesis using ok new st by (simp add: rebuild_step_value fun_upd_idem)
  next
    case (Some w)
    have acc: "accepts s w" using Some by (auto simp: rec_value_def split: option.splits if_splits)
    have st': "bs' = om_ins (toIndexKey w) (om_ins rid () (bucket_of ?s (toIndexKey w))) bs"
      "rv' = om_ins rid (toIndexKey w) rv" "k' = mergeKind k (fst (valKind w))"
      using st Some bucket_of_cong [of ?s "s\<lparr>buckets := bs\<rparr>"] by (simp_all add: rebuild_step_value)
    have b: "sidx_buckets_ok ?s' (F(rid \<mapsto> w))"
    proof (rule buckets_ok_cong [THEN iffD1])
      show "sidx_buckets_ok (?s\<lparr>buckets := om_ins (toIndexKey w) (om_ins rid () (bucket_of ?s (toIndexKey w))) (buckets ?s),
          reverse := om_ins rid (toIndexKey w) (reverse ?s)\<rparr>) (F(rid \<mapsto> w))"
        by (rule buckets_enter [OF ok(1) new])
    qed (simp_all add: st')
    have "sidx_kinds_ok ?s' (F(rid \<mapsto> w))"
      by (rule kinds_enter [OF ok(2) v [OF Some]]) (use acc st'(3) in \<open>simp_all add: accepts_def\<close>)
    then show ?thesis using b Some by simp
  qed
  then show "sidx_buckets_ok ?s' (F(rid := rec_value s r))" "sidx_kinds_ok ?s' (F(rid := rec_value s r))" by auto
qed

lemma rebuild_fold_ok:
  assumes "distinct (map fst latest)" "\<And>rid r v. (rid, r) \<in> set latest \<Longrightarrow> rec_value s r = Some v \<Longrightarrow> gval_ok v"
    "\<And>rid. rid \<in> fst ` set latest \<Longrightarrow> F rid = None"
    "sidx_buckets_ok (s\<lparr>buckets := bs, reverse := rv, kind := k\<rparr>) F"
    "sidx_kinds_ok (s\<lparr>buckets := bs, reverse := rv, kind := k\<rparr>) F"
    "fold (rebuild_step s) latest (bs, rv, k) = (bs', rv', k')"
    "F' = (\<lambda>i. case map_of latest i of None \<Rightarrow> F i | Some r \<Rightarrow> rec_value s r)"
  shows "sidx_buckets_ok (s\<lparr>buckets := bs', reverse := rv', kind := k'\<rparr>) F'
    \<and> sidx_kinds_ok (s\<lparr>buckets := bs', reverse := rv', kind := k'\<rparr>) F'"
  using assms
proof (induction latest arbitrary: F bs rv k)
  case (Cons x latest)
  obtain rid r where x: "x = (rid, r)" by force
  obtain bs1 rv1 k1 where st: "rebuild_step s (rid, r) (bs, rv, k) = (bs1, rv1, k1)" by (metis prod_cases3)
  have rf: "rid \<notin> fst ` set latest" using Cons.prems(1) by (simp add: x)
  have one: "sidx_buckets_ok (s\<lparr>buckets := bs1, reverse := rv1, kind := k1\<rparr>) (F(rid := rec_value s r))"
      "sidx_kinds_ok (s\<lparr>buckets := bs1, reverse := rv1, kind := k1\<rparr>) (F(rid := rec_value s r))"
    by (rule rebuild_step_ok [OF Cons.prems(4,5) _ _ st]; use Cons.prems(2,3) in \<open>auto simp: x\<close>)+
  have F': "F' = (\<lambda>i. case map_of latest i of None \<Rightarrow> (F(rid := rec_value s r)) i | Some r \<Rightarrow> rec_value s r)"
  proof
    have "map_of latest rid = None" using rf by (simp add: map_of_eq_None_iff)
    then show "F' i = (case map_of latest i of None \<Rightarrow> (F(rid := rec_value s r)) i | Some r \<Rightarrow> rec_value s r)" for i
      by (simp add: Cons.prems(7) x split: option.splits)
  qed
  show ?case
  proof (rule Cons.IH [OF _ _ _ one _ F'])
    show "distinct (map fst latest)" using Cons.prems(1) by simp
    show "gval_ok v" if "(rid, r) \<in> set latest" "rec_value s r = Some v" for rid r v
      using Cons.prems(2) that by (metis list.set_intros(2))
    show "(F(rid := rec_value s r)) i = None" if "i \<in> fst ` set latest" for i
      using Cons.prems(3) [of i] that rf by auto
    show "fold (rebuild_step s) latest (bs1, rv1, k1) = (bs', rv', k')" using Cons.prems(6) st by (simp add: x)
  qed
qed auto

lemma dupsOf_ok: "om_ok bs \<Longrightarrow> om_ok (dupsOf bs)"
proof -
  assume "om_ok bs"
  then have "sorted_wrt (<) (map fst (List.filter (\<lambda>(_, b). length b > 1) bs))"
    unfolding om_ok_def by (induction bs) auto
  then show ?thesis by (simp add: om_ok_def dupsOf_def comp_def case_prod_beta)
qed

lemma map_of_dupsOf:
  "om_ok bs \<Longrightarrow> map_of (dupsOf bs) k \<noteq> None \<longleftrightarrow> (\<exists>b. map_of bs k = Some b \<and> length b > 1)"
proof -
  assume "om_ok bs"
  then have d: "distinct (map fst bs)" by (metis om_ok_def strict_sorted_iff)
  have "map_of (dupsOf bs) k \<noteq> None \<longleftrightarrow> k \<in> fst ` set (dupsOf bs)" by (metis map_of_eq_None_iff)
  also have "\<dots> \<longleftrightarrow> (\<exists>b. (k, b) \<in> set bs \<and> length b > 1)" by (force simp: dupsOf_def)
  finally show ?thesis using map_of_eq_Some_iff [OF d] by metis
qed

lemma distinct_map_fst: "distinct (map fst xs) \<Longrightarrow> distinct xs"
  by (simp add: distinct_map)

theorem sidx_install_ok:
  assumes "om_ok latest" "\<And>rid r v. (rid, r) \<in> set latest \<Longrightarrow> rec_value s r = Some v \<Longrightarrow> gval_ok v"
  shows "sidx_ok (sidx_install s latest) (latest_view s latest)"
proof -
  obtain bs rv k where f: "fold (rebuild_step s) latest ([], [], indexEmpty) = (bs, rv, k)" by (metis prod_cases3)
  have d: "distinct (map fst latest)" using assms(1) by (metis om_ok_def strict_sorted_iff)
  have e: "sidx_buckets_ok (s\<lparr>buckets := [], reverse := [], kind := indexEmpty\<rparr>) (\<lambda>_. None)"
      "sidx_kinds_ok (s\<lparr>buckets := [], reverse := [], kind := indexEmpty\<rparr>) (\<lambda>_. None)"
    by (simp_all add: sidx_buckets_ok_def sidx_kinds_ok_def bucket_of_def)
  have F: "latest_view s latest = (\<lambda>i. case map_of latest i of None \<Rightarrow> None | Some r \<Rightarrow> rec_value s r)"
    by (simp add: latest_view_def fun_eq_iff)
  let ?s = "s\<lparr>buckets := bs, reverse := rv, kind := k\<rparr>" and ?s' = "sidx_install s latest"
  have "sidx_buckets_ok ?s (latest_view s latest) \<and> sidx_kinds_ok ?s (latest_view s latest)"
    by (rule rebuild_fold_ok [OF d assms(2) _ e f F]) auto
  moreover have s': "buckets ?s' = bs" "reverse ?s' = rv" "kind ?s' = k" "sfield ?s' = sfield s" "dups ?s' = dupsOf bs"
    "ssorted ?s' = buildSorted bs k"
    by (simp_all add: sidx_install_def f)
  ultimately have b: "sidx_buckets_ok ?s' (latest_view s latest)" and kd: "sidx_kinds_ok ?s' (latest_view s latest)"
    using buckets_ok_cong [of ?s' ?s] kinds_ok_cong [of ?s' ?s] by simp_all
  then have ob: "om_ok bs" by (simp add: sidx_buckets_ok_def s')
  have "sidx_dups_ok ?s'"
    using dupsOf_ok [OF ob] map_of_dupsOf [OF ob]
    by (auto simp: sidx_dups_ok_def s' bucket_of_def split: option.splits)
  moreover have "sidx_view_ok ?s'"
  proof (cases "k = indexMixed \<or> k = indexEmpty")
    case True
    then show ?thesis
      using empty_kind [OF b kd] by (auto simp: sidx_view_ok_def s' buildSorted_def view_keys_def)
  next
    case False
    have set: "set (buildSorted bs k) = view_keys k (fst ` set bs)"
      using False by (force simp: buildSorted_def view_keys_def)
    have "set (buildSorted bs k) \<subseteq> key_carrier k"
      using view_in_carrier [OF b kd] False set by (simp add: s')
    then have sub: "set (map (\<lambda>(key, _). (key, valForKind k key)) bs) \<subseteq> key_carrier k"
      using False by (simp add: buildSorted_def)
    have "distinct (map fst bs)" using ob by (metis om_ok_def strict_sorted_iff)
    then have "distinct (map (\<lambda>(key, _). (key, valForKind k key)) bs)"
      by (intro distinct_map_fst) (simp add: comp_def case_prod_beta)
    then have "sorted_wrt orderLessKey (buildSorted bs k)"
      using False sorted_sort_by [OF ordered_view.trans [OF carrier_view] ordered_view.total [OF carrier_view] sub]
      by (simp add: buildSorted_def)
    then show ?thesis using set False by (simp add: sidx_view_ok_def s')
  qed
  ultimately show ?thesis using b kd by (simp add: sidx_ok_def)
qed

section \<open>Properties\<close>

text \<open>C27: adding, moving and removing a record keep the index exact: buckets, reverse map, duplicate set,
  kind and ordered view describe the records' values after the change as they did before it.\<close>

theorem index_operations_exact:
  assumes "sidx_ok s F" "gval_ok v"
  shows "sidx_ok (sidx_update rid v s) (F(rid := (if accepts s v then Some v else None)))
    \<and> sidx_ok (sidx_remove rid s) (F(rid := None))
    \<and> (F rid = None \<longrightarrow> sidx_ok (sidx_add v rid s) (F(rid := (if accepts s v then Some v else None))))"
  using sidx_update_ok [OF assms] sidx_remove_ok [OF assms(1)] sidx_add_ok [OF assms] by blast

lemma go_search_small: "go_search 0 f = 0" "go_search (Suc 0) f = (if f 0 then 0 else 1)"
  by (simp_all add: go_search_def search_from.simps [of f 0 0] search_from.simps [of f 0 1] search_from.simps [of f 1 1]
      flip: One_nat_def)

definition sample_index :: SecondaryIndex where
  "sample_index = sidx_update 1 (JStr ''x'') (newSecondaryIndex ''name'' True)"

lemma sample_index_ok: "sidx_ok sample_index [1 \<mapsto> JStr ''x'']"
  using sidx_update_ok [OF newSecondaryIndex_ok, of "JStr ''x''" 1 "''name''" True]
  by (simp add: sample_index_def valid_utf8_ascii accepts_def)

theorem index_operations_exact_witness:
  "sidx_ok (sidx_update 2 (JStr ''x'') sample_index) [1 \<mapsto> JStr ''x'', 2 \<mapsto> JStr ''x'']
   \<and> sidx_ok (sidx_remove 2 sample_index) [1 \<mapsto> JStr ''x'']
   \<and> sidx_ok (sidx_add (JStr ''x'') 2 sample_index) [1 \<mapsto> JStr ''x'', 2 \<mapsto> JStr ''x'']"
  using index_operations_exact [OF sample_index_ok, of "JStr ''x''" 2]
  by (simp add: valid_utf8_ascii accepts_def fun_upd_idem sample_index_def newSecondaryIndex_def KeyField_def)



text \<open>C29: a range lookup that the index answers returns exactly the ids whose value satisfies the range
  operator, that is, what a scan filtering with \<open>Compare\<close> would return.\<close>

theorem range_lookup_exact:
  assumes "sidx_ok s F" "gval_ok q" "LookupRange s opn q = Some ids"
  shows "i \<in> set ids \<longleftrightarrow> (\<exists>v. F i = Some v \<and> range_holds opn (Compare v q))"
  using assms by (rule LookupRange_ids)

theorem range_lookup_exact_witness:
  "LookupRange sample_index ''lt'' (JStr ''y'') = Some [1]
   \<and> ((1::nat) \<in> set [1] \<longleftrightarrow> (\<exists>v. [1 \<mapsto> JStr ''x''] (1::nat) = Some v \<and> range_holds ''lt'' (Compare v (JStr ''y''))))"
proof
  show r: "LookupRange sample_index ''lt'' (JStr ''y'') = Some [1]"
    by (simp add: sample_index_def newSecondaryIndex_def sidx_update_def accepts_def sidx_enter_def Let_def
        bucket_of_def observe_def mergeKind_def valKind_def toIndexKey_def orderedInsert_def searchSorted_def
        noteLocked_def LookupRange_def range_bounds_def Compare_def asNumber_def strings_Compare_def go_search_small KeyField_def)
  show "(1::nat) \<in> set [1] \<longleftrightarrow>
      (\<exists>v. [1 \<mapsto> JStr ''x''] (1::nat) = Some v \<and> range_holds ''lt'' (Compare v (JStr ''y'')))"
    by (rule range_lookup_exact [OF sample_index_ok _ r]) (simp add: valid_utf8_ascii)
qed

text \<open>C30: rebuilding the index from the latest versions of the records gives an exact index of them.\<close>

theorem rebuild_exact:
  assumes "om_ok latest" "\<And>rid r v. (rid, r) \<in> set latest \<Longrightarrow> rec_value s r = Some v \<Longrightarrow> gval_ok v"
  shows "sidx_ok (sidx_install s latest) (latest_view s latest)"
  using assms by (rule sidx_install_ok)

theorem rebuild_exact_witness:
  "sidx_ok (sidx_install sample_index [(3, Some (Some [(''name'', JStr ''x'')])), (4, None)]) [3 \<mapsto> JStr ''x'']"
proof -
  have "latest_view sample_index [(3, Some (Some [(''name'', JStr ''x'')])), (4, None)] = [3 \<mapsto> JStr ''x'']"
    by (auto simp: latest_view_def fun_eq_iff rec_value_def field_of_def sample_index_def newSecondaryIndex_def
        sidx_update_def accepts_def sidx_enter_def Let_def observe_def KeyField_def)
  moreover have "gval_ok v" if "(rid, r) \<in> set [(3::nat, Some (Some [(''name'', JStr ''x'')])), (4, None)]"
      "rec_value sample_index r = Some v" for rid r v
    using that by (auto simp: rec_value_def field_of_def valid_utf8_ascii split: option.splits if_splits)
  ultimately show ?thesis
    using rebuild_exact [of "[(3, Some (Some [(''name'', JStr ''x'')])), (4, None)]" sample_index]
    by (simp only:) (simp add: om_ok_def)
qed

end
