(* ===== verification/IndexFile.thy ===== *)
theory IndexFile
  imports SecondaryIndex
begin

text \<open>
  The files of the indexes: \<open>index.json\<close> (\<open>IndexSnapshot.Persist\<close>, \<open>Index.Load\<close> in
  \<open>engine/index.go\<close>) and \<open>sidx_<field>.json\<close> (\<open>sidxSnapshot.write\<close>, \<open>SecondaryIndex.Load\<close> in
  \<open>engine/secondary_index.go\<close>), with the path functions of \<open>path/filepath\<close> they use.  The result
  of persisting is the text of the file.
\<close>

section \<open>Paths\<close>

fun split_slash :: "string \<Rightarrow> string list" where
  "split_slash [] = [[]]"
| "split_slash (c # cs) = (if c = CHR ''/'' then [] # split_slash cs
     else case split_slash cs of [] \<Rightarrow> [[c]] | p # ps \<Rightarrow> (c # p) # ps)"

fun join_slash :: "string list \<Rightarrow> string" where
  "join_slash [] = []"
| "join_slash [p] = p"
| "join_slash (p # q # ps) = p @ ''/'' @ join_slash (q # ps)"

definition IsAbs :: "string \<Rightarrow> bool" where
  "IsAbs p \<longleftrightarrow> take 1 p = ''/''"

text \<open>The elements of a cleaned path: no empty or \<open>.\<close> element, and \<open>..\<close> only at the front of a
  relative path.  The accumulator holds the elements kept so far, last first.\<close>

fun clean_parts :: "bool \<Rightarrow> string list \<Rightarrow> string list \<Rightarrow> string list" where
  "clean_parts rooted acc [] = rev acc"
| "clean_parts rooted acc (p # ps) =
     (if p = [] \<or> p = ''.'' then clean_parts rooted acc ps
      else if p = ''..'' then
        (if acc \<noteq> [] \<and> hd acc \<noteq> ''..'' then clean_parts rooted (tl acc) ps
         else if rooted then clean_parts rooted acc ps
         else clean_parts rooted (p # acc) ps)
      else clean_parts rooted (p # acc) ps)"

definition parts_of :: "string \<Rightarrow> string list" where
  "parts_of p = clean_parts (IsAbs p) [] (split_slash p)"

definition Clean :: "string \<Rightarrow> string" where
  "Clean p =
     (if IsAbs p then CHR ''/'' # join_slash (parts_of p)
      else if parts_of p = [] then ''.'' else join_slash (parts_of p))"

definition Join :: "string \<Rightarrow> string \<Rightarrow> string" where
  "Join dir p =
     (if dir = [] \<and> p = [] then [] else if dir = [] then Clean p else if p = [] then Clean dir
      else Clean (dir @ ''/'' @ p))"

definition Base :: "string \<Rightarrow> string" where
  "Base p =
     (if p = [] then ''.''
      else case rev (dropWhile (\<lambda>q. q = []) (rev (split_slash p))) of
        [] \<Rightarrow> ''/'' | qs \<Rightarrow> last qs)"

definition Dir :: "string \<Rightarrow> string" where
  "Dir p = Clean (rev (dropWhile (\<lambda>c. c \<noteq> CHR ''/'') (rev p)))"

fun strip_common :: "string list \<Rightarrow> string list \<Rightarrow> string list \<times> string list" where
  "strip_common (a # as) (b # bs) = (if a = b then strip_common as bs else (a # as, b # bs))"
| "strip_common as bs = (as, bs)"

definition Rel :: "string \<Rightarrow> string \<Rightarrow> string option" where
  "Rel base targ =
     (if IsAbs base \<noteq> IsAbs targ then None
      else case strip_common (parts_of base) (parts_of targ) of (bs, ts) \<Rightarrow>
        if take 1 bs = [''..''] then None
        else let r = map (\<lambda>_. ''..'') bs @ ts in Some (if r = [] then ''.'' else join_slash r))"

definition relSegmentPath :: "string \<Rightarrow> string \<Rightarrow> string" where
  "relSegmentPath dir p =
     (if \<not> IsAbs p then p
      else case Rel dir p of
        Some r \<Rightarrow> if take 2 r \<noteq> ''..'' then r else Base p
      | None \<Rightarrow> Base p)"

definition resolveSegmentPath :: "string \<Rightarrow> string \<Rightarrow> string" where
  "resolveSegmentPath dir p = Join dir (if IsAbs p then Base p else p)"

section \<open>The index file\<close>

definition indexFormatV2 :: nat where
  "indexFormatV2 = 2"

definition str_member :: "string \<Rightarrow> string \<Rightarrow> (string \<times> jtext) list" where
  "str_member k s = (if s = [] then [] else [(k, JStr s)])"

definition cov_json :: "SegmentCoverage \<Rightarrow> jtext" where
  "cov_json cv = JObj ([(''segment'', JStr (CovSegment cv)), (''size'', json_nat (CovSize cv)),
      (''checksum'', JStr (CovChecksum cv))] @ str_member ''tail'' (CovTail cv)
      @ (if XTxApplied cv = [] then [] else [(''xtx_applied'', JArr (map JStr (XTxApplied cv)))])
      @ str_member ''xtx_epoch'' (XTxEpoch cv))"

definition loc_json :: "IndexEntry \<Rightarrow> jtext" where
  "loc_json e = JObj ([(''segment'', JStr (SegmentPath e)), (''offset'', json_nat (Offset e))]
      @ nat_member ''rev'' (IRev e) @ int_member ''expires_at'' (IExpiresAt e) @ nat_member ''epoch'' (IEpoch e))"

text \<open>\<open>encoding/json\<close> writes an integer-keyed map by the text of its keys, in bytewise order.\<close>

definition entries_json :: "locs \<Rightarrow> jtext" where
  "entries_json m = JObj (sort_key fst (map (\<lambda>(i, e). (show_nat i, loc_json e)) m))"

definition payload_members :: "jtext \<Rightarrow> SegmentCoverage list \<Rightarrow> (string \<times> jtext) list" where
  "payload_members entries cov =
     [(''version'', json_nat indexFormatV2), (''entries'', entries), (''coverage'', JArr (map cov_json cov))]"

definition checksumKey :: string where
  "checksumKey = CHR '','' # CHR 0x22 # ''checksum'' @ [CHR 0x22, CHR '':'']"

record IndexSnapshot =
  snap_entries :: locs
  snap_coverage :: "SegmentCoverage list"

text \<open>\<open>Index.Snapshot\<close>: the coverage of every segment, by name.\<close>

fun capture_all :: "disk \<Rightarrow> decisions \<Rightarrow> string \<Rightarrow> segment list \<Rightarrow> seg_err + SegmentCoverage list" where
  "capture_all d dec epoch [] = Inr []"
| "capture_all d dec epoch (s # ss) = (case captureCoverage d dec epoch s of
     Inl err \<Rightarrow> Inl err
   | Inr cv \<Rightarrow> (case capture_all d dec epoch ss of Inl err \<Rightarrow> Inl err | Inr cvs \<Rightarrow> Inr (cv # cvs)))"

definition Snapshot :: "disk \<Rightarrow> decisions \<Rightarrow> string \<Rightarrow> segment list \<Rightarrow> Index \<Rightarrow> seg_err + IndexSnapshot" where
  "Snapshot d dec epoch segs idx = (case capture_all d dec epoch segs of
     Inl err \<Rightarrow> Inl err
   | Inr cov \<Rightarrow> Inr \<lparr>snap_entries = ientries idx, snap_coverage = sort_key CovSegment cov\<rparr>)"

definition rel_entries :: "string \<Rightarrow> locs \<Rightarrow> locs" where
  "rel_entries dir m = map (\<lambda>(i, e). (i, e\<lparr>SegmentPath := relSegmentPath dir (SegmentPath e)\<rparr>)) m"

definition Persist :: "string \<Rightarrow> IndexSnapshot \<Rightarrow> string" where
  "Persist p s =
     (let payload = print_json (JObj (payload_members (entries_json (rel_entries (Dir p) (snap_entries s))) (snap_coverage s)))
      in butlast payload @ checksumKey @ [CHR 0x22] @ sha256_hex payload @ [CHR 0x22, CHR ''}''])"

section \<open>Reading the index file\<close>

fun get_strs :: "jtext list \<Rightarrow> string list option" where
  "get_strs [] = Some []"
| "get_strs (j # js) = (case (get_str j [], get_strs js) of (Some s, Some ss) \<Rightarrow> Some (s # ss) | _ \<Rightarrow> None)"

definition get_strlist :: "jtext \<Rightarrow> string list option" where
  "get_strlist j = (case j of JNull \<Rightarrow> Some [] | JArr js \<Rightarrow> get_strs js | _ \<Rightarrow> None)"

text \<open>Sizes and offsets are signed in the source; a negative one, which the engine never writes, makes
  the file unreadable here.\<close>

definition get_size :: "jtext \<Rightarrow> nat \<Rightarrow> nat option" where
  "get_size j old = (case get_int64 j (int old) of
     Some i \<Rightarrow> if i \<ge> 0 then Some (nat i) else None
   | None \<Rightarrow> None)"

definition set_cov_field :: "string \<times> jtext \<Rightarrow> SegmentCoverage \<Rightarrow> SegmentCoverage option" where
  "set_cov_field kv cv =
     (let k = fold_name (fst kv); j = snd kv in
      if k = ''segment'' then map_option (\<lambda>x. cv\<lparr>CovSegment := x\<rparr>) (get_str j (CovSegment cv))
      else if k = ''size'' then map_option (\<lambda>x. cv\<lparr>CovSize := x\<rparr>) (get_size j (CovSize cv))
      else if k = ''checksum'' then map_option (\<lambda>x. cv\<lparr>CovChecksum := x\<rparr>) (get_str j (CovChecksum cv))
      else if k = ''tail'' then map_option (\<lambda>x. cv\<lparr>CovTail := x\<rparr>) (get_str j (CovTail cv))
      else if k = ''xtx_applied'' then map_option (\<lambda>x. cv\<lparr>XTxApplied := x\<rparr>) (get_strlist j)
      else if k = ''xtx_epoch'' then map_option (\<lambda>x. cv\<lparr>XTxEpoch := x\<rparr>) (get_str j (XTxEpoch cv))
      else Some cv)"

definition set_loc_field :: "string \<times> jtext \<Rightarrow> IndexEntry \<Rightarrow> IndexEntry option" where
  "set_loc_field kv e =
     (let k = fold_name (fst kv); j = snd kv in
      if k = ''segment'' then map_option (\<lambda>x. e\<lparr>SegmentPath := x\<rparr>) (get_str j (SegmentPath e))
      else if k = ''offset'' then map_option (\<lambda>x. e\<lparr>Offset := x\<rparr>) (get_size j (Offset e))
      else if k = ''rev'' then map_option (\<lambda>x. e\<lparr>IRev := x\<rparr>) (get_uint 64 j (IRev e))
      else if k = ''expires_at'' then map_option (\<lambda>x. e\<lparr>IExpiresAt := x\<rparr>) (get_int64 j (IExpiresAt e))
      else if k = ''epoch'' then map_option (\<lambda>x. e\<lparr>IEpoch := x\<rparr>) (get_uint 64 j (IEpoch e))
      else Some e)"

text \<open>Folding the members of an object into a struct; \<open>null\<close> leaves it alone.\<close>

fun set_members :: "(string \<times> jtext \<Rightarrow> 'a \<Rightarrow> 'a option) \<Rightarrow> (string \<times> jtext) list \<Rightarrow> 'a \<Rightarrow> 'a option" where
  "set_members f [] x = Some x"
| "set_members f (kv # kvs) x = (case f kv x of None \<Rightarrow> None | Some x' \<Rightarrow> set_members f kvs x')"

definition get_struct :: "(string \<times> jtext \<Rightarrow> 'a \<Rightarrow> 'a option) \<Rightarrow> jtext \<Rightarrow> 'a \<Rightarrow> 'a option" where
  "get_struct f j x = (case j of JNull \<Rightarrow> Some x | JObj kvs \<Rightarrow> set_members f kvs x | _ \<Rightarrow> None)"

fun get_all :: "(jtext \<Rightarrow> 'a option) \<Rightarrow> jtext list \<Rightarrow> 'a list option" where
  "get_all f [] = Some []"
| "get_all f (j # js) = (case f j of None \<Rightarrow> None | Some x \<Rightarrow> map_option (\<lambda>xs. x # xs) (get_all f js))"

definition empty_cov :: SegmentCoverage where
  "empty_cov = \<lparr>CovSegment = [], CovSize = 0, CovChecksum = [], CovTail = [], XTxApplied = [], XTxEpoch = []\<rparr>"

definition empty_loc :: IndexEntry where
  "empty_loc = \<lparr>SegmentPath = [], Offset = 0, IRev = 0, IExpiresAt = 0, IEpoch = 0\<rparr>"

definition get_covs :: "jtext \<Rightarrow> SegmentCoverage list option" where
  "get_covs j = (case j of
     JNull \<Rightarrow> Some []
   | JArr js \<Rightarrow> get_all (\<lambda>j. get_struct set_cov_field j empty_cov) js
   | _ \<Rightarrow> None)"

text \<open>A map keyed by \<open>uint64\<close>: keys are parsed by \<open>strconv.ParseUint\<close>, values from the zero value.\<close>

definition parse_uint64 :: "string \<Rightarrow> nat option" where
  "parse_uint64 s = (if s \<noteq> [] \<and> list_all is_digit s \<and> read_nat s < 2 ^ 64 then Some (read_nat s) else None)"

fun get_locs :: "(string \<times> jtext) list \<Rightarrow> locs \<Rightarrow> locs option" where
  "get_locs [] m = Some m"
| "get_locs ((k, j) # kvs) m = (case (parse_uint64 k, get_struct set_loc_field j empty_loc) of
     (Some i, Some e) \<Rightarrow> get_locs kvs (om_ins i e m)
   | _ \<Rightarrow> None)"

record indexFile =
  ifVersion :: int
  ifEntries :: "locs option"
  ifCoverage :: "SegmentCoverage list"
  ifChecksum :: string

text \<open>A nil map has no entries, and is marshalled as \<open>null\<close>.\<close>

definition file_entries :: "indexFile \<Rightarrow> locs" where
  "file_entries f = (case ifEntries f of None \<Rightarrow> [] | Some m \<Rightarrow> m)"

definition file_entries_json :: "locs option \<Rightarrow> jtext" where
  "file_entries_json m = (case m of None \<Rightarrow> JNull | Some m \<Rightarrow> entries_json m)"

definition empty_file :: indexFile where
  "empty_file = \<lparr>ifVersion = 0, ifEntries = None, ifCoverage = [], ifChecksum = []\<rparr>"

definition set_file_field :: "string \<times> jtext \<Rightarrow> indexFile \<Rightarrow> indexFile option" where
  "set_file_field kv f =
     (let k = fold_name (fst kv); j = snd kv in
      if k = ''version'' then map_option (\<lambda>x. f\<lparr>ifVersion := x\<rparr>) (get_int64 j (ifVersion f))
      else if k = ''entries'' then
        (case j of
           JNull \<Rightarrow> Some (f\<lparr>ifEntries := None\<rparr>)
         | JObj kvs \<Rightarrow> map_option (\<lambda>x. f\<lparr>ifEntries := Some x\<rparr>) (get_locs kvs (file_entries f))
         | _ \<Rightarrow> None)
      else if k = ''coverage'' then map_option (\<lambda>x. f\<lparr>ifCoverage := x\<rparr>) (get_covs j)
      else if k = ''checksum'' then map_option (\<lambda>x. f\<lparr>ifChecksum := x\<rparr>) (get_str j (ifChecksum f))
      else Some f)"

datatype index_err = IdxRead | IdxUnmarshal | ErrIndexStale

definition rawChecksumOK :: "string \<Rightarrow> string \<Rightarrow> bool" where
  "rawChecksumOK b want =
     (let suffix = checksumKey @ [CHR 0x22] @ want @ [CHR 0x22, CHR ''}''] in
      want \<noteq> [] \<and> length suffix \<le> length b \<and> drop (length b - length suffix) b = suffix
      \<and> sha256_hex (take (length b - length suffix) b @ ''}'') = want)"

definition install :: "string \<Rightarrow> indexFile \<Rightarrow> Index \<Rightarrow> Index" where
  "install p f idx = (noteExpiringLocked
     (idx\<lparr>ientries := map (\<lambda>(i, e). (i, e\<lparr>SegmentPath := resolveSegmentPath (Dir p) (SegmentPath e)\<rparr>)) (file_entries f)\<rparr>))
     \<lparr>coverage := ifCoverage f, coverageKnown := (ifVersion f = int indexFormatV2)\<rparr>"

definition LoadIndex :: "string \<Rightarrow> string option \<Rightarrow> Index \<Rightarrow> index_err + Index" where
  "LoadIndex p bytes idx = (case bytes of
     None \<Rightarrow> Inl IdxRead
   | Some b \<Rightarrow> (case Option.bind (parse_json b) (\<lambda>j. get_struct set_file_field j empty_file) of
       None \<Rightarrow> Inl IdxUnmarshal
     | Some f \<Rightarrow>
         if ifVersion f = int indexFormatV2 \<and> rawChecksumOK b (ifChecksum f) then Inr (install p f idx)
         else if ifVersion f = 0 then
           (if sha256_hex (print_json (file_entries_json (ifEntries f))) = ifChecksum f then Inr (install p f idx)
            else Inl ErrIndexStale)
         else if ifVersion f = int indexFormatV2 then
           (if sha256_hex (print_json (JObj (payload_members (file_entries_json (ifEntries f)) (ifCoverage f)))) = ifChecksum f
            then Inr (install p f idx) else Inl ErrIndexStale)
         else Inl ErrIndexStale))"

section \<open>The secondary index file\<close>

definition sidxFormatV2 :: nat where
  "sidxFormatV2 = 2"

definition kind_String :: "indexKind \<Rightarrow> string" where
  "kind_String k = (case k of
     indexNumeric \<Rightarrow> ''numeric'' | indexString \<Rightarrow> ''string'' | indexMixed \<Rightarrow> ''mixed'' | indexEmpty \<Rightarrow> [])"

definition parseIndexKind :: "string \<Rightarrow> indexKind" where
  "parseIndexKind s =
     (if s = ''numeric'' then indexNumeric else if s = ''string'' then indexString
      else if s = ''mixed'' then indexMixed else indexEmpty)"

text \<open>The buckets of the file: a nil map or slice is \<open>None\<close>, and marshalled as \<open>null\<close>.\<close>

type_synonym file_buckets = "(string, nat list option) omap option"

definition ids_json :: "nat list option \<Rightarrow> jtext" where
  "ids_json ids = (case ids of None \<Rightarrow> JNull | Some xs \<Rightarrow> JArr (map json_nat xs))"

definition buckets_json :: "file_buckets \<Rightarrow> jtext" where
  "buckets_json bs = (case bs of None \<Rightarrow> JNull | Some m \<Rightarrow> JObj (map (\<lambda>(k, ids). (k, ids_json ids)) m))"

definition sidx_payload :: "file_buckets \<Rightarrow> SegmentCoverage list \<Rightarrow> jtext" where
  "sidx_payload bs cov =
     JObj [(''version'', json_nat sidxFormatV2), (''buckets'', buckets_json bs), (''coverage'', JArr (map cov_json cov))]"

record sidxSnapshot =
  ssField :: string
  ssKind :: string
  ssUnique :: bool
  ssBuckets :: file_buckets

text \<open>The ids of a bucket are written in the map's order, here the ascending one.\<close>

definition sidx_snapshot :: "SecondaryIndex \<Rightarrow> sidxSnapshot" where
  "sidx_snapshot s = \<lparr>ssField = sfield s, ssKind = kind_String (kind s), ssUnique = unique s,
     ssBuckets = Some (map (\<lambda>(k, b). (k, Some (om_keys b))) (buckets s))\<rparr>"

definition sidx_write :: "sidxSnapshot \<Rightarrow> SegmentCoverage list \<Rightarrow> bool \<Rightarrow> string" where
  "sidx_write sn cov v2 =
     (let payload = print_json (if v2 then sidx_payload (ssBuckets sn) cov else buckets_json (ssBuckets sn)) in
      print_json (JObj ([(''field'', JStr (ssField sn))]
        @ (if ssUnique sn then [(''unique'', JBool True)] else [])
        @ str_member ''kind'' (ssKind sn)
        @ (if v2 then [(''version'', json_nat sidxFormatV2)] else [])
        @ [(''buckets'', buckets_json (ssBuckets sn))]
        @ (if v2 \<and> cov \<noteq> [] then [(''coverage'', JArr (map cov_json cov))] else [])
        @ [(''checksum'', JStr (sha256_hex payload))])))"

definition PersistWithCoverage :: "SecondaryIndex \<Rightarrow> SegmentCoverage list \<Rightarrow> string" where
  "PersistWithCoverage s cov = sidx_write (sidx_snapshot s) cov True"

definition PersistSidx :: "SecondaryIndex \<Rightarrow> string" where
  "PersistSidx s = sidx_write (sidx_snapshot s) [] False"

record sidxFile =
  sfField :: string
  sfUnique :: bool
  sfKind :: string
  sfVersion :: int
  sfBuckets :: file_buckets
  sfCoverage :: "SegmentCoverage list"
  sfChecksum :: string

definition empty_sidxFile :: sidxFile where
  "empty_sidxFile = \<lparr>sfField = [], sfUnique = False, sfKind = [], sfVersion = 0, sfBuckets = None,
     sfCoverage = [], sfChecksum = []\<rparr>"

definition get_bool :: "jtext \<Rightarrow> bool \<Rightarrow> bool option" where
  "get_bool j old = (case j of JNull \<Rightarrow> Some old | JBool b \<Rightarrow> Some b | _ \<Rightarrow> None)"

definition get_ids :: "jtext \<Rightarrow> nat list option option" where
  "get_ids j = (case j of
     JNull \<Rightarrow> Some None
   | JArr js \<Rightarrow> map_option Some (get_all (\<lambda>j. get_uint 64 j 0) js)
   | _ \<Rightarrow> None)"

fun get_buckets :: "(string \<times> jtext) list \<Rightarrow> (string, nat list option) omap \<Rightarrow> (string, nat list option) omap option" where
  "get_buckets [] m = Some m"
| "get_buckets ((k, j) # kvs) m = (case get_ids j of None \<Rightarrow> None | Some ids \<Rightarrow> get_buckets kvs (om_ins k ids m))"

definition set_sidx_field :: "string \<times> jtext \<Rightarrow> sidxFile \<Rightarrow> sidxFile option" where
  "set_sidx_field kv f =
     (let k = fold_name (fst kv); j = snd kv in
      if k = ''field'' then map_option (\<lambda>x. f\<lparr>sfField := x\<rparr>) (get_str j (sfField f))
      else if k = ''unique'' then map_option (\<lambda>x. f\<lparr>sfUnique := x\<rparr>) (get_bool j (sfUnique f))
      else if k = ''kind'' then map_option (\<lambda>x. f\<lparr>sfKind := x\<rparr>) (get_str j (sfKind f))
      else if k = ''version'' then map_option (\<lambda>x. f\<lparr>sfVersion := x\<rparr>) (get_int64 j (sfVersion f))
      else if k = ''buckets'' then
        (case j of
           JNull \<Rightarrow> Some (f\<lparr>sfBuckets := None\<rparr>)
         | JObj kvs \<Rightarrow> map_option (\<lambda>x. f\<lparr>sfBuckets := Some x\<rparr>)
             (get_buckets kvs (case sfBuckets f of None \<Rightarrow> [] | Some m \<Rightarrow> m))
         | _ \<Rightarrow> None)
      else if k = ''coverage'' then map_option (\<lambda>x. f\<lparr>sfCoverage := x\<rparr>) (get_covs j)
      else if k = ''checksum'' then map_option (\<lambda>x. f\<lparr>sfChecksum := x\<rparr>) (get_str j (sfChecksum f))
      else Some f)"

definition inferKind :: "(string, idset) omap \<Rightarrow> indexKind" where
  "inferKind bs = (if list_all (\<lambda>(k, _). snd (ParseFloat k)) bs then indexNumeric else indexString)"

text \<open>Installing the buckets of a file; Go visits them in an arbitrary order, here by key.\<close>

definition load_buckets :: "(string, nat list option) omap \<Rightarrow> (string, idset) omap" where
  "load_buckets m = map (\<lambda>(k, ids). (k, om_of (map (\<lambda>i. (i, ())) (case ids of None \<Rightarrow> [] | Some xs \<Rightarrow> xs)))) m"

definition load_reverse :: "(string, nat list option) omap \<Rightarrow> (nat, string) omap" where
  "load_reverse m = fold (\<lambda>(k, ids) rv. fold (\<lambda>i. om_ins i k) (case ids of None \<Rightarrow> [] | Some xs \<Rightarrow> xs) rv) m []"

definition LoadSidx :: "string option \<Rightarrow> SecondaryIndex \<Rightarrow> bool \<times> SecondaryIndex" where
  "LoadSidx bytes s = (case bytes of
     None \<Rightarrow> (False, s)
   | Some b \<Rightarrow> (case Option.bind (parse_json b) (\<lambda>j. get_struct set_sidx_field j empty_sidxFile) of
       None \<Rightarrow> (False, s)
     | Some f \<Rightarrow>
         (let s = s\<lparr>unique := sfUnique f\<rparr>;
              payload = print_json (if sfVersion f = int sidxFormatV2
                then sidx_payload (sfBuckets f) (sfCoverage f) else buckets_json (sfBuckets f))
          in if sha256_hex payload \<noteq> sfChecksum f then (False, s)
             else let m = (case sfBuckets f of None \<Rightarrow> [] | Some m \<Rightarrow> m);
                      bs = load_buckets m;
                      k0 = parseIndexKind (sfKind f);
                      k = (if k0 = indexEmpty \<and> bs \<noteq> [] then inferKind bs else k0)
               in (True, s\<lparr>buckets := bs, reverse := load_reverse m, dups := dupsOf bs, kind := k,
                     ssorted := buildSorted bs k, scoverage := sfCoverage f,
                     scoverageKnown := (sfVersion f = int sidxFormatV2)\<rparr>))))"

end
