(* ===== verification/Collection.thy ===== *)
theory Collection
  imports IndexFile
begin

text \<open>
  \<open>engine/collection.go\<close> with \<open>fence.go\<close>, \<open>ttl.go\<close>, \<open>quota.go\<close>, \<open>keys.go\<close> and the part of
  \<open>meta.go\<close> they use: a collection without an encryption policy (\<open>c.enc\<close> is nil).

  Every operation is a function on the state of the collection, which holds the files of the data
  directory too.  What the operating system answers is part of the state: the successive readings
  of the wall clock and the outcomes of the successive file operations are arbitrary sequences,
  consumed by position, so that a theorem about an operation covers every fault.

  A result \<open>Inl\<close> is an error returned instead of a value; \<open>Inr (v, post)\<close> is a committed write with
  its value and, when a step after the commit failed, the \<open>PostCommitError\<close> returned beside it.
\<close>

section \<open>State\<close>

datatype SyncMode = SyncModeNone | SyncModeAlways | SyncModeInterval

record CollectionConfig =
  SegmentMaxSize :: nat
  cfgSyncMode :: SyncMode
  DefaultTTL :: int
  MaxRecords :: nat
  MaxBytes :: nat
  WatchBufferSize :: nat
  AllowNonAtomicBatch :: bool

definition OpOverflow :: string where
  "OpOverflow = ''overflow''"

record WatchEvent =
  wOp :: string
  wID :: nat
  wData :: "gmap option"
  wTs :: time

text \<open>A subscription: the events in its channel, whose capacity is \<open>WatchBufferSize\<close>.\<close>

record watcher =
  wch :: "WatchEvent list"
  overflowed :: bool

datatype coll_err =
    ErrCollectionFenced
  | ErrWriteOutcomeUnknown string seg_err
  | ErrNotApplied string seg_err
  | ErrNotFound nat
  | ErrReservedField
  | ErrDuplicateKey string string
  | ErrRecordLimit nat
  | ErrByteLimit int
  | ErrKeyIndexConflict string "nat list"
  | ErrKeyNotFound string
  | ErrIndexCorrupt
  | ErrSegmentNotFound nat
  | ErrRead seg_err
  | IntegrityError nat nat string nat
  | ErrSeal seg_err
  | ErrRotateCreate seg_err
  | ErrFsyncDir
  | ErrMeta
  | PostCommitError string string coll_err
  | ErrBatchNotAtomic
  | ErrBatch seg_err "coll_err option"
  | ErrRollback seg_err
  | ErrSidx string seg_err
  | ErrIndexNotFound string
  | ErrTxDeleted nat
  | ErrSync seg_err
  | ErrClose seg_err
  | ErrCoverage seg_err
  | ErrPersist

datatype fence_cause = CauseSeg seg_err | CauseRotate seg_err seg_err | CauseDir

text \<open>The outcome of one file operation: of a write or truncation; of any other call; and, for one that
  failed, whether its effect took place all the same.\<close>

record sys_res =
  sr_io :: seg_io
  sr_ok :: bool
  sr_done :: bool

record collection =
  cname :: string
  cdir :: string
  cfg :: CollectionConfig
  createdAt :: time
  files :: disk
  sealedSegs :: "segment list"
  active :: segment
  index :: Index
  idSeq :: nat
  segSeq :: nat
  fenced :: "(string \<times> fence_cause) option"
  decs :: decisions
  cepoch :: string
  clockFloor :: int
  explicitDefaultTTLSecs :: int
  watchers :: "(nat, watcher) omap"
  watcherIDSeq :: nat
  sidxMap :: "(string, SecondaryIndex) omap"
  broker :: "entry list option"
  cdb :: "bool option"
  sealedCov :: "(string, SegmentCoverage) omap"
  wall :: "nat \<Rightarrow> int"
  ticks :: nat
  sys :: "nat \<Rightarrow> sys_res"
  calls :: nat

type_synonym 'a outcome = "(coll_err + 'a) \<times> collection"
type_synonym 'a committed = "(coll_err + 'a \<times> coll_err option) \<times> collection"

definition sys_next :: "collection \<Rightarrow> sys_res \<times> collection" where
  "sys_next c = (sys c (calls c), c\<lparr>calls := calls c + 1\<rparr>)"

section \<open>Fencing\<close>

definition fence :: "string \<Rightarrow> fence_cause \<Rightarrow> collection \<Rightarrow> collection" where
  "fence opn cause c = (if fenced c = None then c\<lparr>fenced := Some (opn, cause)\<rparr> else c)"

definition unknownOutcome :: "string \<Rightarrow> seg_err \<Rightarrow> collection \<Rightarrow> coll_err \<times> collection" where
  "unknownOutcome opn cause c = (ErrWriteOutcomeUnknown opn cause, fence opn (CauseSeg cause) c)"

definition checkFenced :: "collection \<Rightarrow> coll_err option" where
  "checkFenced c = (if fenced c = None then None else Some ErrCollectionFenced)"

section \<open>The clock and deadlines\<close>

text \<open>\<open>time.Now()\<close>.\<close>

definition wall_now :: "collection \<Rightarrow> time \<times> collection" where
  "wall_now c = (wall c (ticks c), c\<lparr>ticks := ticks c + 1\<rparr>)"

text \<open>The collection's clock: the wall clock, floored by its own high-water mark.\<close>

definition now :: "collection \<Rightarrow> int \<times> collection" where
  "now c = (case wall_now c of (t, c) \<Rightarrow>
     if t \<le> clockFloor c then (clockFloor c, c) else (t, c\<lparr>clockFloor := t\<rparr>))"

definition resolveInsertExpiryAt :: "collection \<Rightarrow> time \<Rightarrow> int \<Rightarrow> int" where
  "resolveInsertExpiryAt c explicit t =
     (if explicit \<noteq> zero_time then i64 explicit
      else if explicitDefaultTTLSecs c > 0 then i64 (t + i64 (explicitDefaultTTLSecs c * 10 ^ 9))
      else if DefaultTTL (cfg c) > 0 then i64 (t + DefaultTTL (cfg c))
      else 0)"

definition resolveInsertExpiry :: "time \<Rightarrow> collection \<Rightarrow> int \<times> collection" where
  "resolveInsertExpiry explicit c = (case now c of (t, c) \<Rightarrow> (resolveInsertExpiryAt c explicit t, c))"

definition liveIDs :: "collection \<Rightarrow> nat list \<Rightarrow> int \<Rightarrow> nat list" where
  "liveIDs c ids t = List.filter
     (\<lambda>i. case idxGet (index c) i of None \<Rightarrow> False | Some loc \<Rightarrow> \<not> expired (IExpiresAt loc) t) ids"

definition sidxConflict :: "collection \<Rightarrow> SecondaryIndex \<Rightarrow> string \<Rightarrow> nat \<Rightarrow> int \<Rightarrow> bool" where
  "sidxConflict c s value rid t = list_ex
     (\<lambda>other. other \<noteq> rid \<and> (case idxGet (index c) other of
        None \<Rightarrow> False | Some loc \<Rightarrow> \<not> expired (IExpiresAt loc) t))
     (Lookup s value)"

section \<open>Quotas\<close>

definition quotaEnabled :: "collection \<Rightarrow> bool" where
  "quotaEnabled c \<longleftrightarrow> MaxRecords (cfg c) > 0 \<or> MaxBytes (cfg c) > 0"

definition entryQuotaBytes :: "collection \<Rightarrow> entry \<Rightarrow> nat" where
  "entryQuotaBytes c e =
     (if MaxBytes (cfg c) = 0 then 0 else case Encode e of Inl _ \<Rightarrow> 0 | Inr b \<Rightarrow> length b)"

definition sizeBytesLocked :: "collection \<Rightarrow> nat" where
  "sizeBytesLocked c = sum_list (map segsize (sealedSegs c)) + segsize (active c)"

definition checkQuotaLocked :: "collection \<Rightarrow> nat \<Rightarrow> nat \<Rightarrow> coll_err option" where
  "checkQuotaLocked c newRecords newBytes =
     (let want = u64 (idxLen (index c) + newRecords); wantB = int (sizeBytesLocked c + newBytes) in
      if MaxRecords (cfg c) > 0 \<and> want > MaxRecords (cfg c) then Some (ErrRecordLimit want)
      else if MaxBytes (cfg c) > 0 \<and> wantB > i64 (int (MaxBytes (cfg c))) then Some (ErrByteLimit wantB)
      else None)"

section \<open>Watch events and the replication feed\<close>

definition emit_one :: "nat \<Rightarrow> WatchEvent \<Rightarrow> time \<Rightarrow> watcher \<Rightarrow> watcher" where
  "emit_one cap ev t w =
     (let deliver = (\<lambda>w. if length (wch w) < cap then w\<lparr>wch := wch w @ [ev]\<rparr> else w\<lparr>overflowed := True\<rparr>) in
      if overflowed w then
        (if length (wch w) < cap
         then deliver (w\<lparr>wch := wch w @ [\<lparr>wOp = OpOverflow, wID = 0, wData = None, wTs = t\<rparr>], overflowed := False\<rparr>)
         else w)
      else deliver w)"

text \<open>Every overflowed subscriber takes its own reading of the clock for the sentinel.\<close>

fun emit_all :: "nat \<Rightarrow> WatchEvent \<Rightarrow> (nat, watcher) omap \<Rightarrow> collection \<Rightarrow> (nat, watcher) omap \<times> collection" where
  "emit_all cap ev [] c = ([], c)"
| "emit_all cap ev ((i, w) # ws) c =
     (case (if overflowed w then wall_now c else (0, c)) of (t, c) \<Rightarrow>
      case emit_all cap ev ws c of (ws', c) \<Rightarrow> ((i, emit_one cap ev t w) # ws', c))"

definition emit :: "WatchEvent \<Rightarrow> collection \<Rightarrow> collection" where
  "emit ev c = (case emit_all (WatchBufferSize (cfg c)) ev (watchers c) c of (ws, c) \<Rightarrow> c\<lparr>watchers := ws\<rparr>)"

definition Subscribe :: "collection \<Rightarrow> nat \<times> collection" where
  "Subscribe c =
     (let wid = u64 (watcherIDSeq c + 1) in
      (wid, c\<lparr>watcherIDSeq := wid, watchers := om_ins wid \<lparr>wch = [], overflowed = False\<rparr> (watchers c)\<rparr>))"

text \<open>The feed as the sequence of entries handed to the broker.\<close>

definition publishCommit :: "entry \<Rightarrow> collection \<Rightarrow> collection" where
  "publishCommit e c = c\<lparr>broker := map_option (\<lambda>es. es @ [e]) (broker c)\<rparr>"

section \<open>Meta file\<close>

definition metaPath :: "string \<Rightarrow> string" where
  "metaPath dir = dir @ ''/meta.json''"

definition meta_json :: "nat \<Rightarrow> time \<Rightarrow> int \<Rightarrow> string option" where
  "meta_json ids created secs = map_option
     (\<lambda>ts. print_json (JObj ([(''id_counter'', json_nat ids), (''created_at'', JStr ts)]
        @ int_member ''default_ttl_seconds'' secs)))
     (fmt_time created)"

text \<open>A file is replaced by writing a temporary one, renaming it and syncing the directory: a failure
  leaves the old file, or the new one when only the last step failed.\<close>

definition writeFileAtomic :: "string \<Rightarrow> string \<Rightarrow> collection \<Rightarrow> bool \<times> collection" where
  "writeFileAtomic p b c = (case sys_next c of (r, c) \<Rightarrow>
     (sr_ok r, if sr_ok r \<or> sr_done r then c\<lparr>files := om_ins p b (files c)\<rparr> else c))"

definition persistMeta :: "nat \<Rightarrow> time \<Rightarrow> int \<Rightarrow> collection \<Rightarrow> coll_err option \<times> collection" where
  "persistMeta ids created secs c = (case meta_json ids created secs of
     None \<Rightarrow> (Some ErrMeta, c)
   | Some b \<Rightarrow> (case writeFileAtomic (metaPath (cdir c)) b c of (ok, c) \<Rightarrow>
       (if ok then None else Some ErrMeta, c)))"

definition writeMeta :: "collection \<Rightarrow> coll_err option \<times> collection" where
  "writeMeta c = persistMeta (idSeq c) (createdAt c) (explicitDefaultTTLSecs c) c"

definition applyPersistedDefaultTTL :: "int \<Rightarrow> collection \<Rightarrow> collection" where
  "applyPersistedDefaultTTL secs c = (if secs \<le> 0 then c else c\<lparr>explicitDefaultTTLSecs := secs\<rparr>)"

definition setDefaultTTL :: "int \<Rightarrow> collection \<Rightarrow> coll_err option \<times> collection" where
  "setDefaultTTL ttl c =
     (if ttl \<le> 0 then (None, c)
      else let secs = ttl div 10 ^ 9 in
        case persistMeta (idSeq c) (createdAt c) secs c of
          (Some err, c) \<Rightarrow> (Some err, c)
        | (None, c) \<Rightarrow> (None, c\<lparr>explicitDefaultTTLSecs := secs\<rparr>))"

section \<open>Segments\<close>

definition segmentPath :: "collection \<Rightarrow> nat \<Rightarrow> string" where
  "segmentPath c n =
     cdir c @ ''/seg_'' @ (if n < 1000000 then pad_nat 6 n else show_nat n) @ ''.ndjson''"

text \<open>\<open>filepath.Glob\<close> of \<open>dir/pre*suf\<close>, for a directory without pattern characters.\<close>

definition glob_match :: "string \<Rightarrow> string \<Rightarrow> string \<Rightarrow> string \<Rightarrow> bool" where
  "glob_match dir pre suf p =
     (let b = drop (length dir + 1) p in
      take (length dir + 1) p = dir @ ''/'' \<and> CHR ''/'' \<notin> set b \<and> length pre + length suf \<le> length b
      \<and> take (length pre) b = pre \<and> drop (length b - length suf) b = suf)"

definition segmentByPathLocked :: "collection \<Rightarrow> string \<Rightarrow> segment option" where
  "segmentByPathLocked c p = List.find (\<lambda>s. segpath s = p) (sealedSegs c @ [active c])"

text \<open>An append to the active segment; the segment's poison hook fences the collection.\<close>

definition append_active :: "entry \<Rightarrow> collection \<Rightarrow> (seg_err + nat) \<times> collection" where
  "append_active e c = (case sys_next c of (r, c) \<Rightarrow>
     case Append (sr_io r) (files c) (active c) e of (res, d, s) \<Rightarrow>
     let c' = c\<lparr>files := d, active := s\<rparr> in
     (res, if poisoned s \<and> \<not> poisoned (active c) then fence ''truncate'' (CauseSeg ErrSegmentPoisoned) c' else c'))"

definition sync_active :: "collection \<Rightarrow> seg_err option \<times> collection" where
  "sync_active c = (case sys_next c of (r, c) \<Rightarrow> (Sync (sr_ok r) (active c), c))"

definition syncActiveLocked :: "collection \<Rightarrow> seg_err option \<times> collection" where
  "syncActiveLocked c = (if cfgSyncMode (cfg c) \<noteq> SyncModeAlways then (None, c) else sync_active c)"

text \<open>Both errors of a failed write whose rollback failed wrap \<open>ErrSegmentPoisoned\<close>.\<close>

definition appendLocked :: "string \<Rightarrow> entry \<Rightarrow> collection \<Rightarrow> nat outcome" where
  "appendLocked opn e c = (case checkFenced c of
     Some err \<Rightarrow> (Inl err, c)
   | None \<Rightarrow> (case append_active e c of
       (Inr offset, c) \<Rightarrow> (Inr offset, c)
     | (Inl err, c) \<Rightarrow>
         if err = ErrSegmentPoisoned \<or> err = SegWriteRollback
         then (case unknownOutcome opn err c of (e', c) \<Rightarrow> (Inl e', c))
         else (Inl (ErrNotApplied opn err), c)))"

definition syncCommitLocked :: "string \<Rightarrow> collection \<Rightarrow> coll_err option \<times> collection" where
  "syncCommitLocked opn c =
     (if cfgSyncMode (cfg c) \<noteq> SyncModeAlways then (None, c)
      else case sync_active c of
        (None, c) \<Rightarrow> (None, c)
      | (Some err, c) \<Rightarrow> (case unknownOutcome opn err c of (e', c) \<Rightarrow> (Some e', c)))"

text \<open>Opening an active segment: one outcome for the open, one for the truncation of a torn tail.\<close>

definition open_active :: "string \<Rightarrow> collection \<Rightarrow> (seg_err + segment) \<times> collection" where
  "open_active p c = (case sys_next c of (r1, c) \<Rightarrow> case sys_next c of (r2, c) \<Rightarrow>
     case openActiveSegmentWith (sr_ok r1) (sr_ok r2) (files c) p of
       Inl err \<Rightarrow> (Inl err, c)
     | Inr (d, s) \<Rightarrow> (Inr s, c\<lparr>files := d\<rparr>))"

text \<open>The steps of a rotation after the new active segment is in place.\<close>

definition rotate_finish :: "coll_err option \<Rightarrow> collection \<Rightarrow> coll_err option \<times> collection" where
  "rotate_finish closeErr c =
     (let (dirOk, c) = (if cfgSyncMode (cfg c) = SyncModeNone then (True, c)
                        else case sys_next c of (r, c) \<Rightarrow> (sr_ok r, c)) in
      if \<not> dirOk then (Some ErrFsyncDir, fence ''rotate'' CauseDir c)
      else case writeMeta c of (metaErr, c) \<Rightarrow>
        (if closeErr \<noteq> None then closeErr else metaErr, c))"

definition rotateSegment :: "collection \<Rightarrow> coll_err option \<times> collection" where
  "rotateSegment c = (case checkFenced c of
     Some err \<Rightarrow> (Some err, c)
   | None \<Rightarrow>
       (case sys_next c of (r1, c) \<Rightarrow> case sys_next c of (r2, c) \<Rightarrow>
        case Seal (sr_ok r1) (sr_ok r2) (active c) of (sealErr, old) \<Rightarrow>
        (case (sealErr, sealed old) of
           (Some err, False) \<Rightarrow> (Some (ErrSeal err), fence ''seal'' (CauseSeg err) c)
         | _ \<Rightarrow>
           (let closeErr = map_option ErrSeal sealErr;
                n = u64 (segSeq c + 1);
                c = c\<lparr>active := old, segSeq := n\<rparr> in
            case open_active (segmentPath c n) c of
              (Inl err, c) \<Rightarrow>
                (case open_active (segpath old) c of
                   (Inl rerr, c) \<Rightarrow> (Some (ErrRotateCreate err), fence ''rotate'' (CauseRotate err rerr) c)
                 | (Inr reopened, c) \<Rightarrow> (Some (ErrRotateCreate err), c\<lparr>active := reopened\<rparr>))
            | (Inr fresh, c) \<Rightarrow>
                rotate_finish closeErr (c\<lparr>sealedSegs := sealedSegs c @ [old], active := fresh\<rparr>)))))"

definition needRotate :: "collection \<Rightarrow> bool" where
  "needRotate c \<longleftrightarrow> segsize (active c) \<ge> SegmentMaxSize (cfg c)"

definition rotate_post :: "string \<Rightarrow> bool \<Rightarrow> collection \<Rightarrow> coll_err option \<times> collection" where
  "rotate_post opn need c =
     (if \<not> need then (None, c)
      else case rotateSegment c of
        (None, c) \<Rightarrow> (None, c)
      | (Some err, c) \<Rightarrow> (Some (PostCommitError opn ''rotate'' err), c))"

definition afterCommit :: "string \<Rightarrow> WatchEvent \<Rightarrow> bool \<Rightarrow> collection \<Rightarrow> coll_err option \<times> collection" where
  "afterCommit opn ev need c = rotate_post opn need (emit ev c)"

section \<open>Secondary indexes of the collection\<close>

text \<open>The first unique index the write would violate; Go visits the indexes in an arbitrary order,
  here by field name.\<close>

definition violates :: "collection \<Rightarrow> nat \<Rightarrow> gmap option \<Rightarrow> int \<Rightarrow> string \<times> SecondaryIndex \<Rightarrow> bool" where
  "violates c rid data t fs = (case fs of (f, s) \<Rightarrow> unique s \<and> (case field_of f data of
     None \<Rightarrow> False
   | Some v \<Rightarrow> accepts s v \<and> sidxConflict c s (toIndexKey v) rid t))"

definition duplicate_err :: "gmap option \<Rightarrow> string \<Rightarrow> coll_err" where
  "duplicate_err data f =
     ErrDuplicateKey f (case field_of f data of None \<Rightarrow> [] | Some v \<Rightarrow> toIndexKey v)"

definition sidxCheckUnique :: "nat \<Rightarrow> gmap option \<Rightarrow> collection \<Rightarrow> coll_err option \<times> collection" where
  "sidxCheckUnique rid data c = (case now c of (t, c) \<Rightarrow>
     (map_option (\<lambda>(f, _). duplicate_err data f) (List.find (violates c rid data t) (sidxMap c)), c))"

definition sidxIndexEntry :: "nat \<Rightarrow> gmap option \<Rightarrow> collection \<Rightarrow> collection" where
  "sidxIndexEntry rid data c = c\<lparr>sidxMap := map
     (\<lambda>(f, s). (f, case field_of f data of None \<Rightarrow> s | Some v \<Rightarrow> sidx_add v rid s)) (sidxMap c)\<rparr>"

definition sidxUpdateEntry :: "nat \<Rightarrow> gmap option \<Rightarrow> collection \<Rightarrow> collection" where
  "sidxUpdateEntry rid data c = c\<lparr>sidxMap := map
     (\<lambda>(f, s). (f, case field_of f data of None \<Rightarrow> sidx_remove rid s | Some v \<Rightarrow> sidx_update rid v s)) (sidxMap c)\<rparr>"

definition sidxRemoveEntry :: "nat \<Rightarrow> collection \<Rightarrow> collection" where
  "sidxRemoveEntry rid c = c\<lparr>sidxMap := map (\<lambda>(f, s). (f, sidx_remove rid s)) (sidxMap c)\<rparr>"

definition indexLookupRaw :: "collection \<Rightarrow> string \<Rightarrow> string \<Rightarrow> nat list option" where
  "indexLookupRaw c f value = map_option (\<lambda>s. Lookup s value) (map_of (sidxMap c) f)"

definition indexLookup :: "string \<Rightarrow> string \<Rightarrow> collection \<Rightarrow> nat list option \<times> collection" where
  "indexLookup f value c = (case indexLookupRaw c f value of
     None \<Rightarrow> (None, c)
   | Some ids \<Rightarrow> (case now c of (t, c) \<Rightarrow> (Some (liveIDs c ids t), c)))"

definition IndexLookup :: "string \<Rightarrow> string \<Rightarrow> collection \<Rightarrow> nat list option \<times> collection" where
  "IndexLookup f value c = (if checkFenced c \<noteq> None then (None, c) else indexLookup f value c)"

definition indexRangeLookup :: "collection \<Rightarrow> string \<Rightarrow> string \<Rightarrow> gval \<Rightarrow> nat list option" where
  "indexRangeLookup c f opn v = (case map_of (sidxMap c) f of None \<Rightarrow> None | Some s \<Rightarrow> LookupRange s opn v)"

definition ListIndexes :: "collection \<Rightarrow> string list" where
  "ListIndexes c = sort (om_keys (sidxMap c))"

section \<open>Keys\<close>

definition has_key :: "gmap option \<Rightarrow> bool" where
  "has_key data \<longleftrightarrow> field_of KeyField data \<noteq> None"

definition stampKey :: "gmap option \<Rightarrow> string \<Rightarrow> gmap option" where
  "stampKey data key = Some (om_ins KeyField (JStr key) (case data of None \<Rightarrow> [] | Some m \<Rightarrow> m))"

definition maxKeyConflictIDs :: nat where
  "maxKeyConflictIDs = 16"

definition keyConflict :: "collection \<Rightarrow> coll_err option" where
  "keyConflict c = (case map_of (sidxMap c) KeyField of
     None \<Rightarrow> None
   | Some s \<Rightarrow> map_option (\<lambda>(k, ids). ErrKeyIndexConflict k ids) (firstDuplicate maxKeyConflictIDs s))"

definition preserveReservedLocked :: "collection \<Rightarrow> nat \<Rightarrow> gmap option \<Rightarrow> gmap option" where
  "preserveReservedLocked c rid data =
     (if has_key data then data
      else case map_of (sidxMap c) KeyField of
        None \<Rightarrow> data
      | Some s \<Rightarrow> (case map_of (reverse s) rid of None \<Rightarrow> data | Some key \<Rightarrow> stampKey data key))"

definition resolveKey :: "string \<Rightarrow> collection \<Rightarrow> nat outcome" where
  "resolveKey key c = (case checkFenced c of
     Some err \<Rightarrow> (Inl err, c)
   | None \<Rightarrow> (case keyConflict c of
       Some err \<Rightarrow> (Inl err, c)
     | None \<Rightarrow> (case indexLookup KeyField key c of
         (Some (i # _), c) \<Rightarrow> (Inr i, c)
       | (_, c) \<Rightarrow> (Inl (ErrKeyNotFound key), c))))"

section \<open>Single-record writes\<close>

text \<open>Append, then the durability point.\<close>

definition append_commit :: "string \<Rightarrow> entry \<Rightarrow> collection \<Rightarrow> nat outcome" where
  "append_commit opn e c = (case appendLocked opn e c of
     (Inl err, c) \<Rightarrow> (Inl err, c)
   | (Inr offset, c) \<Rightarrow> (case syncCommitLocked opn c of
       (Some err, c) \<Rightarrow> (Inl err, c)
     | (None, c) \<Rightarrow> (Inr offset, c)))"

text \<open>The location of the entry just written to the active segment.\<close>

definition loc_of :: "collection \<Rightarrow> nat \<Rightarrow> entry \<Rightarrow> IndexEntry" where
  "loc_of c offset e = \<lparr>SegmentPath = segpath (active c), Offset = offset, IRev = Rev e,
     IExpiresAt = ExpiresAt e, IEpoch = Epoch e\<rparr>"

definition index_set :: "nat \<Rightarrow> entry \<Rightarrow> collection \<Rightarrow> collection" where
  "index_set offset e c = c\<lparr>index := idxSet (index c) (ID e) (loc_of c offset e)\<rparr>"

definition insert_c :: "gmap option \<Rightarrow> int \<Rightarrow> collection \<Rightarrow> (nat \<times> time) committed" where
  "insert_c data expiresAt c =
     (let rid = u64 (idSeq c + 1) in
      case now (c\<lparr>idSeq := rid\<rparr>) of (ts, c) \<Rightarrow>
      let e = (NewInsert ts rid data)\<lparr>Rev := 1, ExpiresAt := expiresAt\<rparr>;
          qBytes = entryQuotaBytes c e
      in case checkFenced c of
        Some err \<Rightarrow> (Inl err, c)
      | None \<Rightarrow> (case checkQuotaLocked c 1 qBytes of
        Some err \<Rightarrow> (Inl err, c)
      | None \<Rightarrow> (case sidxCheckUnique rid data c of
        (Some err, c) \<Rightarrow> (Inl err, c)
      | (None, c) \<Rightarrow> (case append_commit ''insert'' e c of
        (Inl err, c) \<Rightarrow> (Inl err, c)
      | (Inr offset, c) \<Rightarrow>
          (let c = publishCommit e (sidxIndexEntry rid data (index_set offset e c)) in
           case afterCommit ''insert'' \<lparr>wOp = OpInsert, wID = rid, wData = data, wTs = ts\<rparr> (needRotate c) c of
             (post, c) \<Rightarrow> (Inr ((rid, ts), post), c))))))"

definition InsertWithExpiry :: "gmap option \<Rightarrow> time \<Rightarrow> collection \<Rightarrow> (nat \<times> time) committed" where
  "InsertWithExpiry data expiresAt c =
     (if has_key data then (Inl ErrReservedField, c)
      else case resolveInsertExpiry expiresAt c of (ex, c) \<Rightarrow> insert_c data ex c)"

definition Insert :: "gmap option \<Rightarrow> collection \<Rightarrow> (nat \<times> time) committed" where
  "Insert data c =
     (if has_key data then (Inl ErrReservedField, c)
      else case resolveInsertExpiry zero_time c of (ex, c) \<Rightarrow> insert_c data ex c)"

definition glen :: "gmap option \<Rightarrow> nat" where
  "glen data = (case data of None \<Rightarrow> 0 | Some m \<Rightarrow> length m)"

definition update_c :: "nat \<Rightarrow> gmap option \<Rightarrow> int \<Rightarrow> bool \<Rightarrow> collection \<Rightarrow> time committed" where
  "update_c rid data expiresAt keepExpiry c =
     (case now c of (ts, c) \<Rightarrow>
      case checkFenced c of
        Some err \<Rightarrow> (Inl err, c)
      | None \<Rightarrow> (case idxGet (index c) rid of
        None \<Rightarrow> (Inl (ErrNotFound rid), c)
      | Some cur \<Rightarrow>
          (let kept = preserveReservedLocked c rid data;
               data' = (if glen kept \<noteq> glen data then kept else data)
           in case sidxCheckUnique rid data c of
             (Some err, c) \<Rightarrow> (Inl err, c)
           | (None, c) \<Rightarrow>
             (let e = (NewUpdate ts rid data')\<lparr>Rev := u64 (IRev cur + 1),
                    ExpiresAt := (if keepExpiry then IExpiresAt cur else expiresAt)\<rparr>
              in case append_commit ''update'' e c of
                (Inl err, c) \<Rightarrow> (Inl err, c)
              | (Inr offset, c) \<Rightarrow>
                (let c = publishCommit e (sidxUpdateEntry rid data' (index_set offset e c)) in
                 case afterCommit ''update'' \<lparr>wOp = OpUpdate, wID = rid, wData = data', wTs = ts\<rparr> (needRotate c) c of
                   (post, c) \<Rightarrow> (Inr (ts, post), c))))))"

definition Update :: "nat \<Rightarrow> gmap option \<Rightarrow> collection \<Rightarrow> time committed" where
  "Update rid data c = (if has_key data then (Inl ErrReservedField, c) else update_c rid data 0 True c)"

definition UpdateWithExpiry :: "nat \<Rightarrow> gmap option \<Rightarrow> time \<Rightarrow> collection \<Rightarrow> time committed" where
  "UpdateWithExpiry rid data expiresAt c =
     (if has_key data then (Inl ErrReservedField, c)
      else case resolveInsertExpiry expiresAt c of (ex, c) \<Rightarrow> update_c rid data ex False c)"

definition Delete :: "nat \<Rightarrow> collection \<Rightarrow> unit committed" where
  "Delete rid c =
     (case now c of (ts, c) \<Rightarrow>
      let e = NewDelete ts rid in
      case checkFenced c of
        Some err \<Rightarrow> (Inl err, c)
      | None \<Rightarrow> (case idxGet (index c) rid of
        None \<Rightarrow> (Inl (ErrNotFound rid), c)
      | Some _ \<Rightarrow> (case append_commit ''delete'' e c of
          (Inl err, c) \<Rightarrow> (Inl err, c)
        | (Inr offset, c) \<Rightarrow>
          (let c = publishCommit e (sidxRemoveEntry rid (c\<lparr>index := idxDelete (index c) rid\<rparr>)) in
           case afterCommit ''delete'' \<lparr>wOp = OpDelete, wID = rid, wData = None, wTs = ts\<rparr> (needRotate c) c of
             (post, c) \<Rightarrow> (Inr ((), post), c)))))"

section \<open>Reads\<close>

record Record =
  rID :: nat
  rKey :: string
  rRev :: nat
  rTs :: time
  rData :: "gmap option"

definition readLocated ::
  "collection \<Rightarrow> nat \<Rightarrow> IndexEntry option \<Rightarrow> segment option \<Rightarrow> int \<Rightarrow> coll_err + entry" where
  "readLocated c rid found seg t = (case found of
     None \<Rightarrow> Inl (ErrNotFound rid)
   | Some loc \<Rightarrow>
       if expired (IExpiresAt loc) t then Inl (ErrNotFound rid)
       else (case seg of
         None \<Rightarrow> Inl (ErrSegmentNotFound rid)
       | Some s \<Rightarrow> (case ReadAt (files c) s (Offset loc) of
           Inl err \<Rightarrow> Inl (ErrRead err)
         | Inr e \<Rightarrow> if ID e \<noteq> rid then Inl (IntegrityError rid (ID e) (SegmentPath loc) (Offset loc)) else Inr e)))"

text \<open>Without a concurrent compaction the first optimistic read is the one returned.\<close>

definition getStored :: "nat \<Rightarrow> collection \<Rightarrow> (entry \<times> IndexEntry) outcome" where
  "getStored rid c =
     (let found = idxGet (index c) rid;
          seg = (case found of None \<Rightarrow> None | Some loc \<Rightarrow> segmentByPathLocked c (SegmentPath loc))
      in case now c of (t, c) \<Rightarrow>
        (case (readLocated c rid found seg t, found) of
           (Inl err, _) \<Rightarrow> (Inl err, c)
         | (Inr e, Some loc) \<Rightarrow> (Inr (e, loc), c)
         | (Inr e, None) \<Rightarrow> (Inl (ErrNotFound rid), c)))"

definition string_key :: "gmap option \<Rightarrow> string" where
  "string_key data = (case field_of KeyField data of Some (JStr k) \<Rightarrow> k | _ \<Rightarrow> [])"

definition Get :: "nat \<Rightarrow> collection \<Rightarrow> Record outcome" where
  "Get rid c = (case checkFenced c of
     Some err \<Rightarrow> (Inl err, c)
   | None \<Rightarrow> (case getStored rid c of
       (Inl err, c) \<Rightarrow> (Inl err, c)
     | (Inr (e, loc), c) \<Rightarrow>
         (Inr \<lparr>rID = rid, rKey = string_key (Data e), rRev = IRev loc, rTs = Ts e, rData = Data e\<rparr>, c)))"

definition GetByKey :: "string \<Rightarrow> collection \<Rightarrow> Record outcome" where
  "GetByKey key c = (case resolveKey key c of
     (Inl err, c) \<Rightarrow> (Inl err, c)
   | (Inr rid, c) \<Rightarrow> (case Get rid c of
       (Inl err, c) \<Rightarrow> (Inl err, c)
     | (Inr r, c) \<Rightarrow> if rKey r \<noteq> [] \<and> rKey r \<noteq> key then (Inl ErrIndexCorrupt, c) else (Inr r, c)))"

definition FindByID :: "nat \<Rightarrow> collection \<Rightarrow> (gmap option \<times> time) outcome" where
  "FindByID rid c = (case Get rid c of
     (Inl err, c) \<Rightarrow> (Inl err, c)
   | (Inr r, c) \<Rightarrow> (Inr (rData r, rTs r), c))"

definition FindByKey :: "string \<Rightarrow> collection \<Rightarrow> (gmap option \<times> time) outcome" where
  "FindByKey key c = (case resolveKey key c of
     (Inl err, c) \<Rightarrow> (Inl err, c)
   | (Inr rid, c) \<Rightarrow> FindByID rid c)"

record CollectionStats =
  stName :: string
  stRecordCount :: nat
  stSegmentCount :: nat
  stSizeBytes :: nat

definition Stats :: "collection \<Rightarrow> CollectionStats" where
  "Stats c = \<lparr>stName = cname c, stRecordCount = idxLen (index c),
     stSegmentCount = length (sealedSegs c) + 1, stSizeBytes = sizeBytesLocked c\<rparr>"

section \<open>Managing indexes\<close>

definition all_segs :: "collection \<Rightarrow> segment list" where
  "all_segs c = sealedSegs c @ [active c]"

text \<open>The coverage is captured without the decision table, as the caller omits it.\<close>

definition persistSecondary :: "SecondaryIndex \<Rightarrow> string \<Rightarrow> decisions \<Rightarrow> string \<Rightarrow> collection \<Rightarrow>
    seg_err option \<times> collection" where
  "persistSecondary s p dec epoch c = (case capture_all (files c) dec epoch (all_segs c) of
     Inl err \<Rightarrow> (Some err, c)
   | Inr cov \<Rightarrow> (case writeFileAtomic p (PersistWithCoverage s cov) c of
       (ok, c) \<Rightarrow> (if ok then None else Some SegWrite, c)))"

definition ensureIndex :: "string \<Rightarrow> bool \<Rightarrow> collection \<Rightarrow> coll_err option \<times> collection" where
  "ensureIndex f u c = (case checkFenced c of
     Some err \<Rightarrow> (Some err, c)
   | None \<Rightarrow>
       if map_of (sidxMap c) f \<noteq> None then (None, c)
       else (case sidx_rebuild (files c) (decs c) (all_segs c) (newSecondaryIndex f u) of
         Inl err \<Rightarrow> (Some (ErrSidx f err), c)
       | Inr s \<Rightarrow>
           (case persistSecondary s (sidxFilePath (cdir c) f) Map.empty [] (c\<lparr>sidxMap := om_ins f s (sidxMap c)\<rparr>) of
              (None, c) \<Rightarrow> (None, c)
            | (Some err, c) \<Rightarrow> (Some (ErrSidx f err), c))))"

definition EnsureIndex :: "string \<Rightarrow> collection \<Rightarrow> coll_err option \<times> collection" where
  "EnsureIndex f c = ensureIndex f False c"

definition EnsureUniqueIndex :: "string \<Rightarrow> collection \<Rightarrow> coll_err option \<times> collection" where
  "EnsureUniqueIndex f c = ensureIndex f True c"

text \<open>The result of removing the file is ignored.\<close>

definition DropIndex :: "string \<Rightarrow> collection \<Rightarrow> coll_err option \<times> collection" where
  "DropIndex f c = (case checkFenced c of
     Some err \<Rightarrow> (Some err, c)
   | None \<Rightarrow>
       if map_of (sidxMap c) f = None then (Some (ErrIndexNotFound f), c)
       else (case sys_next (c\<lparr>sidxMap := om_del f (sidxMap c)\<rparr>) of (r, c) \<Rightarrow>
         (None, if sr_ok r then c\<lparr>files := om_del (sidxFilePath (cdir c) f) (files c)\<rparr> else c)))"

section \<open>Keyed writes\<close>

definition ensureKeyIndex :: "collection \<Rightarrow> coll_err option \<times> collection" where
  "ensureKeyIndex c = EnsureUniqueIndex KeyField c"

definition InsertWithKey :: "string \<Rightarrow> gmap option \<Rightarrow> collection \<Rightarrow> (nat \<times> time) committed" where
  "InsertWithKey key data c =
     (if has_key data then (Inl ErrReservedField, c)
      else case ensureKeyIndex c of
        (Some err, c) \<Rightarrow> (Inl err, c)
      | (None, c) \<Rightarrow> (case keyConflict c of
          Some err \<Rightarrow> (Inl err, c)
        | None \<Rightarrow> (case resolveInsertExpiry zero_time c of (ex, c) \<Rightarrow> insert_c (stampKey data key) ex c)))"

definition UpdateByKey :: "string \<Rightarrow> gmap option \<Rightarrow> collection \<Rightarrow> time committed" where
  "UpdateByKey key data c =
     (if has_key data then (Inl ErrReservedField, c)
      else case resolveKey key c of
        (Inl err, c) \<Rightarrow> (Inl err, c)
      | (Inr rid, c) \<Rightarrow> update_c rid (stampKey data key) 0 True c)"

definition DeleteByKey :: "string \<Rightarrow> collection \<Rightarrow> unit committed" where
  "DeleteByKey key c = (case resolveKey key c of
     (Inl err, c) \<Rightarrow> (Inl err, c)
   | (Inr rid, c) \<Rightarrow> Delete rid c)"

text \<open>The present or absent decision of an upsert: the entry it will write.\<close>

definition upsert_entry :: "string \<Rightarrow> gmap option \<Rightarrow> time \<Rightarrow> collection \<Rightarrow> entry \<times> collection" where
  "upsert_entry key stamped ts c = (case indexLookup KeyField key c of (ids, c) \<Rightarrow>
     (case Option.bind ids (\<lambda>is. case is of [] \<Rightarrow> None | i # _ \<Rightarrow> map_option (\<lambda>cur. (i, cur)) (idxGet (index c) i)) of
        Some (i, cur) \<Rightarrow>
          ((NewUpdate ts i stamped)\<lparr>Rev := u64 (IRev cur + 1), ExpiresAt := IExpiresAt cur\<rparr>, c)
      | None \<Rightarrow>
          (let i = u64 (idSeq c + 1) in
           case resolveInsertExpiry zero_time (c\<lparr>idSeq := i\<rparr>) of (ex, c) \<Rightarrow>
             ((NewInsert ts i stamped)\<lparr>Rev := 1, ExpiresAt := ex\<rparr>, c))))"

definition Upsert :: "string \<Rightarrow> gmap option \<Rightarrow> collection \<Rightarrow> Record committed" where
  "Upsert key data c =
     (if has_key data then (Inl ErrReservedField, c)
      else case ensureKeyIndex c of
        (Some err, c) \<Rightarrow> (Inl err, c)
      | (None, c) \<Rightarrow> (case keyConflict c of
        Some err \<Rightarrow> (Inl err, c)
      | None \<Rightarrow>
        (let stamped = stampKey data key in
         case wall_now c of (ts, c) \<Rightarrow>
         case checkFenced c of
           Some err \<Rightarrow> (Inl err, c)
         | None \<Rightarrow> (case upsert_entry key stamped ts c of (e, c) \<Rightarrow>
           (case (if Op e = OpInsert then checkQuotaLocked c 1 (entryQuotaBytes c e) else None) of
             Some err \<Rightarrow> (Inl err, c)
           | None \<Rightarrow> (case sidxCheckUnique (ID e) stamped c of
             (Some err, c) \<Rightarrow> (Inl err, c)
           | (None, c) \<Rightarrow> (case append_commit ''upsert'' e c of
             (Inl err, c) \<Rightarrow> (Inl err, c)
           | (Inr offset, c) \<Rightarrow>
             (let c = index_set offset e c;
                  c = publishCommit e
                    (if Op e = OpInsert then sidxIndexEntry (ID e) stamped c else sidxUpdateEntry (ID e) stamped c) in
              case afterCommit ''upsert'' \<lparr>wOp = Op e, wID = ID e, wData = stamped, wTs = ts\<rparr> (needRotate c) c of
                (post, c) \<Rightarrow>
                  (Inr (\<lparr>rID = ID e, rKey = key, rRev = Rev e, rTs = ts, rData = stamped\<rparr>, post), c)))))))))"

section \<open>Compare and swap\<close>

text \<open>The current entry of a key and its location, read under the lock; \<open>None\<close> when no live record
  carries the key.\<close>

definition cas_current :: "string \<Rightarrow> collection \<Rightarrow> (entry \<times> IndexEntry) option outcome" where
  "cas_current key c = (case indexLookup KeyField key c of
     (Some (i # _), c) \<Rightarrow> (case idxGet (index c) i of
       None \<Rightarrow> (Inr None, c)
     | Some loc \<Rightarrow> (case segmentByPathLocked c (SegmentPath loc) of
         None \<Rightarrow> (Inl (ErrSegmentNotFound i), c)
       | Some s \<Rightarrow> (case ReadAt (files c) s (Offset loc) of
           Inl err \<Rightarrow> (Inl (ErrRead err), c)
         | Inr e \<Rightarrow>
             if ID e \<noteq> i then (Inl (IntegrityError i (ID e) (SegmentPath loc) (Offset loc)), c)
             else (Inr (Some (e, loc)), c))))
   | (_, c) \<Rightarrow> (Inr None, c))"

definition compareAndSwap ::
  "string \<Rightarrow> gmap option \<Rightarrow> (gmap option \<Rightarrow> nat \<Rightarrow> bool) \<Rightarrow> collection \<Rightarrow> bool committed" where
  "compareAndSwap key data ok c =
     (case now c of (ts, c) \<Rightarrow>
      case checkFenced c of
        Some err \<Rightarrow> (Inl err, c)
      | None \<Rightarrow> (case keyConflict c of
        Some err \<Rightarrow> (Inl err, c)
      | None \<Rightarrow> (case cas_current key c of
        (Inl err, c) \<Rightarrow> (Inl err, c)
      | (Inr None, c) \<Rightarrow> (Inr (False, None), c)
      | (Inr (Some (cur, loc)), c) \<Rightarrow>
          if \<not> ok (Data cur) (IRev loc) then (Inr (False, None), c)
          else
            (let rid = ID cur; stamped = stampKey data key;
                 e = (NewUpdate ts rid stamped)\<lparr>Rev := u64 (IRev loc + 1), ExpiresAt := IExpiresAt loc\<rparr>
             in case sidxCheckUnique rid stamped c of
               (Some err, c) \<Rightarrow> (Inl err, c)
             | (None, c) \<Rightarrow> (case append_commit ''cas'' e c of
               (Inl err, c) \<Rightarrow> (Inl err, c)
             | (Inr offset, c) \<Rightarrow>
               (let c = publishCommit e (sidxUpdateEntry rid stamped (index_set offset e c)) in
                case afterCommit ''cas'' \<lparr>wOp = OpUpdate, wID = rid, wData = stamped, wTs = ts\<rparr> (needRotate c) c of
                  (post, c) \<Rightarrow> (Inr (True, post), c)))))))"

definition UpdateIfRev :: "string \<Rightarrow> nat \<Rightarrow> gmap option \<Rightarrow> collection \<Rightarrow> bool committed" where
  "UpdateIfRev key expectedRev data c =
     (if has_key data then (Inl ErrReservedField, c)
      else compareAndSwap key data (\<lambda>_ curRev. curRev = expectedRev) c)"

definition UpdateIfMatch :: "string \<Rightarrow> (gmap option \<Rightarrow> bool) \<Rightarrow> gmap option \<Rightarrow> collection \<Rightarrow> bool committed" where
  "UpdateIfMatch key pred data c =
     (if has_key data then (Inl ErrReservedField, c) else compareAndSwap key data (\<lambda>cur _. pred cur) c)"

section \<open>The reaper\<close>

definition fatal :: "coll_err \<Rightarrow> bool" where
  "fatal err = (case err of ErrWriteOutcomeUnknown _ _ \<Rightarrow> True | ErrCollectionFenced \<Rightarrow> True | _ \<Rightarrow> False)"

text \<open>The tombstones appended, and the error that stopped the pass; \<open>Inl\<close> ends it at once.\<close>

fun reap_append :: "int \<Rightarrow> nat list \<Rightarrow> collection \<Rightarrow> (entry list \<times> coll_err option) outcome" where
  "reap_append t [] c = (Inr ([], None), c)"
| "reap_append t (i # is) c = (case idxGet (index c) i of
     None \<Rightarrow> reap_append t is c
   | Some loc \<Rightarrow>
       if \<not> expired (IExpiresAt loc) t then reap_append t is c
       else (case appendLocked ''reap'' (NewDelete t i) c of
         (Inl err, c) \<Rightarrow> if fatal err then (Inl err, c) else (Inr ([], Some err), c)
       | (Inr _, c) \<Rightarrow> (case reap_append t is c of
           (Inl err, c) \<Rightarrow> (Inl err, c)
         | (Inr (es, stop), c) \<Rightarrow> (Inr (NewDelete t i # es, stop), c))))"

definition reap_apply :: "entry \<Rightarrow> collection \<Rightarrow> collection" where
  "reap_apply e c = publishCommit e (sidxRemoveEntry (ID e) (c\<lparr>index := idxDelete (index c) (ID e)\<rparr>))"

definition expired_ids :: "collection \<Rightarrow> int \<Rightarrow> nat list" where
  "expired_ids c t = map fst (List.filter (\<lambda>(_, loc). expired (IExpiresAt loc) t) (ientries (index c)))"

definition reapExpired :: "collection \<Rightarrow> coll_err option \<times> collection" where
  "reapExpired c = (case checkFenced c of
     Some err \<Rightarrow> (Some err, c)
   | None \<Rightarrow> (case now c of (t, c) \<Rightarrow>
       if expired_ids c t = [] then (None, c)
       else (case reap_append t (expired_ids c t) c of
         (Inl err, c) \<Rightarrow> (Some err, c)
       | (Inr (es, stop), c) \<Rightarrow>
           if es = [] then (stop, c)
           else (case syncCommitLocked ''reap'' c of
             (Some err, c) \<Rightarrow> (Some err, c)
           | (None, c) \<Rightarrow>
               (let c = fold reap_apply es c; need = needRotate c;
                    c = fold (\<lambda>e. emit \<lparr>wOp = OpDelete, wID = ID e, wData = None, wTs = Ts e\<rparr>) es c
                in case rotate_post ''reap'' need c of
                  (Some err, c) \<Rightarrow> (Some err, c)
                | (None, c) \<Rightarrow> (stop, c))))))"

section \<open>Batches\<close>

datatype batchRoute = batchRouteLegacy | batchRouteAtomic

text \<open>\<open>cdb\<close> is \<open>None\<close> for a collection opened without a database, and otherwise says whether the
  database has a transaction journal.\<close>

definition routeBatch :: "collection \<Rightarrow> nat \<Rightarrow> coll_err + batchRoute" where
  "routeBatch c n =
     (if n < 2 then Inr batchRouteLegacy
      else case cdb c of
        None \<Rightarrow> if AllowNonAtomicBatch (cfg c) then Inr batchRouteLegacy else Inl ErrBatchNotAtomic
      | Some journal \<Rightarrow> Inr (if journal then batchRouteAtomic else batchRouteLegacy))"

datatype txOpKind = txOpInsert | txOpUpdate | txOpDelete

record txOp =
  tkind :: txOpKind
  tid :: nat
  tdata :: "gmap option"
  tts :: time

type_synonym claims = "string \<times> string \<rightharpoonup> nat"

text \<open>One operation against every unique index: committed holders first, then earlier claims of the
  batch.\<close>

fun claim_fields :: "collection \<Rightarrow> int \<Rightarrow> txOp \<Rightarrow> (string \<times> SecondaryIndex) list \<Rightarrow> claims \<Rightarrow> coll_err + claims" where
  "claim_fields c t x [] cl = Inr cl"
| "claim_fields c t x ((f, s) # fs) cl =
     (case (unique s, field_of f (tdata x)) of
        (True, Some v) \<Rightarrow>
          if \<not> accepts s v then claim_fields c t x fs cl
          else let key = toIndexKey v in
            if sidxConflict c s key (tid x) t then Inl (ErrDuplicateKey f key)
            else (case cl (f, key) of
              Some prev \<Rightarrow> if prev \<noteq> tid x then Inl (ErrDuplicateKey f key)
                else claim_fields c t x fs (cl((f, key) \<mapsto> tid x))
            | None \<Rightarrow> claim_fields c t x fs (cl((f, key) \<mapsto> tid x)))
      | _ \<Rightarrow> claim_fields c t x fs cl)"

fun claim_ops :: "collection \<Rightarrow> int \<Rightarrow> txOp list \<Rightarrow> claims \<Rightarrow> coll_err option" where
  "claim_ops c t [] cl = None"
| "claim_ops c t (x # xs) cl =
     (if tkind x = txOpDelete then claim_ops c t xs cl
      else case claim_fields c t x (sidxMap c) cl of
        Inl err \<Rightarrow> Some err
      | Inr cl' \<Rightarrow> claim_ops c t xs cl')"

definition txCheckUnique :: "txOp list \<Rightarrow> collection \<Rightarrow> coll_err option \<times> collection" where
  "txCheckUnique ops c = (case now c of (t, c) \<Rightarrow> (claim_ops c t ops Map.empty, c))"

text \<open>Truncating the active segment back; a failed truncation poisons it and fences the
  collection.\<close>

definition rollback_active :: "nat \<Rightarrow> collection \<Rightarrow> seg_err option \<times> collection" where
  "rollback_active n c = (case sys_next c of (r, c) \<Rightarrow>
     case rollback (io_trunc (sr_io r)) (files c) (active c) n of (res, d, s) \<Rightarrow>
     let c' = c\<lparr>files := d, active := s\<rparr> in
     (res, if poisoned s \<and> \<not> poisoned (active c) then fence ''truncate'' (CauseSeg ErrSegmentPoisoned) c' else c'))"

fun rebuild_all :: "collection \<Rightarrow> (string \<times> SecondaryIndex) list \<Rightarrow> seg_err option \<times> (string \<times> SecondaryIndex) list" where
  "rebuild_all c [] = (None, [])"
| "rebuild_all c ((f, s) # fs) = (case sidx_rebuild (files c) (decs c) (all_segs c) s of
     Inl err \<Rightarrow> (Some err, (f, s) # fs)
   | Inr s' \<Rightarrow> (case rebuild_all c fs of (r, fs') \<Rightarrow> (r, (f, s') # fs')))"

definition restore_entry :: "nat \<times> IndexEntry option \<Rightarrow> Index \<Rightarrow> Index" where
  "restore_entry x idx = (case x of
     (i, None) \<Rightarrow> idxDelete idx i
   | (i, Some e) \<Rightarrow> if SegmentPath e = [] then idxDelete idx i else idxSet idx i e)"

definition rollbackBatchLocked ::
  "nat \<Rightarrow> nat list \<Rightarrow> (nat \<times> IndexEntry option) list \<Rightarrow> collection \<Rightarrow> coll_err option \<times> collection" where
  "rollbackBatchLocked startSize inserted before c = (case rollback_active startSize c of
     (Some err, c) \<Rightarrow> (Some (ErrRollback err), c)
   | (None, c) \<Rightarrow>
       (let idx = fold restore_entry before (fold (\<lambda>i idx. idxDelete idx i) inserted (index c));
            c = c\<lparr>index := idx\<rparr>
        in case rebuild_all c (sidxMap c) of (r, m) \<Rightarrow>
          (map_option ErrRollback r, c\<lparr>sidxMap := m\<rparr>)))"

text \<open>Giving up a batch: the error is returned with the outcome of the rollback.\<close>

definition abort_batch ::
  "seg_err \<Rightarrow> nat \<Rightarrow> nat list \<Rightarrow> (nat \<times> IndexEntry option) list \<Rightarrow> collection \<Rightarrow> coll_err \<times> collection" where
  "abort_batch err startSize inserted before c =
     (case rollbackBatchLocked startSize inserted before c of (r, c) \<Rightarrow> (ErrBatch err r, c))"

fun assign_ids :: "time \<Rightarrow> int \<Rightarrow> gmap option list \<Rightarrow> collection \<Rightarrow> entry list \<times> collection" where
  "assign_ids ts ex [] c = ([], c)"
| "assign_ids ts ex (d # ds) c =
     (let i = u64 (idSeq c + 1) in
      case assign_ids ts ex ds (c\<lparr>idSeq := i\<rparr>) of (es, c) \<Rightarrow>
        ((NewInsert ts i d)\<lparr>Rev := 1, ExpiresAt := ex\<rparr> # es, c))"

text \<open>The append loop of a batch of inserts; the error comes with the ids already appended.\<close>

fun insert_entries :: "nat list \<Rightarrow> entry list \<Rightarrow> collection \<Rightarrow> (seg_err \<times> nat list) option \<times> collection" where
  "insert_entries done [] c = (None, c)"
| "insert_entries done (e # es) c = (case append_active e c of
     (Inl err, c) \<Rightarrow> (Some (err, done), c)
   | (Inr offset, c) \<Rightarrow>
       insert_entries (done @ [ID e]) es (sidxIndexEntry (ID e) (Data e) (index_set offset e c)))"

definition insertManyLegacy :: "gmap option list \<Rightarrow> int \<Rightarrow> time \<Rightarrow> collection \<Rightarrow> (nat list \<times> time) committed" where
  "insertManyLegacy records ex ts c =
     (case assign_ids ts ex records c of (es, c) \<Rightarrow>
      let ops = map (\<lambda>e. \<lparr>tkind = txOpInsert, tid = ID e, tdata = Data e, tts = ts\<rparr>) es;
          newBytes = sum_list (map (entryQuotaBytes c) es);
          ids = map ID es
      in case checkFenced c of
        Some err \<Rightarrow> (Inl err, c)
      | None \<Rightarrow> let startSize = segsize (active c) in (case checkQuotaLocked c (length records) newBytes of
        Some err \<Rightarrow> (Inl err, c)
      | None \<Rightarrow> (case txCheckUnique ops c of
        (Some err, c) \<Rightarrow> (Inl err, c)
      | (None, c) \<Rightarrow> (case insert_entries [] es c of
        (Some (err, done), c) \<Rightarrow> (case abort_batch err startSize done [] c of (err', c) \<Rightarrow> (Inl err', c))
      | (None, c) \<Rightarrow> (case syncActiveLocked c of
        (Some err, c) \<Rightarrow> (case abort_batch err startSize ids [] c of (err', c) \<Rightarrow> (Inl err', c))
      | (None, c) \<Rightarrow>
          (let c = fold publishCommit es c; need = needRotate c;
               c = fold (\<lambda>e. emit \<lparr>wOp = OpInsert, wID = ID e, wData = Data e, wTs = ts\<rparr>) es c
           in case rotate_post ''insertMany'' need c of (post, c) \<Rightarrow> (Inr ((ids, ts), post), c)))))))"

text \<open>\<open>InsertMany\<close> up to the choice of route: \<open>Inr\<close> is the route with the deadline and the
  timestamp.\<close>

definition insert_many_route :: "gmap option list \<Rightarrow> time \<Rightarrow> collection \<Rightarrow> (batchRoute \<times> int \<times> time) outcome" where
  "insert_many_route records expiresAt c = (case checkFenced c of
     Some err \<Rightarrow> (Inl err, c)
   | None \<Rightarrow>
       if list_ex has_key records then (Inl ErrReservedField, c)
       else (case now c of (t, c) \<Rightarrow> (case routeBatch c (length records) of
         Inl err \<Rightarrow> (Inl err, c)
       | Inr route \<Rightarrow> (Inr (route, resolveInsertExpiryAt c expiresAt t, t), c))))"

section \<open>Transactions on one collection\<close>

definition ReserveID :: "collection \<Rightarrow> nat \<times> collection" where
  "ReserveID c = (let i = u64 (idSeq c + 1) in (i, c\<lparr>idSeq := i\<rparr>))"

text \<open>The first state of every touched id.\<close>

fun save_before :: "Index \<Rightarrow> txOp list \<Rightarrow> (nat \<times> IndexEntry option) list \<Rightarrow> (nat \<times> IndexEntry option) list" where
  "save_before idx [] acc = acc"
| "save_before idx (x # xs) acc =
     save_before idx xs (if map_of acc (tid x) \<noteq> None then acc else om_ins (tid x) (idxGet idx (tid x)) acc)"

definition tx_missing :: "collection \<Rightarrow> txOp list \<Rightarrow> nat option" where
  "tx_missing c ops = map_option tid
     (List.find (\<lambda>x. tkind x \<noteq> txOpInsert \<and> idxGet (index c) (tid x) = None) ops)"

definition tx_preserve :: "collection \<Rightarrow> txOp \<Rightarrow> txOp" where
  "tx_preserve c x = (if tkind x = txOpUpdate then x\<lparr>tdata := preserveReservedLocked c (tid x) (tdata x)\<rparr> else x)"

definition tx_quota :: "collection \<Rightarrow> int \<Rightarrow> txOp list \<Rightarrow> coll_err option" where
  "tx_quota c t ops =
     (let ins = List.filter (\<lambda>x. tkind x = txOpInsert) ops;
          bytes = (\<lambda>x. entryQuotaBytes c ((NewInsert (tts x) (tid x) (tdata x))
            \<lparr>Rev := 1, ExpiresAt := resolveInsertExpiryAt c zero_time t\<rparr>))
      in if \<not> quotaEnabled c \<or> ins = [] then None
         else checkQuotaLocked c (length ins) (sum_list (map bytes ins)))"

definition tx_entry :: "collection \<Rightarrow> int \<Rightarrow> txOp \<Rightarrow> entry" where
  "tx_entry c t x = (case tkind x of
     txOpInsert \<Rightarrow> (NewInsert (tts x) (tid x) (tdata x))
       \<lparr>Rev := 1, ExpiresAt := resolveInsertExpiryAt c zero_time t\<rparr>
   | txOpUpdate \<Rightarrow> (case idxGet (index c) (tid x) of
       Some cur \<Rightarrow> (NewUpdate (tts x) (tid x) (tdata x))\<lparr>Rev := u64 (IRev cur + 1), ExpiresAt := IExpiresAt cur\<rparr>
     | None \<Rightarrow> (NewUpdate (tts x) (tid x) (tdata x))\<lparr>Rev := 1\<rparr>)
   | txOpDelete \<Rightarrow> NewDelete (tts x) (tid x))"

definition tx_apply_one :: "txOp \<Rightarrow> nat \<Rightarrow> entry \<Rightarrow> collection \<Rightarrow> collection" where
  "tx_apply_one x offset e c = (case tkind x of
     txOpInsert \<Rightarrow> sidxIndexEntry (tid x) (tdata x) (index_set offset e c)
   | txOpUpdate \<Rightarrow> sidxUpdateEntry (tid x) (tdata x) (index_set offset e c)
   | txOpDelete \<Rightarrow> sidxRemoveEntry (tid x) (c\<lparr>index := idxDelete (index c) (tid x)\<rparr>))"

fun tx_apply :: "int \<Rightarrow> txOp list \<Rightarrow> collection \<Rightarrow> (seg_err + entry list) \<times> collection" where
  "tx_apply t [] c = (Inr [], c)"
| "tx_apply t (x # xs) c =
     (let e = tx_entry c t x in
      case append_active e c of
        (Inl err, c) \<Rightarrow> (Inl err, c)
      | (Inr offset, c) \<Rightarrow> (case tx_apply t xs (tx_apply_one x offset e c) of
          (Inl err, c) \<Rightarrow> (Inl err, c)
        | (Inr es, c) \<Rightarrow> (Inr (e # es), c)))"

definition tx_event :: "txOp \<Rightarrow> WatchEvent" where
  "tx_event x = (case tkind x of
     txOpInsert \<Rightarrow> \<lparr>wOp = OpInsert, wID = tid x, wData = tdata x, wTs = tts x\<rparr>
   | txOpUpdate \<Rightarrow> \<lparr>wOp = OpUpdate, wID = tid x, wData = tdata x, wTs = tts x\<rparr>
   | txOpDelete \<Rightarrow> \<lparr>wOp = OpDelete, wID = tid x, wData = None, wTs = tts x\<rparr>)"

text \<open>The steps after the commit: events, the id counter, rotation; the first failure is reported.\<close>

definition tx_finish :: "txOp list \<Rightarrow> bool \<Rightarrow> collection \<Rightarrow> coll_err option \<times> collection" where
  "tx_finish ops need c =
     (let c = fold (\<lambda>x. emit (tx_event x)) ops c;
          (metaErr, c) = (if list_ex (\<lambda>x. tkind x = txOpInsert \<and> tid x > 0) ops then writeMeta c else (None, c));
          (rotErr, c) = rotate_post ''commitTx'' need c
      in (if metaErr \<noteq> None then map_option (PostCommitError ''commitTx'' ''meta'') metaErr else rotErr, c))"

definition commitTxLegacy :: "txOp list \<Rightarrow> collection \<Rightarrow> unit committed" where
  "commitTxLegacy ops c = (case checkFenced c of
     Some err \<Rightarrow> (Inl err, c)
   | None \<Rightarrow>
       (let startSize = segsize (active c); before = save_before (index c) ops [] in
        case now c of (t, c) \<Rightarrow>
        (case tx_missing c ops of
          Some i \<Rightarrow> (Inl (ErrTxDeleted i), c)
        | None \<Rightarrow> (case txCheckUnique ops c of
          (Some err, c) \<Rightarrow> (Inl err, c)
        | (None, c) \<Rightarrow>
          (let ops = map (tx_preserve c) ops in
           case tx_quota c t ops of
             Some err \<Rightarrow> (Inl err, c)
           | None \<Rightarrow> (case tx_apply t ops c of
             (Inl err, c) \<Rightarrow> (case abort_batch err startSize [] before c of (err', c) \<Rightarrow> (Inl err', c))
           | (Inr es, c) \<Rightarrow> (case syncActiveLocked c of
             (Some err, c) \<Rightarrow> (case abort_batch err startSize [] before c of (err', c) \<Rightarrow> (Inl err', c))
           | (None, c) \<Rightarrow>
               (let c = fold publishCommit es c in
                case tx_finish ops (needRotate c) c of (post, c) \<Rightarrow> (Inr ((), post), c)))))))))"

section \<open>Persisting the indexes\<close>

text \<open>\<open>snapshotCached\<close>: the coverage of a sealed segment is computed once per path and size.\<close>

fun capture_cached ::
  "disk \<Rightarrow> decisions \<Rightarrow> string \<Rightarrow> (segment \<times> bool) list \<Rightarrow> (string, SegmentCoverage) omap \<Rightarrow>
   (seg_err + SegmentCoverage list) \<times> (string, SegmentCoverage) omap" where
  "capture_cached d dec epoch [] cache = (Inr [], cache)"
| "capture_cached d dec epoch ((s, isSealed) # ss) cache =
     (case (if isSealed then Option.bind (map_of cache (segpath s))
              (\<lambda>cv. if CovSize cv = segsize s then Some cv else None) else None) of
        Some cv \<Rightarrow> (case capture_cached d dec epoch ss cache of
          (Inl err, cache) \<Rightarrow> (Inl err, cache) | (Inr cvs, cache) \<Rightarrow> (Inr (cv # cvs), cache))
      | None \<Rightarrow> (case captureCoverage d dec epoch s of
          Inl err \<Rightarrow> (Inl err, cache)
        | Inr cv \<Rightarrow>
            (case capture_cached d dec epoch ss (if isSealed then om_ins (segpath s) cv cache else cache) of
               (Inl err, cache) \<Rightarrow> (Inl err, cache) | (Inr cvs, cache) \<Rightarrow> (Inr (cv # cvs), cache))))"

definition snapshotCached :: "collection \<Rightarrow> (seg_err + IndexSnapshot) \<times> collection" where
  "snapshotCached c =
     (case capture_cached (files c) (decs c) (cepoch c)
             (map (\<lambda>s. (s, True)) (sealedSegs c) @ [(active c, False)]) (sealedCov c) of
        (Inl err, cache) \<Rightarrow> (Inl err, c\<lparr>sealedCov := cache\<rparr>)
      | (Inr cov, cache) \<Rightarrow>
          (Inr \<lparr>snap_entries = ientries (index c), snap_coverage = sort_key CovSegment cov\<rparr>, c\<lparr>sealedCov := cache\<rparr>))"

fun write_sidx_files :: "SegmentCoverage list \<Rightarrow> (string \<times> SecondaryIndex) list \<Rightarrow> collection \<Rightarrow> bool \<times> collection" where
  "write_sidx_files cov [] c = (True, c)"
| "write_sidx_files cov ((f, s) # fs) c =
     (case writeFileAtomic (sidxFilePath (cdir c) f) (PersistWithCoverage s cov) c of
        (True, c) \<Rightarrow> write_sidx_files cov fs c
      | (False, c) \<Rightarrow> (False, c))"

definition indexPath :: "collection \<Rightarrow> string" where
  "indexPath c = cdir c @ ''/index.json''"

definition persistIndexes :: "collection \<Rightarrow> coll_err option \<times> collection" where
  "persistIndexes c =
     (if checkFenced c \<noteq> None then (None, c)
      else case sync_active c of
        (Some err, c) \<Rightarrow> (Some (ErrSync err), fence ''persist'' (CauseSeg err) c)
      | (None, c) \<Rightarrow> (case snapshotCached c of
          (Inl err, c) \<Rightarrow> (Some (ErrCoverage err), c)
        | (Inr snap, c) \<Rightarrow> (case writeFileAtomic (indexPath c) (Persist (indexPath c) snap) c of
            (False, c) \<Rightarrow> (Some ErrPersist, c)
          | (True, c) \<Rightarrow> (case write_sidx_files (snap_coverage snap) (sidxMap c) c of
              (ok, c) \<Rightarrow> (if ok then None else Some ErrPersist, c)))))"

text \<open>On closing, a failure to write a secondary index is ignored.\<close>

definition close_sidx_files :: "SegmentCoverage list \<Rightarrow> collection \<Rightarrow> collection" where
  "close_sidx_files cov c = fold
     (\<lambda>(f, s) c. snd (writeFileAtomic (sidxFilePath (cdir c) f) (PersistWithCoverage s cov) c)) (sidxMap c) c"

definition CloseC :: "collection \<Rightarrow> coll_err option \<times> collection" where
  "CloseC c =
     (if checkFenced c \<noteq> None then
        (case sys_next c of (r, c) \<Rightarrow>
         case closeNoSync (sr_ok r) (active c) of
           (Some err, s) \<Rightarrow> (Some (ErrClose err), c\<lparr>active := s\<rparr>)
         | (None, s) \<Rightarrow> writeMeta (c\<lparr>active := s\<rparr>))
      else
        (case sys_next c of (r1, c) \<Rightarrow> case sys_next c of (r2, c) \<Rightarrow>
         case CloseSeg (sr_ok r1) (sr_ok r2) (active c) of
           Some err \<Rightarrow> (Some (ErrClose err), c)
         | None \<Rightarrow> (case Snapshot (files c) (decs c) (cepoch c) (all_segs c) (index c) of
             Inl err \<Rightarrow> (Some (ErrCoverage err), c)
           | Inr snap \<Rightarrow> (case writeFileAtomic (indexPath c) (Persist (indexPath c) snap) c of
               (False, c) \<Rightarrow> (Some ErrPersist, c)
             | (True, c) \<Rightarrow> writeMeta (close_sidx_files (snap_coverage snap) c)))))"

end
