(* ===== verification/CollectionInv.thy ===== *)
theory CollectionInv
  imports Collection
begin

text \<open>
  What a collection promises: the map from ids to stored versions that its segment files describe,
  the invariant that ties the in-memory indexes to those files, and the lemmas that every step of a
  write keeps it.  \<open>CollectionOps\<close> draws the contract of each operation from them.
\<close>

named_theorems coll_simps \<open>fields of the collection after the steps of an operation\<close>

section \<open>The stored versions\<close>

text \<open>The current version of every id with its revision.\<close>

type_synonym stored = "nat \<rightharpoonup> entry \<times> nat"

definition next_rev :: "stored \<Rightarrow> entry \<Rightarrow> nat" where
  "next_rev V e =
     (let r = u64 ((case V (ID e) of None \<Rightarrow> 0 | Some (_, r) \<Rightarrow> r) + 1) in if Rev e > r then Rev e else r)"

definition store_step :: "decisions \<Rightarrow> entry \<times> TxStamp option \<Rightarrow> stored \<Rightarrow> stored" where
  "store_step dec x V = (case x of (e, tx) \<Rightarrow>
     if \<not> entryVisible tx dec then V
     else if Op e = OpInsert \<or> Op e = OpUpdate then V(ID e \<mapsto> (e, next_rev V e))
     else if Op e = OpDelete then V(ID e := None)
     else V)"

definition stored_of :: "decisions \<Rightarrow> segrec list \<Rightarrow> stored \<Rightarrow> stored" where
  "stored_of dec rs V = fold (\<lambda>r. store_step dec (rec_view r)) rs V"

lemma stored_of_simps [simp]:
  "stored_of dec [] V = V"
  "stored_of dec (r # rs) V = stored_of dec rs (store_step dec (rec_view r) V)"
  "stored_of dec (rs @ rs') V = stored_of dec rs' (stored_of dec rs V)"
  by (simp_all add: stored_of_def)

section \<open>The index locates the stored versions\<close>

definition located :: "disk \<Rightarrow> string set \<Rightarrow> IndexEntry \<Rightarrow> entry \<times> nat \<Rightarrow> bool" where
  "located d paths loc x = (case x of (e, r) \<Rightarrow>
     SegmentPath loc \<in> paths \<and> (\<forall>s. segpath s = SegmentPath loc \<longrightarrow> ReadAt d s (Offset loc) = Inr e)
     \<and> IExpiresAt loc = ExpiresAt e \<and> IEpoch loc = Epoch e \<and> IRev loc = r)"

definition agree_at :: "disk \<Rightarrow> string set \<Rightarrow> nat \<Rightarrow> IndexEntry option \<Rightarrow> (entry \<times> nat) option \<Rightarrow> bool" where
  "agree_at d paths i loc x = (case loc of
     None \<Rightarrow> x = None
   | Some l \<Rightarrow> (case x of None \<Rightarrow> False | Some (e, r) \<Rightarrow> ID e = i \<and> located d paths l (e, r)))"

definition agrees :: "disk \<Rightarrow> string set \<Rightarrow> locs \<Rightarrow> stored \<Rightarrow> bool" where
  "agrees d paths m V \<longleftrightarrow> (\<forall>i. agree_at d paths i (map_of m i) (V i))"

lemma agrees_rev: "agrees d paths m V \<Longrightarrow>
   (case map_of m i of None \<Rightarrow> 0 | Some ie \<Rightarrow> IRev ie) = (case V i of None \<Rightarrow> 0 | Some (_, r) \<Rightarrow> r)"
  unfolding agrees_def by (drule spec [of _ i]) (auto simp: agree_at_def located_def split: option.splits)

lemma agrees_ins:
  assumes "om_ok m" "agrees d paths m V" "located d paths loc (e, r)"
  shows "agrees d paths (om_ins (ID e) loc m) (V(ID e \<mapsto> (e, r)))"
  using assms by (simp add: agrees_def omap_simps) (simp add: agree_at_def)

lemma agrees_del: "om_ok m \<Longrightarrow> agrees d paths m V \<Longrightarrow> agrees d paths (om_del i m) (V(i := None))"
  by (simp add: agrees_def omap_simps) (simp add: agree_at_def)

lemma agrees_applyOne:
  assumes ok: "om_ok m" and ag: "agrees d paths m V" and p: "p \<in> paths"
    and rd: "\<And>s. segpath s = p \<Longrightarrow> ReadStampedAt d s off = Inr (e, tx)"
  shows "agrees d paths (apply_scanned dec p (off, e, tx) m) (store_step dec (e, tx) V)"
proof (cases "entryVisible tx dec")
  case False
  then show ?thesis using ag by (simp add: apply_scanned_def store_step_def)
next
  case True
  define loc where "loc = \<lparr>SegmentPath = p, Offset = off, IRev = next_rev V e, IExpiresAt = ExpiresAt e, IEpoch = Epoch e\<rparr>"
  have "located d paths loc (e, next_rev V e)"
    using p rd by (simp add: located_def loc_def ReadAt_def)
  then have i: "agrees d paths (om_ins (ID e) loc m) (V(ID e \<mapsto> (e, next_rev V e)))"
    by (rule agrees_ins [OF ok ag])
  have "loc = (let rev1 = u64 ((case map_of m (ID e) of None \<Rightarrow> 0 | Some ie \<Rightarrow> IRev ie) + 1);
        rev2 = (if Rev e > rev1 then Rev e else rev1)
      in \<lparr>SegmentPath = p, Offset = off, IRev = rev2, IExpiresAt = ExpiresAt e, IEpoch = Epoch e\<rparr>)"
    by (simp add: loc_def next_rev_def agrees_rev [OF ag] Let_def)
  then have "apply_scanned dec p (off, e, tx) m = (if Op e = OpInsert \<or> Op e = OpUpdate then om_ins (ID e) loc m
      else if Op e = OpDelete then om_del (ID e) m else m)"
    using True by (simp add: apply_scanned_def applyOne_def Let_def)
  then show ?thesis using True i ag agrees_del [OF ok ag] by (simp add: store_step_def)
qed

lemma agrees_replay:
  assumes "list_all rec_ok rs" "map_of d p = Some (a @ file_of rec_line rs)" "p \<in> paths" "om_ok m" "agrees d paths m V"
  shows "agrees d paths (replay_recs dec p (length a) rs m) (stored_of dec rs V)"
  using assms
proof (induction rs arbitrary: a m V)
  case (Cons r rs)
  obtain e tx where v: "rec_view r = (e, tx)" by force
  have "ReadStampedAt d s (length a) = Inr (e, tx)" if "segpath s = p" for s
    using seg.read_at [OF Cons.prems(1), of d s a] Cons.prems(2) that v by simp
  then have "agrees d paths (apply_scanned dec p (length a, e, tx) m) (store_step dec (e, tx) V)"
    by (rule agrees_applyOne [OF Cons.prems(4,5,3)])
  then show ?case
    using Cons.IH [of "a @ rec_line r @ [NL]"] Cons.prems v by (simp add: add.assoc)
qed simp

lemma agrees_empty: "agrees d paths [] Map.empty"
  by (simp add: agrees_def agree_at_def)

lemma agrees_replay_all:
  assumes "segs_hold d srs" "segpath ` fst ` set srs \<subseteq> paths" "om_ok m" "agrees d paths m V"
  shows "agrees d paths (replay_all dec srs m) (stored_of dec (concat (map snd srs)) V)"
  using assms
proof (induction srs arbitrary: m V)
  case (Cons x srs)
  obtain s rs where x: "x = (s, rs)" by force
  have "agrees d paths (replay_recs dec (segpath s) 0 rs m) (stored_of dec rs V)"
    using agrees_replay [of rs d "segpath s" "[]" paths m V dec] Cons.prems by (auto simp: x segs_hold_def)
  then show ?case
    using Cons.IH [of "replay_recs dec (segpath s) 0 rs m" "stored_of dec rs V"] Cons.prems
    by (simp add: x segs_hold_def)
qed simp

section \<open>The invariant\<close>

text \<open>What a secondary index of the collection should index.\<close>

definition field_view :: "SecondaryIndex \<Rightarrow> stored \<Rightarrow> fieldview" where
  "field_view s V i = (case V i of None \<Rightarrow> None | Some (e, _) \<Rightarrow> rec_value s (Some (Data e)))"

definition segs_ok :: "collection \<Rightarrow> (segment \<times> segrec list) list \<Rightarrow> segrec list \<Rightarrow> bool" where
  "segs_ok c srs rs \<longleftrightarrow> map fst srs = sealedSegs c \<and> segs_hold (files c) srs
     \<and> (\<forall>(s, rs')\<in>set srs. segsize s = length (file_of rec_line rs'))
     \<and> seg_holds (files c) (active c) rs \<and> \<not> sealed (active c) \<and> hasfile (active c)"

text \<open>Segment files are numbered in order, and there are no others.\<close>

abbreviation seg_glob :: "string \<Rightarrow> string \<Rightarrow> bool" where
  "seg_glob dir \<equiv> glob_match dir ''seg_'' ''.ndjson''"

definition paths_ok :: "collection \<Rightarrow> bool" where
  "paths_ok c \<longleftrightarrow>
     (\<exists>ns. sorted_wrt (<) ns \<and> (\<forall>n\<in>set ns. n \<le> segSeq c) \<and> map segpath (all_segs c) = map (segmentPath c) ns)
     \<and> segSeq c < 2 ^ 64 \<and> (\<forall>p. seg_glob (cdir c) p \<and> map_of (files c) p \<noteq> None \<longrightarrow> p \<in> segpath ` set (all_segs c))"

definition index_ok :: "collection \<Rightarrow> (segment \<times> segrec list) list \<Rightarrow> segrec list \<Rightarrow> bool" where
  "index_ok c srs rs \<longleftrightarrow> ientries (index c) = replay_all (decs c) (srs @ [(active c, rs)]) []"

definition sidxs_ok :: "collection \<Rightarrow> stored \<Rightarrow> bool" where
  "sidxs_ok c V \<longleftrightarrow> om_ok (sidxMap c)
     \<and> (\<forall>f s. map_of (sidxMap c) f = Some s \<longrightarrow> sfield s = f \<and> sidx_ok s (field_view s V))"

definition ids_ok :: "collection \<Rightarrow> segrec list \<Rightarrow> bool" where
  "ids_ok c rs \<longleftrightarrow> is_u64 (idSeq c) \<and> (\<forall>r\<in>set rs. ID (fst (rec_view r)) \<le> idSeq c)"

abbreviation all_recs :: "(segment \<times> segrec list) list \<Rightarrow> segrec list \<Rightarrow> segrec list" where
  "all_recs srs rs \<equiv> concat (map snd srs) @ rs"

definition coll_holds :: "collection \<Rightarrow> (segment \<times> segrec list) list \<Rightarrow> segrec list \<Rightarrow> bool" where
  "coll_holds c srs rs \<longleftrightarrow> segs_ok c srs rs \<and> paths_ok c \<and> index_ok c srs rs
     \<and> sidxs_ok c (stored_of (decs c) (all_recs srs rs) Map.empty) \<and> ids_ok c (all_recs srs rs)"

text \<open>The collection stores the versions \<open>V\<close>.\<close>

definition coll_inv :: "collection \<Rightarrow> stored \<Rightarrow> bool" where
  "coll_inv c V \<longleftrightarrow> (\<exists>srs rs. coll_holds c srs rs \<and> V = stored_of (decs c) (all_recs srs rs) Map.empty)"

lemmas holds_defs = coll_holds_def segs_ok_def paths_ok_def index_ok_def sidxs_ok_def ids_ok_def

lemma all_segs_simps [coll_simps]:
  "all_segs (c\<lparr>ticks := a\<rparr>) = all_segs c" "all_segs (c\<lparr>clockFloor := f\<rparr>) = all_segs c"
  "all_segs (c\<lparr>calls := k\<rparr>) = all_segs c" "all_segs (c\<lparr>idSeq := n\<rparr>) = all_segs c"
  "all_segs (c\<lparr>index := ix\<rparr>) = all_segs c" "all_segs (c\<lparr>sidxMap := sm\<rparr>) = all_segs c"
  "all_segs (c\<lparr>broker := b\<rparr>) = all_segs c" "all_segs (c\<lparr>watchers := w\<rparr>) = all_segs c"
  "all_segs (c\<lparr>files := d\<rparr>) = all_segs c" "all_segs (c\<lparr>fenced := fc\<rparr>) = all_segs c"
  by (simp_all add: all_segs_def)

lemma segmentPath_simps [coll_simps]:
  "segmentPath (c\<lparr>ticks := a\<rparr>) = segmentPath c" "segmentPath (c\<lparr>clockFloor := f\<rparr>) = segmentPath c"
  "segmentPath (c\<lparr>calls := k\<rparr>) = segmentPath c" "segmentPath (c\<lparr>idSeq := n\<rparr>) = segmentPath c"
  "segmentPath (c\<lparr>index := ix\<rparr>) = segmentPath c" "segmentPath (c\<lparr>sidxMap := sm\<rparr>) = segmentPath c"
  "segmentPath (c\<lparr>broker := b\<rparr>) = segmentPath c" "segmentPath (c\<lparr>watchers := w\<rparr>) = segmentPath c"
  "segmentPath (c\<lparr>files := d\<rparr>) = segmentPath c" "segmentPath (c\<lparr>active := s\<rparr>) = segmentPath c"
  "segmentPath (c\<lparr>sealedSegs := ss\<rparr>) = segmentPath c" "segmentPath (c\<lparr>segSeq := m\<rparr>) = segmentPath c"
  "segmentPath (c\<lparr>fenced := fc\<rparr>) = segmentPath c"
  by (simp_all add: segmentPath_def fun_eq_iff)

text \<open>The invariant does not look at the clock, the call counter, the subscribers or the feed.\<close>

lemma coll_holds_frame [simp]:
  "coll_holds (c\<lparr>ticks := a\<rparr>) srs rs = coll_holds c srs rs"
  "coll_holds (c\<lparr>clockFloor := f\<rparr>) srs rs = coll_holds c srs rs"
  "coll_holds (c\<lparr>calls := k\<rparr>) srs rs = coll_holds c srs rs"
  "coll_holds (c\<lparr>broker := b\<rparr>) srs rs = coll_holds c srs rs"
  "coll_holds (c\<lparr>watchers := w\<rparr>) srs rs = coll_holds c srs rs"
  "coll_holds (c\<lparr>fenced := fc\<rparr>) srs rs = coll_holds c srs rs"
  by (simp_all add: holds_defs coll_simps)

lemma coll_inv_frame [simp]:
  "coll_inv (c\<lparr>ticks := a\<rparr>) V = coll_inv c V" "coll_inv (c\<lparr>clockFloor := f\<rparr>) V = coll_inv c V"
  "coll_inv (c\<lparr>calls := k\<rparr>) V = coll_inv c V" "coll_inv (c\<lparr>broker := b\<rparr>) V = coll_inv c V"
  "coll_inv (c\<lparr>watchers := w\<rparr>) V = coll_inv c V" "coll_inv (c\<lparr>fenced := fc\<rparr>) V = coll_inv c V"
  by (simp_all add: coll_inv_def)

lemma coll_holds_idSeq:
  "coll_holds c srs rs \<Longrightarrow> idSeq c \<le> n \<Longrightarrow> is_u64 n \<Longrightarrow> coll_holds (c\<lparr>idSeq := n\<rparr>) srs rs"
  by (simp add: holds_defs coll_simps) (meson order_trans)

lemma coll_inv_idSeq: "coll_inv c V \<Longrightarrow> idSeq c \<le> n \<Longrightarrow> is_u64 n \<Longrightarrow> coll_inv (c\<lparr>idSeq := n\<rparr>) V"
  unfolding coll_inv_def using coll_holds_idSeq by fastforce

lemma coll_agrees:
  assumes "coll_holds c srs rs"
  shows "agrees (files c) (segpath ` set (all_segs c)) (ientries (index c))
    (stored_of (decs c) (all_recs srs rs) Map.empty)"
proof -
  have s: "segs_ok c srs rs" "index_ok c srs rs" using assms by (simp_all add: coll_holds_def)
  have h: "segs_hold (files c) (srs @ [(active c, rs)])"
    using s(1) by (auto simp: segs_ok_def segs_hold_def seg_holds_def)
  have "segpath ` fst ` set (srs @ [(active c, rs)]) \<subseteq> segpath ` set (all_segs c)"
    using s(1) by (auto simp: segs_ok_def all_segs_def simp flip: set_map)
  then show ?thesis
    using agrees_replay_all [OF h _ _ agrees_empty] s(2) by (simp add: index_ok_def)
qed

section \<open>The steps of a write\<close>

lemma now_eq [coll_simps]:
  "now c = (max (clockFloor c) (wall c (ticks c)),
     c\<lparr>ticks := Suc (ticks c), clockFloor := max (clockFloor c) (wall c (ticks c))\<rparr>)"
  by (cases c) (auto simp: now_def wall_now_def max_def)

lemma same_files [coll_simps]: "c\<lparr>calls := k, files := files c, active := active c\<rparr> = c\<lparr>calls := k\<rparr>"
  by (cases c) simp

text \<open>An entry that can be encoded but for its timestamp, whose year may be out of range.\<close>

definition writable :: "entry \<Rightarrow> bool" where
  "writable e \<longleftrightarrow> is_u64 (ID e) \<and> valid_utf8 (Op e) \<and> is_u64 (Rev e) \<and> data_ok (Data e)
     \<and> is_u64 (Epoch e) \<and> is_i64 (ExpiresAt e)"

lemma Encode_bad_time: "fmt_time (Ts e) = None \<Longrightarrow> \<exists>err. Encode e = Inl err"
  by (auto simp: Encode_def entry_json_def split: option.splits)

text \<open>The collection after \<open>e\<close> was appended to its active segment, at the \<open>k\<close>-th file operation.\<close>

definition appended :: "collection \<Rightarrow> segrec list \<Rightarrow> entry \<Rightarrow> nat \<Rightarrow> collection" where
  "appended c rs e k = c\<lparr>calls := k,
     files := om_ins (segpath (active c)) (file_of rec_line (rs @ [Plain e])) (files c),
     active := (active c)\<lparr>segsize := length (file_of rec_line (rs @ [Plain e]))\<rparr>\<rparr>"

text \<open>The collection after an append of \<open>e\<close> left only its first \<open>n\<close> bytes, or an unsynced line.\<close>

definition torn :: "collection \<Rightarrow> segrec list \<Rightarrow> entry \<Rightarrow> collection \<Rightarrow> bool" where
  "torn c rs e c' \<longleftrightarrow> rec_ok (Plain e) \<and> (\<exists>n k s x. c' = c\<lparr>calls := k, fenced := Some x, active := s,
     files := om_ins (segpath (active c)) (file_of rec_line rs @ take n (rec_line (Plain e) @ [NL])) (files c)\<rparr>
     \<and> segpath s = segpath (active c))"

lemma segs_okD:
  assumes "coll_holds c srs rs"
  shows "seg_holds (files c) (active c) rs" "\<not> sealed (active c)" "hasfile (active c)" "\<not> poisoned (active c)"
    "om_ok (files c)" "segsize (active c) = length (file_of rec_line rs)" "list_all rec_ok rs"
    "map_of (files c) (segpath (active c)) = Some (file_of rec_line rs)"
  using assms by (auto simp: coll_holds_def segs_ok_def seg_holds_def)

lemma seg_in_sealed: "segs_ok c srs rs \<Longrightarrow> (t, r) \<in> set srs \<Longrightarrow> t \<in> set (sealedSegs c)"
  by (metis fst_conv image_eqI segs_ok_def set_map)

lemma active_facts:
  assumes "seg_holds (files c) (active c) rs" "\<not> sealed (active c)"
  shows "seg_holds (files c) (active c) rs" "\<not> sealed (active c)" "\<not> poisoned (active c)"
    "om_ok (files c)" "segsize (active c) = length (file_of rec_line rs)" "list_all rec_ok rs"
    "map_of (files c) (segpath (active c)) = Some (file_of rec_line rs)"
  using assms by (auto simp: seg_holds_def)

lemma append_active_cases:
  assumes h: "seg_holds (files c) (active c) rs" "\<not> sealed (active c)" and w: "writable e"
  obtains
    (ok) "rec_ok (Plain e)" "append_active e c = (Inr (segsize (active c)), appended c rs e (Suc (calls c)))"
  | (clean) err where "append_active e c = (Inl err, c\<lparr>calls := Suc (calls c)\<rparr>)" "err \<noteq> ErrSegmentPoisoned"
      "err \<noteq> SegWriteRollback"
  | (bad) c' where "append_active e c = (Inl SegWriteRollback, c')" "fenced c = None \<Longrightarrow> torn c rs e c'"
proof -
  note s = active_facts [OF h]
  let ?io = "sr_io (sys c (calls c))"
  have ap: "append_rec ?io (files c) (active c) (Plain e) = Append ?io (files c) (active c) e"
    by (simp add: append_rec_def)
  note d = append_active_def sys_next_def
  show thesis
  proof (cases "rec_ok (Plain e)")
    case True
    show thesis
    proof (cases "io_write ?io")
      case None
      have "append_active e c = (Inr (segsize (active c)), appended c rs e (Suc (calls c)))"
        using append_rec_line [of ?io "files c" "active c" "Plain e"] None s True
        by (simp add: d ap append_line_def rec_line_props Let_def content_def appended_def rec_ok_def)
      then show thesis by (rule ok [OF True])
    next
      case (Some n)
      show thesis
      proof (cases "io_trunc ?io")
        case True
        have "append_active e c = (Inl SegWrite, c\<lparr>calls := Suc (calls c)\<rparr>)"
          using append_rec_fault [OF s(1,2) \<open>rec_ok (Plain e)\<close> Some True] s(3)
          by (simp add: d Let_def ap coll_simps)
        then show thesis by (rule clean) simp_all
      next
        case False
        let ?f = "om_ins (segpath (active c)) (file_of rec_line rs @ take n (rec_line (Plain e) @ [NL])) (files c)"
        let ?c = "fence ''truncate'' (CauseSeg ErrSegmentPoisoned)
          (c\<lparr>calls := Suc (calls c), files := ?f, active := (active c)\<lparr>poisoned := True\<rparr>\<rparr>)"
        have "append_active e c = (Inl SegWriteRollback, ?c)"
          using append_rec_poison [OF s(1,2) True Some False] s(3) by (simp add: d Let_def ap)
        moreover have "torn c rs e ?c" if "fenced c = None"
          unfolding torn_def using True that
          by (intro conjI exI [of _ n] exI [of _ "Suc (calls c)"] exI [of _ "(active c)\<lparr>poisoned := True\<rparr>"]
              exI [of _ "(''truncate'', CauseSeg ErrSegmentPoisoned)"]) (simp_all add: fence_def)
        ultimately show thesis by (rule bad)
      qed
    qed
  next
    case False
    have "\<exists>err. Append ?io (files c) (active c) e = (Inl err, files c, active c) \<and> err \<noteq> ErrSegmentPoisoned
      \<and> err \<noteq> SegWriteRollback"
    proof (cases "fmt_time (Ts e)")
      case None
      then obtain err where "Encode e = Inl err" using Encode_bad_time by blast
      then show ?thesis using s by (simp add: Append_def append_line_def)
    next
      case (Some t)
      then have ok: "entry_ok e" using w by (simp add: entry_ok_def writable_def)
      then obtain l cr where l: "Encode e = Inr (l @ [NL])" by (rule Decode_Encode_entry)
      then have "length l + 1 > maxScanTokenSize"
        using False ok by (simp add: rec_ok_def rec_line_def rec_bytes_def)
      then show ?thesis using s l by (simp add: Append_def append_line_def)
    qed
    then obtain err where "Append ?io (files c) (active c) e = (Inl err, files c, active c)"
      and e: "err \<noteq> ErrSegmentPoisoned" "err \<noteq> SegWriteRollback" by blast
    then have "append_active e c = (Inl err, c\<lparr>calls := Suc (calls c)\<rparr>)"
      by (simp add: d Let_def coll_simps)
    then show thesis using e by (rule clean)
  qed
qed

lemma syncCommit_cases:
  assumes "fenced c = None"
  obtains (ok) k where "syncCommitLocked opn c = (None, c\<lparr>calls := k\<rparr>)"
    | (bad) err k x where "syncCommitLocked opn c = (Some (ErrWriteOutcomeUnknown opn err), c\<lparr>calls := k, fenced := Some x\<rparr>)"
proof (cases "cfgSyncMode (cfg c) \<noteq> SyncModeAlways \<or> Sync (sr_ok (sys c (calls c))) (active c) = None")
  case True
  then show thesis
    by (intro ok [of "if cfgSyncMode (cfg c) \<noteq> SyncModeAlways then calls c else Suc (calls c)"])
      (auto simp: syncCommitLocked_def sync_active_def sys_next_def)
next
  case False
  then obtain err where "Sync (sr_ok (sys c (calls c))) (active c) = Some err" "cfgSyncMode (cfg c) = SyncModeAlways"
    by auto
  then show thesis
    using assms by (intro bad [where err = err and k = "Suc (calls c)" and x = "(opn, CauseSeg err)"])
      (simp add: syncCommitLocked_def sync_active_def sys_next_def unknownOutcome_def fence_def)
qed

lemma appended_calls: "(appended c rs e k)\<lparr>calls := k'\<rparr> = appended c rs e k'"
  by (simp add: appended_def)

lemma append_commit_cases:
  assumes h: "coll_holds c srs rs" and w: "writable e" and f: "fenced c = None"
  obtains
    (ok) k where "rec_ok (Plain e)" "append_commit opn e c = (Inr (segsize (active c)), appended c rs e k)"
  | (clean) err k where "append_commit opn e c = (Inl err, c\<lparr>calls := k\<rparr>)"
  | (bad) err c' where "append_commit opn e c = (Inl (ErrWriteOutcomeUnknown opn err), c')" "torn c rs e c'"
  using segs_okD(1,2) [OF h] w
proof (cases rule: append_active_cases)
  case ok
  note rec = ok(1)
  have a: "appendLocked opn e c = (Inr (segsize (active c)), appended c rs e (Suc (calls c)))"
    using f ok(2) by (simp add: appendLocked_def checkFenced_def)
  have f': "fenced (appended c rs e (Suc (calls c))) = None" using f by (simp add: appended_def)
  show thesis
    using f'
  proof (cases rule: syncCommit_cases [where opn = opn])
    case (ok k)
    then have "append_commit opn e c = (Inr (segsize (active c)), appended c rs e k)"
      using a by (simp add: append_commit_def appended_calls)
    then show thesis by (rule that(1) [OF rec])
  next
    case (bad err k x)
    let ?c = "(appended c rs e k)\<lparr>fenced := Some x\<rparr>"
    have "torn c rs e ?c" unfolding torn_def
      by (intro conjI rec exI [of _ "Suc (length (rec_line (Plain e)))"] exI [of _ k]
          exI [of _ "active ?c"] exI [of _ x]) (simp_all add: appended_def)
    moreover have "append_commit opn e c = (Inl (ErrWriteOutcomeUnknown opn err), ?c)"
      using a bad by (simp add: append_commit_def appended_calls)
    ultimately show thesis by (intro that(3))
  qed
next
  case (clean err)
  then have "append_commit opn e c = (Inl (ErrNotApplied opn err), c\<lparr>calls := Suc (calls c)\<rparr>)"
    using f by (simp add: append_commit_def appendLocked_def checkFenced_def)
  then show thesis by (rule that(2))
next
  case (bad c')
  then have t: "torn c rs e c'" using f by simp
  then have "append_commit opn e c = (Inl (ErrWriteOutcomeUnknown opn SegWriteRollback), c')"
    using f bad(1) by (auto simp: torn_def append_commit_def appendLocked_def checkFenced_def unknownOutcome_def fence_def)
  then show thesis using t by (rule that(3))
qed

section \<open>Segment names\<close>

definition seg_digits :: "nat \<Rightarrow> string" where
  "seg_digits n = (if n < 1000000 then pad_nat 6 n else show_nat n)"

lemma segmentPath_eq: "segmentPath c n = cdir c @ ''/seg_'' @ seg_digits n @ ''.ndjson''"
  by (simp add: segmentPath_def seg_digits_def)

lemma read_seg_digits: "read_nat (seg_digits n) = n"
  by (simp add: seg_digits_def read_pad_nat)

lemma segmentPath_inj [simp]: "segmentPath c m = segmentPath c n \<longleftrightarrow> m = n"
proof
  assume "segmentPath c m = segmentPath c n"
  then have "seg_digits m = seg_digits n" by (simp add: segmentPath_eq)
  then show "m = n" by (metis read_seg_digits)
qed simp

lemma path_facts:
  assumes "coll_holds c srs rs"
  obtains m where "segpath (active c) = segmentPath c m" "m \<le> segSeq c" "distinct (map segpath (all_segs c))"
proof -
  obtain ns where ns: "sorted_wrt (<) ns" "\<forall>n\<in>set ns. n \<le> segSeq c" "map segpath (all_segs c) = map (segmentPath c) ns"
    using assms by (auto simp: coll_holds_def paths_ok_def)
  have "segpath (active c) \<in> set (map segpath (all_segs c))" by (simp add: all_segs_def)
  then obtain m where "m \<in> set ns" "segpath (active c) = segmentPath c m" unfolding ns(3) by auto
  moreover have "distinct (map (segmentPath c) ns)"
    using ns(1) by (simp add: distinct_map inj_on_def strict_sorted_iff)
  ultimately show thesis using that [of m] ns by auto
qed

lemma seg_digits: "list_all is_digit (seg_digits n)"
  by (simp add: seg_digits_def pad_nat_digits show_nat_digits)

lemma glob_segmentPath: "seg_glob (cdir c) (segmentPath c n)"
proof -
  have "CHR ''/'' \<notin> set (seg_digits n)" using seg_digits [of n] by (auto simp: list_all_iff is_digit_def)
  then show ?thesis by (simp add: glob_match_def segmentPath_eq)
qed

lemma fresh_segment:
  assumes "coll_holds c srs rs" "segSeq c < n"
  shows "map_of (files c) (segmentPath c n) = None" "segmentPath c n \<notin> segpath ` set (all_segs c)"
proof -
  obtain ns where ns: "\<forall>n\<in>set ns. n \<le> segSeq c" "map segpath (all_segs c) = map (segmentPath c) ns"
    using assms by (auto simp: coll_holds_def paths_ok_def)
  have "segpath ` set (all_segs c) = segmentPath c ` set ns" using arg_cong [OF ns(2), of set] by simp
  then show n: "segmentPath c n \<notin> segpath ` set (all_segs c)" using ns(1) assms(2) by auto
  show "map_of (files c) (segmentPath c n) = None"
    using n assms(1) glob_segmentPath [of c n] unfolding coll_holds_def paths_ok_def by blast
qed

section \<open>Commits\<close>

text \<open>Records added to the active segment's file, with the primary index and the secondary indexes
  brought up to date, make a collection holding these records too.\<close>

lemma holds_commits:
  assumes h: "coll_holds c srs rs" and r: "list_all rec_ok rs'" and i: "\<forall>r\<in>set rs'. ID (fst (rec_view r)) \<le> idSeq c"
    and f: "files c' = om_ins (segpath (active c)) (file_of rec_line (rs @ rs')) (files c)"
      "active c' = (active c)\<lparr>segsize := length (file_of rec_line (rs @ rs'))\<rparr>"
      "sealedSegs c' = sealedSegs c" "cdir c' = cdir c" "segSeq c' = segSeq c" "decs c' = decs c" "idSeq c' = idSeq c"
    and ix: "ientries (index c') = replay_recs (decs c) (segpath (active c)) (segsize (active c)) rs' (ientries (index c))"
    and sx: "sidxs_ok c' (stored_of (decs c) rs' (stored_of (decs c) (all_recs srs rs) Map.empty))"
  shows "coll_holds c' srs (rs @ rs')"
proof -
  note s = segs_okD [OF h]
  obtain m where m: "segpath (active c) = segmentPath c m" "m \<le> segSeq c" "distinct (map segpath (all_segs c))"
    by (rule path_facts [OF h])
  have p: "segmentPath c' = segmentPath c" using f(4) by (simp add: segmentPath_def fun_eq_iff)
  have so: "segs_ok c srs rs" using h by (simp add: coll_holds_def)
  have ne: "segpath t \<noteq> segpath (active c)" if "(t, rs'') \<in> set srs" for t rs''
  proof -
    have "segpath t \<in> segpath ` set (sealedSegs c)" using seg_in_sealed [OF so that] by (rule imageI)
    then show ?thesis using m(3) by (auto simp: all_segs_def)
  qed
  have "segs_ok c' srs (rs @ rs')"
    using so r ne s unfolding segs_ok_def f
    by (auto simp: segs_hold_def seg_holds_def omap_simps)
  moreover have "paths_ok c'"
    using h m s(5) unfolding coll_holds_def paths_ok_def p f by (auto simp: all_segs_def f omap_simps)
  moreover have "index_ok c' srs (rs @ rs')"
    using h s(6) by (simp add: coll_holds_def index_ok_def ix f replay_all_append replay_recs_append)
  moreover have "ids_ok c' (all_recs srs (rs @ rs'))"
    using h i by (auto simp: coll_holds_def ids_ok_def f)
  ultimately show ?thesis using sx by (simp add: coll_holds_def f)
qed

lemma holds_commit:
  assumes "coll_holds c srs rs" "rec_ok r" "ID (fst (rec_view r)) \<le> idSeq c"
    "files c' = om_ins (segpath (active c)) (file_of rec_line (rs @ [r])) (files c)"
    "active c' = (active c)\<lparr>segsize := length (file_of rec_line (rs @ [r]))\<rparr>"
    "sealedSegs c' = sealedSegs c" "cdir c' = cdir c" "segSeq c' = segSeq c" "decs c' = decs c" "idSeq c' = idSeq c"
    "ientries (index c') = apply_scanned (decs c) (segpath (active c)) (segsize (active c), rec_view r) (ientries (index c))"
    "sidxs_ok c' (store_step (decs c) (rec_view r) (stored_of (decs c) (all_recs srs rs) Map.empty))"
  shows "coll_holds c' srs (rs @ [r])"
  by (rule holds_commits [OF assms(1)]) (use assms in simp_all)

lemma next_rev_crc [simp]: "next_rev V (e\<lparr>CRC := x\<rparr>) = next_rev V e"
  by (simp add: next_rev_def Let_def)

lemma store_step_plain:
  "store_step dec (rec_view (Plain e)) V =
     (if Op e = OpInsert \<or> Op e = OpUpdate then V(ID e \<mapsto> (e\<lparr>CRC := checksum e\<rparr>, next_rev V e))
      else if Op e = OpDelete then V(ID e := None) else V)"
  by (simp add: store_step_def rec_view_def entryVisible_def next_rev_crc)

lemma index_rev:
  assumes "coll_holds c srs rs" "V = stored_of (decs c) (all_recs srs rs) Map.empty"
  shows "(case map_of (ientries (index c)) i of None \<Rightarrow> 0 | Some ie \<Rightarrow> IRev ie) = (case V i of None \<Rightarrow> 0 | Some (_, r) \<Rightarrow> r)"
  unfolding assms(2) by (rule agrees_rev [OF coll_agrees [OF assms(1)]])

lemma index_some_iff:
  assumes "coll_holds c srs rs" "V = stored_of (decs c) (all_recs srs rs) Map.empty"
  shows "idxGet (index c) i = None \<longleftrightarrow> V i = None"
proof -
  have "agree_at (files c) (segpath ` set (all_segs c)) i (map_of (ientries (index c)) i) (V i)"
    using coll_agrees [OF assms(1)] unfolding assms(2) agrees_def by blast
  then show ?thesis by (cases "V i"; cases "map_of (ientries (index c)) i") (auto simp: agree_at_def idxGet_def)
qed

lemma set_is_apply:
  assumes h: "coll_holds c srs rs" "V = stored_of (decs c) (all_recs srs rs) Map.empty"
    and e: "Op e = OpInsert \<or> Op e = OpUpdate" "next_rev V e = Rev e"
  shows "ientries (idxSet (index c) (ID e) (loc_of c (segsize (active c)) e))
    = apply_scanned (decs c) (segpath (active c)) (segsize (active c), rec_view (Plain e)) (ientries (index c))"
proof -
  have "(let rev1 = u64 ((case map_of (ientries (index c)) (ID e) of None \<Rightarrow> 0 | Some ie \<Rightarrow> IRev ie) + 1)
      in if Rev e > rev1 then Rev e else rev1) = Rev e"
    using e(2) by (simp only: index_rev [OF h] next_rev_def)
  then show ?thesis
    using e(1) by (simp add: idxSet_def loc_of_def apply_scanned_def applyOne_def rec_view_def entryVisible_def Let_def
        split: if_splits)
qed

lemma delete_is_apply:
  "Op e = OpDelete \<Longrightarrow> ientries (idxDelete idx (ID e)) = apply_scanned dec p (off, rec_view (Plain e)) (ientries idx)"
  by (simp add: idxDelete_def apply_scanned_def applyOne_def rec_view_def entryVisible_def OpDelete_def OpInsert_def OpUpdate_def)

section \<open>Secondary indexes follow the stored versions\<close>

lemma field_view_upd [simp]:
  "field_view s (V(i \<mapsto> (e, r))) = (field_view s V)(i := rec_value s (Some (Data e)))"
  "field_view s (V(i := None)) = (field_view s V)(i := None)"
  by (simp_all add: field_view_def fun_eq_iff)

lemma field_view_cong: "sfield s = sfield t \<Longrightarrow> field_view s = field_view t"
  by (simp add: field_view_def rec_value_def accepts_def fun_eq_iff cong: option.case_cong)

lemma sfield_ops [simp]:
  "sfield (sidx_enter v i s) = sfield s" "sfield (sidx_add v i s) = sfield s"
  "sfield (sidx_remove i s) = sfield s" "sfield (sidx_update i v s) = sfield s"
proof -
  show e: "sfield (sidx_enter v i s) = sfield s" for s by (simp add: sidx_enter_def Let_def)
  show "sfield (sidx_add v i s) = sfield s" "sfield (sidx_remove i s) = sfield s" "sfield (sidx_update i v s) = sfield s"
    by (simp_all add: sidx_add_def sidx_remove_def sidx_update_def e Let_def split: option.splits)
qed

lemma map_of_map_key: "map_of (map (\<lambda>(k, v). (k, g k v)) m) x = map_option (g x) (map_of m x)"
  by (induction m) auto

lemma sidxs_map:
  assumes "sidxs_ok c V" "sidxMap c' = map (\<lambda>(f, s). (f, g f s)) (sidxMap c)"
    and "\<And>f s. sfield s = f \<Longrightarrow> sidx_ok s (field_view s V) \<Longrightarrow> sfield (g f s) = f \<and> sidx_ok (g f s) (field_view s V')"
  shows "sidxs_ok c' V'"
proof -
  have "map fst (sidxMap c') = map fst (sidxMap c)" by (simp add: assms(2) case_prod_unfold comp_def)
  then have ok: "om_ok (sidxMap c')" using assms(1) by (simp add: sidxs_ok_def om_ok_def)
  have "sfield s' = f \<and> sidx_ok s' (field_view s' V')" if m: "map_of (sidxMap c') f = Some s'" for f s'
  proof -
    obtain s where s: "map_of (sidxMap c) f = Some s" "s' = g f s"
      using m unfolding assms(2) map_of_map_key by (cases "map_of (sidxMap c) f") auto
    then have "sfield s = f" "sidx_ok s (field_view s V)" using assms(1) by (auto simp: sidxs_ok_def)
    from assms(3) [OF this] this(1) show ?thesis using field_view_cong [of s' s] by (simp add: s(2))
  qed
  with ok show ?thesis by (simp add: sidxs_ok_def)
qed

lemma data_field_ok: "data_ok d \<Longrightarrow> field_of f d = Some v \<Longrightarrow> gval_ok v"
  by (auto simp: data_ok_def field_of_def list_all_iff dest!: map_of_SomeD split: option.splits)

lemma sidxs_index:
  assumes "sidxs_ok c V" "V i = None" "data_ok d" "Data e = d" "sidxMap c' = sidxMap (sidxIndexEntry i d c)"
  shows "sidxs_ok c' (V(i \<mapsto> (e, r)))"
proof (rule sidxs_map [OF assms(1)])
  show "sidxMap c' = map (\<lambda>(f, s). (f, case field_of f d of None \<Rightarrow> s | Some v \<Rightarrow> sidx_add v i s)) (sidxMap c)"
    using assms(5) by (simp add: sidxIndexEntry_def)
  fix f s
  assume s: "sfield s = f" "sidx_ok s (field_view s V)"
  have n: "field_view s V i = None" using assms(2) by (simp add: field_view_def)
  then have u: "(field_view s V)(i := None) = field_view s V" by (rule fun_upd_idem)
  show "sfield (case field_of f d of None \<Rightarrow> s | Some v \<Rightarrow> sidx_add v i s) = f
    \<and> sidx_ok (case field_of f d of None \<Rightarrow> s | Some v \<Rightarrow> sidx_add v i s) (field_view s (V(i \<mapsto> (e, r))))"
  proof (cases "field_of f d")
    case None
    then show ?thesis using s u assms(4) by (simp add: rec_value_def)
  next
    case (Some v)
    then show ?thesis
      using sidx_add_ok [OF s(2) data_field_ok [OF assms(3) Some] n] s assms(4) by (simp add: rec_value_def)
  qed
qed

lemma sidxs_update:
  assumes "sidxs_ok c V" "data_ok d" "Data e = d" "sidxMap c' = sidxMap (sidxUpdateEntry i d c)"
  shows "sidxs_ok c' (V(i \<mapsto> (e, r)))"
proof (rule sidxs_map [OF assms(1)])
  show "sidxMap c' = map (\<lambda>(f, s). (f, case field_of f d of None \<Rightarrow> sidx_remove i s | Some v \<Rightarrow> sidx_update i v s)) (sidxMap c)"
    using assms(4) by (simp add: sidxUpdateEntry_def)
  fix f s
  assume s: "sfield s = f" "sidx_ok s (field_view s V)"
  show "sfield (case field_of f d of None \<Rightarrow> sidx_remove i s | Some v \<Rightarrow> sidx_update i v s) = f
    \<and> sidx_ok (case field_of f d of None \<Rightarrow> sidx_remove i s | Some v \<Rightarrow> sidx_update i v s) (field_view s (V(i \<mapsto> (e, r))))"
  proof (cases "field_of f d")
    case None
    then show ?thesis using s assms(3) sidx_remove_ok [OF s(2), of i] by (simp add: rec_value_def)
  next
    case (Some v)
    then show ?thesis
      using sidx_update_ok [OF s(2) data_field_ok [OF assms(2) Some], of i] s assms(3) by (simp add: rec_value_def)
  qed
qed

lemma sidxs_remove:
  assumes "sidxs_ok c V" "sidxMap c' = sidxMap (sidxRemoveEntry i c)"
  shows "sidxs_ok c' (V(i := None))"
  by (rule sidxs_map [OF assms(1), of _ "\<lambda>_. sidx_remove i"])
    (use assms(2) sidx_remove_ok in \<open>auto simp: sidxRemoveEntry_def\<close>)

section \<open>After the commit\<close>

lemma emit_all_ticks: "\<exists>t. snd (emit_all cap ev ws c) = c\<lparr>ticks := t\<rparr>"
proof (induction cap ev ws c rule: emit_all.induct)
  case (1 cap ev c)
  show ?case by (rule exI [of _ "ticks c"]) simp
next
  case (2 cap ev i w ws c)
  obtain t c1 where c1: "(if overflowed w then wall_now c else (0, c)) = (t, c1)" by force
  then obtain k where "c1 = c\<lparr>ticks := k\<rparr>" by (cases c) (auto simp: wall_now_def split: if_splits)
  then show ?case using "2.IH" [OF c1 [symmetric]] c1 by (auto split: prod.splits)
qed

lemma emit_eq: "\<exists>t ws. emit ev c = c\<lparr>ticks := t, watchers := ws\<rparr>"
proof -
  obtain ws c' where e: "emit_all (WatchBufferSize (cfg c)) ev (watchers c) c = (ws, c')" by force
  then obtain t where "c' = c\<lparr>ticks := t\<rparr>" using emit_all_ticks [of "WatchBufferSize (cfg c)" ev "watchers c" c] by auto
  then show ?thesis using e by (auto simp: emit_def)
qed

lemma emit_inv [simp]: "coll_holds (emit ev c) srs rs = coll_holds c srs rs" "coll_inv (emit ev c) V = coll_inv c V"
  using emit_eq [of ev c] by auto

lemma emit_fields [simp]:
  "fenced (emit ev c) = fenced c" "active (emit ev c) = active c" "files (emit ev c) = files c"
  "segSeq (emit ev c) = segSeq c" "cfg (emit ev c) = cfg c" "index (emit ev c) = index c" "idSeq (emit ev c) = idSeq c"
  "sidxMap (emit ev c) = sidxMap c" "broker (emit ev c) = broker c" "clockFloor (emit ev c) = clockFloor c"
  "decs (emit ev c) = decs c" "cdir (emit ev c) = cdir c" "sealedSegs (emit ev c) = sealedSegs c"
  using emit_eq [of ev c] by auto

lemma publish_inv [simp]:
  "coll_holds (publishCommit e c) srs rs = coll_holds c srs rs" "coll_inv (publishCommit e c) V = coll_inv c V"
  by (simp_all add: publishCommit_def)

lemma publish_fields [simp]:
  "fenced (publishCommit e c) = fenced c" "active (publishCommit e c) = active c" "segSeq (publishCommit e c) = segSeq c"
  "files (publishCommit e c) = files c" "cfg (publishCommit e c) = cfg c" "index (publishCommit e c) = index c"
  "idSeq (publishCommit e c) = idSeq c" "sidxMap (publishCommit e c) = sidxMap c"
  "decs (publishCommit e c) = decs c" "cdir (publishCommit e c) = cdir c" "sealedSegs (publishCommit e c) = sealedSegs c"
  by (simp_all add: publishCommit_def)

section \<open>Files that are not segments\<close>

lemma layout_other_file:
  assumes so: "segs_ok c srs rs" and po: "paths_ok c" and p: "\<not> seg_glob (cdir c) p"
    and f: "files c' = om_ins p b (files c) \<or> files c' = om_del p (files c)"
      "active c' = active c" "sealedSegs c' = sealedSegs c" "cdir c' = cdir c" "segSeq c' = segSeq c"
  shows "segs_ok c' srs rs" "paths_ok c'"
proof -
  have seg: "segmentPath c' = segmentPath c" "all_segs c' = all_segs c"
    using f by (simp_all add: segmentPath_def all_segs_def fun_eq_iff)
  have ne: "p \<noteq> segpath t" if "t \<in> set (all_segs c)" for t
  proof -
    obtain ns where ns: "map segpath (all_segs c) = map (segmentPath c) ns" using po by (auto simp: paths_ok_def)
    have "segpath t \<in> set (map segpath (all_segs c))" using that by simp
    then obtain n where "segpath t = segmentPath c n" unfolding ns by auto
    then show ?thesis using p glob_segmentPath [of c n] by auto
  qed
  have om: "om_ok (files c)" using so by (simp add: segs_ok_def seg_holds_def)
  have m: "map_of (files c') q = map_of (files c) q" if "q \<noteq> p" for q
    using f(1) om that by (auto simp: omap_simps)
  have om': "om_ok (files c')" using f(1) om by auto
  have "t \<in> set (all_segs c)" if "(t, r) \<in> set srs" for t r
    using seg_in_sealed [OF so that] by (simp add: all_segs_def)
  then have "segpath t \<noteq> p" if "(t, r) \<in> set srs" for t r using ne that by blast
  moreover have "segpath (active c) \<noteq> p" using ne [of "active c"] by (simp add: all_segs_def)
  ultimately show "segs_ok c' srs rs"
    using so om' by (auto simp: segs_ok_def segs_hold_def seg_holds_def f m)
  have "map_of (files c) q \<noteq> None" if "seg_glob (cdir c) q" "map_of (files c') q \<noteq> None" for q
    using m [of q] that p by (cases "q = p") auto
  then show "paths_ok c'" using po unfolding paths_ok_def seg f by blast
qed

lemma holds_other_file:
  assumes h: "coll_holds c srs rs" and p: "\<not> seg_glob (cdir c) p"
    and f: "files c' = om_ins p b (files c) \<or> files c' = om_del p (files c)"
      "active c' = active c" "sealedSegs c' = sealedSegs c" "cdir c' = cdir c"
      "segSeq c' = segSeq c" "decs c' = decs c" "idSeq c' = idSeq c" "index c' = index c" "sidxMap c' = sidxMap c"
  shows "coll_holds c' srs rs"
proof -
  have so: "segs_ok c srs rs" and po: "paths_ok c" using h by (simp_all add: coll_holds_def)
  show ?thesis
    using h layout_other_file [OF so po p f(1-5)] by (simp add: coll_holds_def index_ok_def sidxs_ok_def ids_ok_def f)
qed

lemma glob_meta [simp]: "\<not> seg_glob dir (metaPath dir)"
  by (simp add: glob_match_def metaPath_def)

lemma glob_index [simp]: "\<not> seg_glob (cdir c) (indexPath c)"
  by (simp add: glob_match_def indexPath_def)

lemma glob_sidx [simp]: "\<not> seg_glob dir (sidxFilePath dir f)"
  by (simp add: glob_match_def sidxFilePath_def)

lemma writeFileAtomic_holds:
  assumes "coll_holds c srs rs" "\<not> seg_glob (cdir c) p"
  shows "coll_holds (snd (writeFileAtomic p b c)) srs rs"
  using assms holds_other_file [OF assms, of "snd (writeFileAtomic p b c)" b]
  by (auto simp: writeFileAtomic_def sys_next_def)

lemma writeFileAtomic_fields [simp]:
  "fenced (snd (writeFileAtomic p b c)) = fenced c" "active (snd (writeFileAtomic p b c)) = active c"
  "decs (snd (writeFileAtomic p b c)) = decs c" "cdir (snd (writeFileAtomic p b c)) = cdir c"
  "segSeq (snd (writeFileAtomic p b c)) = segSeq c" "idSeq (snd (writeFileAtomic p b c)) = idSeq c"
  "sidxMap (snd (writeFileAtomic p b c)) = sidxMap c" "index (snd (writeFileAtomic p b c)) = index c"
  by (simp_all add: writeFileAtomic_def sys_next_def)

lemma persistMeta_eq:
  "snd (persistMeta n t secs c) = c \<or> (\<exists>b. snd (persistMeta n t secs c) = snd (writeFileAtomic (metaPath (cdir c)) b c))"
  unfolding persistMeta_def
  by (cases "meta_json n t secs") (simp_all add: case_prod_unfold, blast)

lemma writeMeta_holds:
  assumes "coll_holds c srs rs"
  shows "coll_holds (snd (writeMeta c)) srs rs" "fenced (snd (writeMeta c)) = fenced c" "decs (snd (writeMeta c)) = decs c"
  using persistMeta_eq [of "idSeq c" "createdAt c" "explicitDefaultTTLSecs c" c]
    writeFileAtomic_holds [OF assms, of "metaPath (cdir c)"] assms
  by (auto simp: writeMeta_def)

section \<open>Rotation\<close>

lemma recover_whole: "recoverPartialLine t (file_of rec_line rs) = Inr (length (file_of rec_line rs), file_of rec_line rs)"
  by (cases rs rule: rev_cases) (simp_all add: recoverPartialLine_def)

text \<open>The new active segment is empty, and the old one joins the sealed ones.\<close>

lemma holds_rotated:
  assumes h: "coll_holds c srs rs" and n: "n = Suc (segSeq c)" "n < 2 ^ 64"
    and f: "files c' = om_ins (segmentPath c n) [] (files c)" "sealedSegs c' = sealedSegs c @ [old]"
      "segpath old = segpath (active c)" "segsize old = segsize (active c)"
      "active c' = \<lparr>segpath = segmentPath c n, segsize = 0, sealed = False, hasfile = True, poisoned = False\<rparr>"
      "cdir c' = cdir c" "segSeq c' = n" "decs c' = decs c" "idSeq c' = idSeq c" "index c' = index c" "sidxMap c' = sidxMap c"
  shows "coll_holds c' (srs @ [(old, rs)]) []"
proof -
  note s = segs_okD [OF h]
  have so: "segs_ok c srs rs" and po: "paths_ok c" using h by (simp_all add: coll_holds_def)
  have fr: "map_of (files c) (segmentPath c n) = None" "segmentPath c n \<notin> segpath ` set (all_segs c)"
    using fresh_segment [OF h, of n] n by simp_all
  have seg: "segmentPath c' = segmentPath c" using f by (simp add: segmentPath_def fun_eq_iff)
  have segs: "map segpath (all_segs c') = map segpath (all_segs c) @ [segmentPath c n]"
    by (simp add: all_segs_def f)
  have set_segs: "segpath ` set (all_segs c') = insert (segmentPath c n) (segpath ` set (all_segs c))"
    using arg_cong [OF segs, of set] by simp
  have ne: "segpath t \<noteq> segmentPath c n" if "(t, r) \<in> set srs" for t r
    using imageI [OF seg_in_sealed [OF so that], of segpath] fr(2) by (auto simp: all_segs_def)
  have na: "segpath (active c) \<noteq> segmentPath c n" using fr(2) by (auto simp: all_segs_def)
  have "segs_ok c' (srs @ [(old, rs)]) []"
    using so s ne na by (auto simp: segs_ok_def segs_hold_def seg_holds_def f omap_simps)
  moreover have "paths_ok c'"
  proof -
    obtain ns where ns: "sorted_wrt (<) ns" "\<forall>n\<in>set ns. n \<le> segSeq c" "map segpath (all_segs c) = map (segmentPath c) ns"
      using po by (auto simp: paths_ok_def)
    have "sorted_wrt (<) (ns @ [n])" "\<forall>m\<in>set (ns @ [n]). m \<le> n" using ns n by (auto simp: sorted_wrt_append)
    moreover have "map segpath (all_segs c') = map (segmentPath c) (ns @ [n])" using segs ns(3) by simp
    moreover have "p \<in> segpath ` set (all_segs c')" if "seg_glob (cdir c) p" "map_of (files c') p \<noteq> None" for p
      using that po s(5) unfolding set_segs paths_ok_def f by (auto simp: omap_simps split: if_splits)
    ultimately show ?thesis unfolding paths_ok_def seg f using n(2) by metis
  qed
  moreover have "index_ok c' (srs @ [(old, rs)]) []"
    using h by (simp add: coll_holds_def index_ok_def f replay_all_append)
  ultimately show ?thesis using h by (simp add: coll_holds_def sidxs_ok_def ids_ok_def f)
qed

lemma rotate_finish_holds:
  assumes "coll_holds c srs rs"
  shows "coll_holds (snd (rotate_finish closeErr c)) srs rs \<and> decs (snd (rotate_finish closeErr c)) = decs c"
proof -
  have "coll_holds (snd (writeMeta (c\<lparr>calls := k\<rparr>))) srs rs \<and> decs (snd (writeMeta (c\<lparr>calls := k\<rparr>))) = decs c" for k
    using writeMeta_holds [of "c\<lparr>calls := k\<rparr>" srs rs] assms by simp
  moreover have "coll_holds (snd (writeMeta c)) srs rs \<and> decs (snd (writeMeta c)) = decs c"
    using writeMeta_holds assms by simp
  ultimately show ?thesis
    using assms by (simp add: rotate_finish_def sys_next_def fence_def case_prod_unfold Let_def)
qed

lemma open_active_fresh:
  assumes "map_of (files c) p = None"
  shows "open_active p c =
    (if sr_ok (sys c (calls c))
     then (Inr \<lparr>segpath = p, segsize = 0, sealed = False, hasfile = True, poisoned = False\<rparr>,
       c\<lparr>calls := Suc (Suc (calls c)), files := om_ins p [] (files c)\<rparr>)
     else (Inl SegOpen, c\<lparr>calls := Suc (Suc (calls c))\<rparr>))"
  using assms by (simp add: open_active_def sys_next_def openActiveSegmentWith_def content_def recoverPartialLine_def)

lemma open_active_whole:
  assumes "om_ok (files c)" "map_of (files c) p = Some (file_of rec_line rs)"
  shows "open_active p c =
    (if sr_ok (sys c (calls c))
     then (Inr \<lparr>segpath = p, segsize = length (file_of rec_line rs), sealed = False, hasfile = True, poisoned = False\<rparr>,
       c\<lparr>calls := Suc (Suc (calls c))\<rparr>)
     else (Inl SegOpen, c\<lparr>calls := Suc (Suc (calls c))\<rparr>))"
proof -
  have "om_ins p (file_of rec_line rs) (files c) = files c" by (rule om_ins_same [OF assms])
  moreover have "c\<lparr>calls := Suc (Suc (calls c)), files := files c\<rparr> = c\<lparr>calls := Suc (Suc (calls c))\<rparr>" by (cases c) simp
  ultimately show ?thesis
    using assms by (simp add: open_active_def sys_next_def openActiveSegmentWith_def content_def recover_whole)
qed

lemma holds_segSeq:
  assumes "coll_holds c srs rs" "segSeq c \<le> n" "n < 2 ^ 64"
  shows "coll_holds (c\<lparr>segSeq := n\<rparr>) srs rs"
proof -
  have "all_segs (c\<lparr>segSeq := n\<rparr>) = all_segs c" by (simp add: all_segs_def)
  moreover obtain ns where "sorted_wrt (<) ns" "\<forall>m\<in>set ns. m \<le> segSeq c"
    "map segpath (all_segs c) = map (segmentPath c) ns"
    "\<forall>p. seg_glob (cdir c) p \<and> map_of (files c) p \<noteq> None \<longrightarrow> p \<in> segpath ` set (all_segs c)"
    using assms(1) unfolding coll_holds_def paths_ok_def by blast
  moreover have "\<forall>m\<in>set ns. m \<le> n" using calculation(3) assms(2) by fastforce
  ultimately have "paths_ok (c\<lparr>segSeq := n\<rparr>)"
    using assms(3) unfolding paths_ok_def by (auto simp: coll_simps)
  then show ?thesis using assms(1) by (simp add: coll_holds_def segs_ok_def index_ok_def sidxs_ok_def ids_ok_def)
qed

text \<open>A rotation keeps what is stored; it fails without a fence only by going on with the old segment.\<close>

lemma rotate_outcome:
  assumes h: "coll_holds c srs rs" and n: "Suc (segSeq c) < 2 ^ 64" and f: "fenced c = None"
    and c': "c' = snd (rotateSegment c)"
  obtains (holds) srs' rs' where "coll_holds c' srs' rs'" "all_recs srs' rs' = all_recs srs rs" "decs c' = decs c"
  | (stuck) "fenced c' \<noteq> None" "files c' = files c" "cdir c' = cdir c" "decs c' = decs c"
proof -
  note s = segs_okD [OF h]
  let ?a = "active c" and ?k = "calls c" and ?n = "Suc (segSeq c)"
  let ?old = "?a\<lparr>hasfile := False, sealed := True\<rparr>"
  let ?c1 = "c\<lparr>calls := Suc (Suc ?k), active := ?old, segSeq := ?n\<rparr>"
  have u: "u64 ?n = ?n" using n by (simp add: u64_def)
  have fr: "map_of (files ?c1) (segmentPath c ?n) = None" using fresh_segment [OF h, of ?n] by simp
  have old: "map_of (files ?c1) (segpath ?a) = Some (file_of rec_line rs)" using s by simp
  note d = rotateSegment_def checkFenced_def f sys_next_def Seal_def s Let_def u segmentPath_simps
  show thesis
  proof (cases "sr_ok (sys c ?k)")
    case False
    then have "c' = c\<lparr>calls := Suc (Suc ?k), fenced := Some (''seal'', CauseSeg SegSync)\<rparr>"
      by (simp add: c' d fence_def)
    then show thesis using h by (intro holds [of srs rs]) simp_all
  next
    case sealed: True
    show thesis
    proof (cases "sr_ok (sys c (Suc (Suc ?k)))")
      case True
      let ?c2 = "?c1\<lparr>calls := Suc (Suc (Suc (Suc ?k))), files := om_ins (segmentPath c ?n) [] (files c),
        sealedSegs := sealedSegs c @ [?old],
        active := \<lparr>segpath = segmentPath c ?n, segsize = 0, sealed = False, hasfile = True, poisoned = False\<rparr>\<rparr>"
      have "\<exists>err. c' = snd (rotate_finish err ?c2)"
        using sealed True open_active_fresh [OF fr] by (auto simp: c' d)
      moreover have "coll_holds ?c2 (srs @ [(?old, rs)]) []"
        by (rule holds_rotated [OF h refl n]) simp_all
      ultimately show thesis
        using rotate_finish_holds [of ?c2 "srs @ [(?old, rs)]" "[]"] by (intro holds [of "srs @ [(?old, rs)]" "[]"]) auto
    next
      case False
      then have op: "open_active (segmentPath c ?n) ?c1 = (Inl SegOpen, ?c1\<lparr>calls := Suc (Suc (Suc (Suc ?k)))\<rparr>)"
        using open_active_fresh [OF fr] by simp
      let ?c2 = "?c1\<lparr>calls := Suc (Suc (Suc (Suc ?k)))\<rparr>"
      have re: "open_active (segpath ?a) ?c2 = (if sr_ok (sys c (Suc (Suc (Suc (Suc ?k)))))
         then (Inr ?a, ?c2\<lparr>calls := Suc (Suc (calls ?c2))\<rparr>) else (Inl SegOpen, ?c2\<lparr>calls := Suc (Suc (calls ?c2))\<rparr>))"
        using open_active_whole [of ?c2 "segpath ?a" rs] s by (cases ?a) simp
      show thesis
      proof (cases "sr_ok (sys c (Suc (Suc (Suc (Suc ?k)))))")
        case True
        have "c' = c\<lparr>segSeq := ?n, calls := Suc (Suc (calls ?c2)), active := ?a\<rparr>"
          using sealed op re True by (simp add: c' d)
        moreover have "c\<lparr>segSeq := ?n, calls := k, active := active c\<rparr> = c\<lparr>segSeq := ?n, calls := k\<rparr>" for k
          by (cases c) simp
        moreover have "coll_holds (c\<lparr>segSeq := ?n\<rparr>) srs rs"
          using holds_segSeq [OF h] n by simp
        ultimately show thesis by (intro holds [of srs rs]) simp_all
      next
        case False
        then have "c' = fence ''rotate'' (CauseRotate SegOpen SegOpen) (?c2\<lparr>calls := Suc (Suc (calls ?c2))\<rparr>)"
          using sealed op re by (simp add: c' d)
        then show thesis using f by (intro stuck) (simp_all add: fence_def)
      qed
    qed
  qed
qed

section \<open>What is on disk\<close>

text \<open>The segment files hold the records \<open>rss\<close>, the last one possibly followed by an incomplete line.\<close>

definition disk_holds :: "collection \<Rightarrow> nat list \<Rightarrow> segrec list list \<Rightarrow> string \<Rightarrow> bool" where
  "disk_holds c ns rss t \<longleftrightarrow> om_ok (files c) \<and> sorted_wrt (<) ns \<and> (\<forall>n\<in>set ns. n < 2 ^ 64)
     \<and> rss \<noteq> [] \<and> list_all (list_all rec_ok) rss \<and> NL \<notin> set t
     \<and> map (\<lambda>n. map_of (files c) (segmentPath c n)) ns
       = map Some (map (file_of rec_line) (butlast rss) @ [file_of rec_line (last rss) @ t])
     \<and> (\<forall>p. seg_glob (cdir c) p \<and> map_of (files c) p \<noteq> None \<longrightarrow> p \<in> segmentPath c ` set ns)"

definition on_disk :: "collection \<Rightarrow> stored \<Rightarrow> bool" where
  "on_disk c V \<longleftrightarrow> (\<exists>ns rss t. disk_holds c ns rss t \<and> V = stored_of (decs c) (concat rss) Map.empty)"

lemma on_disk_cong: "files c = files d \<Longrightarrow> cdir c = cdir d \<Longrightarrow> decs c = decs d \<Longrightarrow> on_disk c = on_disk d"
proof -
  assume a: "files c = files d" "cdir c = cdir d" "decs c = decs d"
  then have "segmentPath c = segmentPath d" by (simp add: segmentPath_def fun_eq_iff)
  with a show ?thesis by (intro ext) (simp add: on_disk_def disk_holds_def)
qed

lemma on_diskI: "disk_holds c ns rss t \<Longrightarrow> V = stored_of (decs c) (concat rss) Map.empty \<Longrightarrow> on_disk c V"
  unfolding on_disk_def by blast

lemma holds_disk:
  assumes h: "coll_holds c srs rs"
  obtains ns where "disk_holds c ns (map snd srs @ [rs]) []" "map segpath (all_segs c) = map (segmentPath c) ns"
proof -
  obtain ns where ns: "sorted_wrt (<) ns" "\<forall>n\<in>set ns. n \<le> segSeq c" "map segpath (all_segs c) = map (segmentPath c) ns"
    using h by (auto simp: coll_holds_def paths_ok_def)
  have so: "segs_ok c srs rs" and po: "paths_ok c" using h by (simp_all add: coll_holds_def)
  have "map (\<lambda>n. map_of (files c) (segmentPath c n)) ns = map (\<lambda>t. map_of (files c) (segpath t)) (all_segs c)"
    using arg_cong [OF ns(3), of "map (map_of (files c))"] by (simp add: comp_def)
  also have "all_segs c = map fst srs @ [active c]" using so by (simp add: all_segs_def segs_ok_def)
  also have "map (\<lambda>t. map_of (files c) (segpath t)) (map fst srs @ [active c])
      = map Some (map (file_of rec_line) (butlast (map snd srs @ [rs])) @ [file_of rec_line (last (map snd srs @ [rs])) @ []])"
  proof -
    have "map (\<lambda>t. map_of (files c) (segpath t)) (map fst srs) = map Some (map (file_of rec_line) (map snd srs))"
    proof -
      have "segs_hold (files c) srs" using so by (simp add: segs_ok_def)
      then show ?thesis by (auto simp: segs_hold_def)
    qed
    then show ?thesis using segs_okD(8) [OF h] by simp
  qed
  finally have files: "map (\<lambda>n. map_of (files c) (segmentPath c n)) ns = \<dots>" .
  have "list_all (list_all rec_ok) (map snd srs @ [rs])"
    using so by (auto simp: segs_ok_def segs_hold_def seg_holds_def list_all_iff)
  moreover have "segpath ` set (all_segs c) = segmentPath c ` set ns" using arg_cong [OF ns(3), of set] by simp
  ultimately have "disk_holds c ns (map snd srs @ [rs]) []"
    using ns po files segs_okD(5) [OF h] by (auto simp: disk_holds_def paths_ok_def)
  then show thesis using ns(3) by (rule that)
qed

lemma inv_on_disk: "coll_inv c V \<Longrightarrow> on_disk c V"
proof -
  assume "coll_inv c V"
  then obtain srs rs where h: "coll_holds c srs rs" "V = stored_of (decs c) (all_recs srs rs) Map.empty"
    by (auto simp: coll_inv_def)
  obtain ns where d: "disk_holds c ns (map snd srs @ [rs]) []" by (rule holds_disk [OF h(1)])
  then show "on_disk c V" by (rule on_diskI) (simp add: h(2))
qed

text \<open>A torn append leaves the old versions on disk, or the new one when its line arrived whole.\<close>

lemma torn_on_disk:
  assumes h: "coll_holds c srs rs" and t: "torn c rs e c'"
    and V: "V = stored_of (decs c) (all_recs srs rs) Map.empty"
  shows "on_disk c' V \<or> on_disk c' (store_step (decs c) (rec_view (Plain e)) V)"
proof -
  obtain ns where d: "disk_holds c ns (map snd srs @ [rs]) []" and p: "map segpath (all_segs c) = map (segmentPath c) ns"
    by (rule holds_disk [OF h])
  obtain n s where r: "rec_ok (Plain e)" and c': "files c' = om_ins (segpath (active c))
      (file_of rec_line rs @ take n (rec_line (Plain e) @ [NL])) (files c)" "cdir c' = cdir c" "decs c' = decs c"
    using t by (auto simp: torn_def)
  obtain ns' m where ns: "ns = ns' @ [m]" "segpath (active c) = segmentPath c m"
    using p by (cases ns rule: rev_cases) (auto simp: all_segs_def)
  have seg: "segmentPath c' = segmentPath c" using c' by (simp add: segmentPath_def fun_eq_iff)
  have nl: "NL \<notin> set (rec_line (Plain e))" using r by (rule rec_line_props)
  have ext: "disk_holds c' ns (map snd srs @ [rs']) t'"
    if "file_of rec_line rs' @ t' = file_of rec_line rs @ take n (rec_line (Plain e) @ [NL])" "NL \<notin> set t'"
      "list_all rec_ok rs'" for rs' t'
  proof -
    have old: "map (\<lambda>k. map_of (files c') (segmentPath c k)) ns' = map (\<lambda>k. map_of (files c) (segmentPath c k)) ns'"
    proof (rule map_cong [OF refl])
      fix k
      assume "k \<in> set ns'"
      then have "k \<noteq> m" using d ns(1) by (auto simp: disk_holds_def sorted_wrt_append)
      then show "map_of (files c') (segmentPath c k) = map_of (files c) (segmentPath c k)"
        using segs_okD(5) [OF h] by (simp add: c' ns(2) omap_simps)
    qed
    show ?thesis
      using d that old ns by (auto simp: disk_holds_def c' seg omap_simps)
  qed
  show ?thesis
  proof (cases "n \<le> length (rec_line (Plain e))")
    case True
    then have "NL \<notin> set (take n (rec_line (Plain e)))" using nl by (auto dest: in_set_takeD)
    then have "disk_holds c' ns (map snd srs @ [rs]) (take n (rec_line (Plain e)))"
      using ext [of rs] True segs_okD(7) [OF h] by simp
    then have "on_disk c' V" by (rule on_diskI) (simp add: V c'(3))
    then show ?thesis ..
  next
    case False
    then have "disk_holds c' ns (map snd srs @ [rs @ [Plain e]]) []"
      using ext [of "rs @ [Plain e]" "[]"] segs_okD(7) [OF h] r by simp
    then have "on_disk c' (store_step (decs c) (rec_view (Plain e)) V)"
      by (rule on_diskI) (simp add: V c'(3))
    then show ?thesis ..
  qed
qed

end
