(* ===== verification/CollectionOps.thy ===== *)
theory CollectionOps
  imports CollectionInv
begin

text \<open>
  The contract of every write of \<open>engine/collection.go\<close> and \<open>engine/keys.go\<close>, for every sequence of
  file-operation outcomes and clock readings: an acknowledged write is stored and on disk, a refused
  one changes nothing, and one whose outcome is unknown is reported as such, fences the collection and
  leaves on disk either the old or the new version.
\<close>

lemmas case_congs = option.case_cong sum.case_cong prod.case_cong

section \<open>Outcomes of a write\<close>

definition outcome_ok :: "stored \<Rightarrow> stored \<Rightarrow> 'a \<Rightarrow> 'a committed \<Rightarrow> bool" where
  "outcome_ok V V' v r = (case r of
     (Inr (w, _), c') \<Rightarrow> w = v \<and> on_disk c' V' \<and> (fenced c' = None \<longrightarrow> coll_inv c' V')
   | (Inl err, c') \<Rightarrow>
       on_disk c' V \<and> (fenced c' = None \<longrightarrow> coll_inv c' V)
       \<or> (\<exists>opn cause. err = ErrWriteOutcomeUnknown opn cause) \<and> fenced c' \<noteq> None \<and> on_disk c' V')"

lemma refused: "coll_inv c' V \<Longrightarrow> outcome_ok V V' v (Inl err, c')"
  by (simp add: outcome_ok_def inv_on_disk)

lemma after_commit:
  assumes h: "coll_holds c srs rs" and f: "fenced c = None" and n: "Suc (segSeq c) < 2 ^ 64"
    and V: "V = stored_of (decs c) (all_recs srs rs) Map.empty" and r: "afterCommit opn ev need c = (post, c')"
  shows "on_disk c' V \<and> (fenced c' = None \<longrightarrow> coll_inv c' V)"
proof (cases need)
  case False
  then have "c' = emit ev c" using r by (simp add: afterCommit_def rotate_post_def)
  then have "coll_inv c' V" using h V by (auto simp: coll_inv_def)
  then show ?thesis by (simp add: inv_on_disk)
next
  case True
  then have c': "c' = snd (rotateSegment (emit ev c))"
    using r by (auto simp: afterCommit_def rotate_post_def split: option.splits prod.splits)
  have h': "coll_holds (emit ev c) srs rs" "Suc (segSeq (emit ev c)) < 2 ^ 64" "fenced (emit ev c) = None"
    using h n f by simp_all
  show ?thesis using h' c'
  proof (cases rule: rotate_outcome)
    case (holds srs' rs')
    then have "coll_inv c' V" using V unfolding coll_inv_def by (metis emit_fields(11))
    then show ?thesis by (simp add: inv_on_disk)
  next
    case stuck
    have "on_disk c V" using inv_on_disk [of c V] h V by (auto simp: coll_inv_def)
    moreover have "on_disk c' = on_disk c" using stuck by (intro on_disk_cong) simp_all
    ultimately show ?thesis using stuck(1) by auto
  qed
qed

text \<open>The shape shared by all writes: append and sync, apply to the indexes, then the steps after the
  commit.\<close>

lemma commit_step:
  assumes h: "coll_holds c srs rs" and f: "fenced c = None" and n: "Suc (segSeq c) < 2 ^ 64" and w: "writable e"
    and V: "V = stored_of (decs c) (all_recs srs rs) Map.empty"
    and V': "V' = store_step (decs c) (rec_view (Plain e)) V"
    and upd: "\<And>k. rec_ok (Plain e) \<Longrightarrow> coll_holds (upd (segsize (active c)) (appended c rs e k)) srs (rs @ [Plain e])"
    and keep: "\<And>off d. fenced (upd off d) = fenced d" "\<And>off d. segSeq (upd off d) = segSeq d"
      "\<And>off d. decs (upd off d) = decs d"
  shows "outcome_ok V V' v (case append_commit opn e c of
      (Inl err, c) \<Rightarrow> (Inl err, c)
    | (Inr off, c) \<Rightarrow> (case afterCommit opn ev (needRotate (upd off c)) (upd off c) of (post, c) \<Rightarrow> (Inr (v, post), c)))"
  using h w f
proof (cases rule: append_commit_cases [where opn = opn])
  case (ok k)
  let ?c = "upd (segsize (active c)) (appended c rs e k)"
  obtain post c' where a: "afterCommit opn ev (needRotate ?c) ?c = (post, c')" by force
  have d: "decs ?c = decs c" "fenced ?c = None" "segSeq ?c = segSeq c" using f keep by (simp_all add: appended_def)
  have "on_disk c' V' \<and> (fenced c' = None \<longrightarrow> coll_inv c' V')"
    by (rule after_commit [OF upd [OF ok(1)] d(2) _ _ a]) (use n in \<open>simp_all add: d V V'\<close>)
  then show ?thesis using ok(2) a by (simp add: outcome_ok_def)
next
  case (clean err k)
  have "coll_inv (c\<lparr>calls := k\<rparr>) V" using h V by (auto simp: coll_inv_def)
  then show ?thesis using clean by (simp add: refused)
next
  case (bad err c')
  have "fenced c' \<noteq> None" using bad(2) by (auto simp: torn_def)
  then show ?thesis using bad(1) torn_on_disk [OF h bad(2) V] V' by (auto simp: outcome_ok_def)
qed

section \<open>Inserts\<close>

lemma stored_all:
  assumes "\<forall>r\<in>set rs. P (ID (fst (rec_view r))) (fst (rec_view r))" "\<And>i e r. V i = Some (e, r) \<Longrightarrow> P i e"
    "stored_of dec rs V i = Some (e, r)"
  shows "P i e"
  using assms
proof (induction rs arbitrary: V)
  case (Cons r rs)
  have "P j y" if "store_step dec (rec_view r) V j = Some (y, k)" for j y k
    using that Cons.prems(1,2) by (auto simp: store_step_def split: prod.splits if_splits)
  then show ?case using Cons.IH [of "store_step dec (rec_view r) V"] Cons.prems by simp
qed simp

lemma fresh_id:
  assumes "coll_holds c srs rs" "V = stored_of (decs c) (all_recs srs rs) Map.empty" "idSeq c < i"
  shows "V i = None"
proof (rule ccontr)
  assume "V i \<noteq> None"
  then obtain e r where "stored_of (decs c) (all_recs srs rs) Map.empty i = Some (e, r)" using assms(2) by fastforce
  then have "i \<le> idSeq c"
    by (rule stored_all [where P = "\<lambda>i _. i \<le> idSeq c", rotated 2])
      (use assms(1) in \<open>auto simp: coll_holds_def ids_ok_def\<close>)
  then show False using assms(3) by simp
qed

text \<open>A counter that can still be advanced.\<close>

definition room :: "collection \<Rightarrow> bool" where
  "room c \<longleftrightarrow> Suc (idSeq c) < 2 ^ 64 \<and> Suc (segSeq c) < 2 ^ 64"

lemma sidxCheckUnique_eq:
  "\<exists>t f. snd (sidxCheckUnique rid data c) = c\<lparr>ticks := t, clockFloor := f\<rparr>"
  by (auto simp: sidxCheckUnique_def coll_simps)

text \<open>The commit of a fresh record, and of a new version of a stored one.\<close>

lemma holds_insert:
  assumes h: "coll_holds c srs rs" "V = stored_of (decs c) (all_recs srs rs) Map.empty" and r: "rec_ok (Plain e)"
    and e: "Op e = OpInsert" "V (ID e) = None" "Rev e = 1" "ID e \<le> idSeq c" "data_ok (Data e)"
  shows "coll_holds (publishCommit e (sidxIndexEntry (ID e) (Data e)
    (index_set (segsize (active c)) e (appended c rs e k)))) srs (rs @ [Plain e])" (is "coll_holds ?c' _ _")
proof -
  have nr: "next_rev V e = Rev e" using e by (simp add: next_rev_def u64_def)
  have "coll_holds (sidxIndexEntry (ID e) (Data e) (index_set (segsize (active c)) e (appended c rs e k))) srs (rs @ [Plain e])"
  proof (rule holds_commit [OF h(1) r])
    show "ID (fst (rec_view (Plain e))) \<le> idSeq c" using e(4) by (simp add: rec_view_def)
    show "ientries (index (sidxIndexEntry (ID e) (Data e) (index_set (segsize (active c)) e (appended c rs e k))))
      = apply_scanned (decs c) (segpath (active c)) (segsize (active c), rec_view (Plain e)) (ientries (index c))"
      using set_is_apply [OF h, of e] e(1) nr
      by (simp add: sidxIndexEntry_def index_set_def appended_def loc_of_def)
    show "sidxs_ok (sidxIndexEntry (ID e) (Data e) (index_set (segsize (active c)) e (appended c rs e k)))
        (store_step (decs c) (rec_view (Plain e)) (stored_of (decs c) (all_recs srs rs) Map.empty))"
    proof -
      have "sidxs_ok c V" using h by (simp add: coll_holds_def)
      then have "sidxs_ok (sidxIndexEntry (ID e) (Data e) (index_set (segsize (active c)) e (appended c rs e k)))
          (V(ID e \<mapsto> (e\<lparr>CRC := checksum e\<rparr>, next_rev V e)))"
        by (rule sidxs_index [where d = "Data e"]) (use e in \<open>simp_all add: sidxIndexEntry_def index_set_def appended_def\<close>)
      then show ?thesis using e(1) h(2) by (simp add: store_step_plain)
    qed
  qed (simp_all add: sidxIndexEntry_def index_set_def appended_def)
  then show ?thesis by simp
qed

lemma holds_update:
  assumes h: "coll_holds c srs rs" "V = stored_of (decs c) (all_recs srs rs) Map.empty" and r: "rec_ok (Plain e)"
    and e: "Op e = OpUpdate" "next_rev V e = Rev e" "ID e \<le> idSeq c" "data_ok (Data e)"
  shows "coll_holds (publishCommit e (sidxUpdateEntry (ID e) (Data e)
    (index_set (segsize (active c)) e (appended c rs e k)))) srs (rs @ [Plain e])"
proof -
  have "coll_holds (sidxUpdateEntry (ID e) (Data e) (index_set (segsize (active c)) e (appended c rs e k))) srs (rs @ [Plain e])"
  proof (rule holds_commit [OF h(1) r])
    show "ID (fst (rec_view (Plain e))) \<le> idSeq c" using e(3) by (simp add: rec_view_def)
    show "ientries (index (sidxUpdateEntry (ID e) (Data e) (index_set (segsize (active c)) e (appended c rs e k))))
      = apply_scanned (decs c) (segpath (active c)) (segsize (active c), rec_view (Plain e)) (ientries (index c))"
      using set_is_apply [OF h, of e] e(1,2)
      by (simp add: sidxUpdateEntry_def index_set_def appended_def loc_of_def)
    show "sidxs_ok (sidxUpdateEntry (ID e) (Data e) (index_set (segsize (active c)) e (appended c rs e k)))
        (store_step (decs c) (rec_view (Plain e)) (stored_of (decs c) (all_recs srs rs) Map.empty))"
    proof -
      have "sidxs_ok c V" using h by (simp add: coll_holds_def)
      then have "sidxs_ok (sidxUpdateEntry (ID e) (Data e) (index_set (segsize (active c)) e (appended c rs e k)))
          (V(ID e \<mapsto> (e\<lparr>CRC := checksum e\<rparr>, next_rev V e)))"
        by (rule sidxs_update [where d = "Data e"]) (use e in \<open>simp_all add: sidxUpdateEntry_def index_set_def appended_def\<close>)
      then show ?thesis using e(1) h(2) by (simp add: store_step_plain)
    qed
  qed (simp_all add: sidxUpdateEntry_def index_set_def appended_def)
  then show ?thesis by simp
qed

lemma holds_delete:
  assumes h: "coll_holds c srs rs" and r: "rec_ok (Plain e)" and e: "Op e = OpDelete" "ID e \<le> idSeq c"
  shows "coll_holds (publishCommit e (sidxRemoveEntry (ID e)
    ((appended c rs e k)\<lparr>index := idxDelete (index (appended c rs e k)) (ID e)\<rparr>))) srs (rs @ [Plain e])"
proof -
  let ?V = "stored_of (decs c) (all_recs srs rs) Map.empty"
  let ?c = "sidxRemoveEntry (ID e) ((appended c rs e k)\<lparr>index := idxDelete (index (appended c rs e k)) (ID e)\<rparr>)"
  have "coll_holds ?c srs (rs @ [Plain e])"
  proof (rule holds_commit [OF h r])
    show "ID (fst (rec_view (Plain e))) \<le> idSeq c" using e(2) by (simp add: rec_view_def)
    show "ientries (index ?c) =
        apply_scanned (decs c) (segpath (active c)) (segsize (active c), rec_view (Plain e)) (ientries (index c))"
      using delete_is_apply [OF e(1)] by (simp add: sidxRemoveEntry_def appended_def)
    have "sidxs_ok c ?V" using h by (simp add: coll_holds_def)
    then have "sidxs_ok ?c (?V(ID e := None))"
      by (rule sidxs_remove) (simp add: sidxRemoveEntry_def appended_def)
    then show "sidxs_ok ?c (store_step (decs c) (rec_view (Plain e)) ?V)"
      using e(1) by (simp add: store_step_plain OpDelete_def OpInsert_def OpUpdate_def)
  qed (simp_all add: sidxRemoveEntry_def appended_def)
  then show ?thesis by simp
qed

lemma index_set_fields [simp]:
  "fenced (index_set off e c) = fenced c" "segSeq (index_set off e c) = segSeq c" "decs (index_set off e c) = decs c"
  "fenced (sidxIndexEntry i d c) = fenced c" "segSeq (sidxIndexEntry i d c) = segSeq c" "decs (sidxIndexEntry i d c) = decs c"
  "fenced (sidxUpdateEntry i d c) = fenced c" "segSeq (sidxUpdateEntry i d c) = segSeq c" "decs (sidxUpdateEntry i d c) = decs c"
  "fenced (sidxRemoveEntry i c) = fenced c" "segSeq (sidxRemoveEntry i c) = segSeq c" "decs (sidxRemoveEntry i c) = decs c"
  by (simp_all add: index_set_def sidxIndexEntry_def sidxUpdateEntry_def sidxRemoveEntry_def)

lemma entry_fields [simp]:
  "ID (NewInsert ts i d) = i" "Op (NewInsert ts i d) = OpInsert" "Data (NewInsert ts i d) = d" "Epoch (NewInsert ts i d) = 0"
  "ID (NewUpdate ts i d) = i" "Op (NewUpdate ts i d) = OpUpdate" "Data (NewUpdate ts i d) = d" "Epoch (NewUpdate ts i d) = 0"
  "ID (NewDelete ts i) = i" "Op (NewDelete ts i) = OpDelete" "Data (NewDelete ts i) = None" "Epoch (NewDelete ts i) = 0"
  "Rev (NewDelete ts i) = 0" "ExpiresAt (NewDelete ts i) = 0" "Rev (NewInsert ts i d) = 0" "Rev (NewUpdate ts i d) = 0"
  by (simp_all add: NewInsert_def NewUpdate_def NewDelete_def empty_entry_def)

lemma op_utf8 [simp]: "valid_utf8 OpInsert" "valid_utf8 OpUpdate" "valid_utf8 OpDelete"
  by (simp_all add: OpInsert_def OpUpdate_def OpDelete_def valid_utf8_ascii)

text \<open>The timestamp the next write takes.\<close>

definition next_ts :: "collection \<Rightarrow> time" where
  "next_ts c = max (clockFloor c) (wall c (ticks c))"

definition insert_entry :: "collection \<Rightarrow> gmap option \<Rightarrow> int \<Rightarrow> entry" where
  "insert_entry c data ex = (NewInsert (next_ts c) (Suc (idSeq c)) data)\<lparr>Rev := 1, ExpiresAt := ex\<rparr>"

definition stored_entry :: "entry \<Rightarrow> entry \<times> nat" where
  "stored_entry e = (e\<lparr>CRC := checksum e\<rparr>, Rev e)"

text \<open>The tail of every write of a fresh record, and of a new version: the check of the unique indexes,
  the append and the sync, the indexes, the steps after the commit.\<close>

lemma write_fresh:
  assumes h: "coll_holds c srs rs" and f: "fenced c = None" and n: "Suc (segSeq c) < 2 ^ 64"
    and V: "V = stored_of (decs c) (all_recs srs rs) Map.empty"
    and e: "writable e" "Op e = OpInsert" "V (ID e) = None" "Rev e = 1" "ID e \<le> idSeq c"
  shows "outcome_ok V (V(ID e \<mapsto> stored_entry e)) v (case sidxCheckUnique (ID e) data c of
      (Some err, d) \<Rightarrow> (Inl err, d)
    | (None, d) \<Rightarrow> (case append_commit opn e d of
        (Inl err, d) \<Rightarrow> (Inl err, d)
      | (Inr off, d) \<Rightarrow> (case afterCommit opn ev
            (needRotate (publishCommit e (sidxIndexEntry (ID e) (Data e) (index_set off e d))))
            (publishCommit e (sidxIndexEntry (ID e) (Data e) (index_set off e d))) of
          (post, d) \<Rightarrow> (Inr (v, post), d))))"
proof -
  obtain err t fl where cu: "sidxCheckUnique (ID e) data c = (err, c\<lparr>ticks := t, clockFloor := fl\<rparr>)"
    using sidxCheckUnique_eq [of "ID e" data c] by (metis prod.collapse)
  let ?c = "c\<lparr>ticks := t, clockFloor := fl\<rparr>"
  have h2: "coll_holds ?c srs rs" and V2: "V = stored_of (decs ?c) (all_recs srs rs) Map.empty" using h V by simp_all
  have V': "V(ID e \<mapsto> stored_entry e) = store_step (decs ?c) (rec_view (Plain e)) V"
    using e by (simp add: store_step_plain next_rev_def u64_def stored_entry_def)
  have d: "data_ok (Data e)" using e(1) by (simp add: writable_def)
  show ?thesis
  proof (cases err)
    case None
    then show ?thesis unfolding cu
      using commit_step [OF h2 _ _ e(1) V2 V', where v = v and opn = opn and ev = ev
          and upd = "\<lambda>off d. publishCommit e (sidxIndexEntry (ID e) (Data e) (index_set off e d))"]
        holds_insert [OF h2 V2 _ e(2,3,4) _ d] e(5) f n by simp
  next
    case (Some x)
    have "coll_inv ?c V" using h2 V2 unfolding coll_inv_def by blast
    then show ?thesis unfolding cu Some by (simp add: refused)
  qed
qed

lemma write_version:
  assumes h: "coll_holds c srs rs" and f: "fenced c = None" and n: "Suc (segSeq c) < 2 ^ 64"
    and V: "V = stored_of (decs c) (all_recs srs rs) Map.empty"
    and e: "writable e" "Op e = OpUpdate" "V (ID e) = Some (old, r)" "Rev e = u64 (r + 1)"
  shows "outcome_ok V (V(ID e \<mapsto> stored_entry e)) v (case sidxCheckUnique (ID e) data c of
      (Some err, d) \<Rightarrow> (Inl err, d)
    | (None, d) \<Rightarrow> (case append_commit opn e d of
        (Inl err, d) \<Rightarrow> (Inl err, d)
      | (Inr off, d) \<Rightarrow> (case afterCommit opn ev
            (needRotate (publishCommit e (sidxUpdateEntry (ID e) (Data e) (index_set off e d))))
            (publishCommit e (sidxUpdateEntry (ID e) (Data e) (index_set off e d))) of
          (post, d) \<Rightarrow> (Inr (v, post), d))))"
proof -
  obtain err t fl where cu: "sidxCheckUnique (ID e) data c = (err, c\<lparr>ticks := t, clockFloor := fl\<rparr>)"
    using sidxCheckUnique_eq [of "ID e" data c] by (metis prod.collapse)
  let ?c = "c\<lparr>ticks := t, clockFloor := fl\<rparr>"
  have h2: "coll_holds ?c srs rs" and V2: "V = stored_of (decs ?c) (all_recs srs rs) Map.empty" using h V by simp_all
  have nr: "next_rev V e = Rev e" using e(3,4) by (simp add: next_rev_def)
  have V': "V(ID e \<mapsto> stored_entry e) = store_step (decs ?c) (rec_view (Plain e)) V"
    using e(2) nr by (simp add: store_step_plain stored_entry_def)
  have d: "data_ok (Data e)" using e(1) by (simp add: writable_def)
  have le: "ID e \<le> idSeq c" using fresh_id [OF h V, of "ID e"] e(3) by (cases "idSeq c < ID e") auto
  show ?thesis
  proof (cases err)
    case None
    then show ?thesis unfolding cu
      using commit_step [OF h2 _ _ e(1) V2 V', where v = v and opn = opn and ev = ev
          and upd = "\<lambda>off d. publishCommit e (sidxUpdateEntry (ID e) (Data e) (index_set off e d))"]
        holds_update [OF h2 V2 _ e(2) nr _ d] le f n by simp
  next
    case (Some x)
    have "coll_inv ?c V" using h2 V2 unfolding coll_inv_def by blast
    then show ?thesis unfolding cu Some by (simp add: refused)
  qed
qed

lemma insert_contract:
  assumes i: "coll_inv c V" and f: "fenced c = None" and rm: "room c" and d: "data_ok data" "is_i64 ex"
  shows "outcome_ok V (V(Suc (idSeq c) \<mapsto> stored_entry (insert_entry c data ex))) (Suc (idSeq c), next_ts c) (insert_c data ex c)"
proof -
  let ?i = "Suc (idSeq c)"
  let ?e = "insert_entry c data ex"
  obtain srs rs where h: "coll_holds c srs rs" and V: "V = stored_of (decs c) (all_recs srs rs) Map.empty"
    using i by (auto simp: coll_inv_def)
  have u: "u64 (Suc (idSeq c)) = ?i" "is_u64 ?i" using rm by (simp_all add: room_def u64_def is_u64_def)
  define c1 where "c1 = c\<lparr>idSeq := ?i, ticks := Suc (ticks c), clockFloor := next_ts c\<rparr>"
  have h1: "coll_holds c1 srs rs" using coll_holds_idSeq [OF h _ u(2)] by (simp add: c1_def)
  have V1: "V = stored_of (decs c1) (all_recs srs rs) Map.empty" using V by (simp add: c1_def)
  have e: "ID ?e = ?i" "Op ?e = OpInsert" "Rev ?e = 1" "Data ?e = data" by (simp_all add: insert_entry_def)
  have w: "writable ?e" using d u by (simp add: writable_def insert_entry_def is_u64_def)
  have "insert_c data ex c = (case checkQuotaLocked c1 1 (entryQuotaBytes c1 ?e) of
      Some err \<Rightarrow> (Inl err, c1)
    | None \<Rightarrow> (case sidxCheckUnique (ID ?e) data c1 of
        (Some err, d) \<Rightarrow> (Inl err, d)
      | (None, d) \<Rightarrow> (case append_commit ''insert'' ?e d of
          (Inl err, d) \<Rightarrow> (Inl err, d)
        | (Inr off, d) \<Rightarrow> (case afterCommit ''insert'' \<lparr>wOp = OpInsert, wID = ?i, wData = data, wTs = next_ts c\<rparr>
              (needRotate (publishCommit ?e (sidxIndexEntry (ID ?e) (Data ?e) (index_set off ?e d))))
              (publishCommit ?e (sidxIndexEntry (ID ?e) (Data ?e) (index_set off ?e d))) of
            (post, d) \<Rightarrow> (Inr ((?i, next_ts c), post), d)))))"
    using f by (simp add: insert_c_def now_eq u c1_def next_ts_def insert_entry_def checkFenced_def Let_def
        cong: case_congs)
  moreover have "coll_inv c1 V" using h1 V1 unfolding coll_inv_def by blast
  moreover have "fenced c1 = None" "Suc (segSeq c1) < 2 ^ 64" "V (ID ?e) = None" "ID ?e \<le> idSeq c1"
    using f rm e(1) fresh_id [OF h V, of ?i] by (simp_all add: c1_def room_def)
  ultimately show ?thesis
    using write_fresh [OF h1 _ _ V1 w e(2)] e(1,3) by (simp add: refused split: option.splits)
qed

section \<open>Updates\<close>

lemma rec_view_ok: "rec_ok r \<Longrightarrow> data_ok (Data (fst (rec_view r))) \<and> is_i64 (ExpiresAt (fst (rec_view r)))"
  by (cases r) (auto simp: rec_ok_def rec_view_def entry_ok_def stamped_ok_def entry_of_stamped_def)

lemma holds_rec_ok: "coll_holds c srs rs \<Longrightarrow> \<forall>r\<in>set (all_recs srs rs). rec_ok r"
  by (auto simp: coll_holds_def segs_ok_def segs_hold_def seg_holds_def list_all_iff)

lemma stored_ok:
  assumes "coll_holds c srs rs" "V = stored_of (decs c) (all_recs srs rs) Map.empty" "V i = Some (e, r)"
  shows "data_ok (Data e)" "is_i64 (ExpiresAt e)" "ID e = i"
proof -
  have "stored_of (decs c) (all_recs srs rs) Map.empty i = Some (e, r)" using assms by simp
  then have "data_ok (Data e) \<and> is_i64 (ExpiresAt e) \<and> ID e = i"
    by (rule stored_all [where P = "\<lambda>i e. data_ok (Data e) \<and> is_i64 (ExpiresAt e) \<and> ID e = i", rotated 2])
      (use holds_rec_ok [OF assms(1)] rec_view_ok in \<open>auto simp del: set_append\<close>)
  then show "data_ok (Data e)" "is_i64 (ExpiresAt e)" "ID e = i" by simp_all
qed

lemma index_lookup:
  assumes "coll_holds c srs rs" "V = stored_of (decs c) (all_recs srs rs) Map.empty"
  shows "agree_at (files c) (segpath ` set (all_segs c)) i (idxGet (index c) i) (V i)"
  using coll_agrees [OF assms(1)] unfolding assms(2) agrees_def idxGet_def by blast

text \<open>The key a record keeps when an update does not mention it.\<close>

definition keep_key :: "(entry \<times> nat) option \<Rightarrow> gmap option \<Rightarrow> gmap option" where
  "keep_key old data = (case old of
     None \<Rightarrow> data
   | Some (e, _) \<Rightarrow> (case field_of KeyField (Data e) of Some (JStr k) \<Rightarrow> stampKey data k | _ \<Rightarrow> data))"

definition update_data :: "collection \<Rightarrow> stored \<Rightarrow> nat \<Rightarrow> gmap option \<Rightarrow> gmap option" where
  "update_data c V rid data =
     (if has_key data \<or> map_of (sidxMap c) KeyField = None then data else keep_key (V rid) data)"

lemma preserve_spec:
  assumes s: "sidxs_ok c V"
  shows "preserveReservedLocked c rid data = update_data c V rid data"
proof (cases "has_key data \<or> map_of (sidxMap c) KeyField = None")
  case True
  then show ?thesis by (auto simp: preserveReservedLocked_def update_data_def)
next
  case False
  then obtain s where s: "map_of (sidxMap c) KeyField = Some s" "\<not> has_key data" by auto
  then have so: "sfield s = KeyField" "sidx_ok s (field_view s V)" using assms(1) by (auto simp: sidxs_ok_def)
  have "map_of (reverse s) rid = map_option toIndexKey (field_view s V rid)" by (rule sidx_reverse [OF so(2)])
  then show ?thesis
    using s so(1)
    by (simp add: preserveReservedLocked_def update_data_def keep_key_def field_view_def rec_value_def accepts_code toIndexKey_def
        split: option.splits json.splits)
qed

lemma glen_stamp: "data_ok data \<Longrightarrow> \<not> has_key data \<Longrightarrow> glen (stampKey data k) \<noteq> glen data"
  by (cases data)
    (auto simp: has_key_def field_of_def glen_def stampKey_def length_om_ins data_ok_def map_of_eq_None_iff)

lemma set_om_ins: "set (om_ins k v m) \<subseteq> insert (k, v) (set m)"
  by (induction k v m rule: om_ins.induct) auto

lemma foldr_max: "Suc (foldr max xs 0) < n \<longleftrightarrow> 1 < n \<and> (\<forall>x\<in>set xs. Suc x < n)"
  by (induction xs) auto

lemma stamp_ok:
  assumes "data_ok data" "valid_utf8 k"
  shows "data_ok (stampKey data k)"
proof -
  have u: "valid_utf8 KeyField" by (simp add: KeyField_def valid_utf8_ascii)
  obtain m where m: "stampKey data k = Some (om_ins KeyField (JStr k) m)" "om_ok m"
    "list_all (\<lambda>kv. valid_utf8 (fst kv) \<and> gval_ok (snd kv)) m" "\<forall>kv\<in>set m. Suc (nesting (snd kv)) < max_nesting"
  proof (cases data)
    case None
    then show ?thesis using that [of "[]"] by (simp add: stampKey_def om_ok_def)
  next
    case (Some m)
    then show ?thesis
      using that [of m] assms(1) unfolding data_ok_def gval_ok.simps nesting.simps
      by (auto simp: stampKey_def foldr_max)
  qed
  let ?m = "om_ins KeyField (JStr k) m"
  have mem: "kv = (KeyField, JStr k) \<or> kv \<in> set m" if "kv \<in> set ?m" for kv
    using set_om_ins [of KeyField "JStr k" m] that by blast
  have "list_all (\<lambda>kv. valid_utf8 (fst kv) \<and> gval_ok (snd kv)) ?m"
    unfolding list_all_iff using mem m(3) assms(2) u by (fastforce simp: list_all_iff)
  moreover have "\<forall>kv\<in>set ?m. Suc (nesting (snd kv)) < max_nesting"
    using mem m(4) by (fastforce simp: max_nesting_def)
  moreover have "?m \<noteq> []" by (cases m) (auto split: if_splits)
  ultimately show ?thesis using m(2) foldr_max [of "map (\<lambda>kv. nesting (snd kv)) ?m" max_nesting]
    by (simp add: data_ok_def m(1)) (simp add: max_nesting_def)
qed

lemma keep_key_cases: "keep_key old data = data \<or> (\<exists>e r k. old = Some (e, r) \<and> field_of KeyField (Data e) = Some (JStr k)
    \<and> keep_key old data = stampKey data k)"
  by (auto simp: keep_key_def split: option.splits json.splits)

lemma update_data_ok:
  assumes h: "coll_holds c srs rs" "V = stored_of (decs c) (all_recs srs rs) Map.empty" and d: "data_ok data"
  shows "data_ok (update_data c V rid data)"
    "glen (update_data c V rid data) = glen data \<Longrightarrow> update_data c V rid data = data"
proof -
  have "data_ok (update_data c V rid data) \<and> (glen (update_data c V rid data) = glen data \<longrightarrow> update_data c V rid data = data)"
  proof (cases "update_data c V rid data = data")
    case False
    then obtain e r k where k: "V rid = Some (e, r)" "field_of KeyField (Data e) = Some (JStr k)"
      "update_data c V rid data = stampKey data k" "\<not> has_key data"
      using keep_key_cases [of "V rid" data] by (auto simp: update_data_def split: if_splits)
    have "valid_utf8 k" using data_field_ok [OF stored_ok(1) [OF h k(1)] k(2)] by simp
    then show ?thesis using stamp_ok [OF d] glen_stamp [OF d k(4)] k(3) by simp
  qed (use d in simp)
  then show "data_ok (update_data c V rid data)"
    "glen (update_data c V rid data) = glen data \<Longrightarrow> update_data c V rid data = data"
    by auto
qed

definition update_entry :: "collection \<Rightarrow> stored \<Rightarrow> nat \<Rightarrow> gmap option \<Rightarrow> int \<Rightarrow> bool \<Rightarrow> entry \<times> nat \<Rightarrow> entry" where
  "update_entry c V rid data ex keep old = (NewUpdate (next_ts c) rid (update_data c V rid data))
     \<lparr>Rev := u64 (snd old + 1), ExpiresAt := (if keep then ExpiresAt (fst old) else ex)\<rparr>"

lemma update_missing:
  assumes "coll_inv c V" "fenced c = None" "V rid = None"
  shows "\<exists>c'. update_c rid data ex keep c = (Inl (ErrNotFound rid), c') \<and> coll_inv c' V \<and> files c' = files c"
proof -
  obtain srs rs where h: "coll_holds c srs rs" "V = stored_of (decs c) (all_recs srs rs) Map.empty"
    using assms(1) by (auto simp: coll_inv_def)
  have "idxGet (index c) rid = None" using index_some_iff [OF h, of rid] assms(3) by simp
  then show ?thesis using assms by (simp add: update_c_def now_eq checkFenced_def)
qed

lemma update_contract:
  assumes i: "coll_inv c V" and f: "fenced c = None" and rm: "room c" and d: "data_ok data" "is_i64 ex"
    and o: "V rid = Some (old, r)"
  shows "outcome_ok V (V(rid \<mapsto> stored_entry (update_entry c V rid data ex keep (old, r)))) (next_ts c) (update_c rid data ex keep c)"
proof -
  let ?e = "update_entry c V rid data ex keep (old, r)"
  obtain srs rs where h: "coll_holds c srs rs" and V: "V = stored_of (decs c) (all_recs srs rs) Map.empty"
    using i by (auto simp: coll_inv_def)
  define c1 where "c1 = c\<lparr>ticks := Suc (ticks c), clockFloor := next_ts c\<rparr>"
  have h1: "coll_holds c1 srs rs" and V1: "V = stored_of (decs c1) (all_recs srs rs) Map.empty"
    using h V by (simp_all add: c1_def)
  have e: "ID ?e = rid" "Op ?e = OpUpdate" "Rev ?e = u64 (r + 1)" "Data ?e = update_data c V rid data"
    by (simp_all add: update_entry_def)
  have "rid < 2 ^ 64" using fresh_id [OF h V, of rid] o rm by (cases "idSeq c < rid") (auto simp: room_def)
  then have w: "writable ?e"
    using update_data_ok(1) [OF h V d(1)] d stored_ok(2) [OF h V o] e by (simp add: writable_def update_entry_def is_u64_def u64_def)
  obtain loc where loc: "idxGet (index c) rid = Some loc" "IRev loc = r" "IExpiresAt loc = ExpiresAt old"
    using index_lookup [OF h V, of rid] o by (auto simp: agree_at_def located_def split: option.splits)
  have pr: "preserveReservedLocked c1 rid data = update_data c V rid data"
    using preserve_spec [of c1 V rid data] h1 V by (simp add: coll_holds_def c1_def update_data_def)
  have "update_c rid data ex keep c = (case sidxCheckUnique (ID ?e) data c1 of
        (Some err, d) \<Rightarrow> (Inl err, d)
      | (None, d) \<Rightarrow> (case append_commit ''update'' ?e d of
          (Inl err, d) \<Rightarrow> (Inl err, d)
        | (Inr off, d) \<Rightarrow> (case afterCommit ''update''
              \<lparr>wOp = OpUpdate, wID = rid, wData = update_data c V rid data, wTs = next_ts c\<rparr>
              (needRotate (publishCommit ?e (sidxUpdateEntry (ID ?e) (Data ?e) (index_set off ?e d))))
              (publishCommit ?e (sidxUpdateEntry (ID ?e) (Data ?e) (index_set off ?e d))) of
            (post, d) \<Rightarrow> (Inr (next_ts c, post), d))))"
    using f loc pr update_data_ok(2) [OF h V d(1), of rid]
    by (cases "glen (update_data c V rid data) = glen data") (simp_all add: update_c_def now_eq c1_def next_ts_def
        update_entry_def checkFenced_def Let_def cong: case_congs)
  moreover have "fenced c1 = None" "Suc (segSeq c1) < 2 ^ 64" "V (ID ?e) = Some (old, r)"
    using f rm e(1) o by (simp_all add: c1_def room_def)
  note write_version [OF h1 this(1,2) V1 w e(2) this(3) e(3), where data = data and opn = "''update''" and v = "next_ts c"]
  ultimately show ?thesis by (simp add: e(1))
qed

section \<open>Deletes\<close>

lemma delete_missing:
  assumes "coll_inv c V" "fenced c = None" "V rid = None"
  shows "\<exists>c'. Delete rid c = (Inl (ErrNotFound rid), c') \<and> coll_inv c' V \<and> files c' = files c"
proof -
  obtain srs rs where h: "coll_holds c srs rs" "V = stored_of (decs c) (all_recs srs rs) Map.empty"
    using assms(1) by (auto simp: coll_inv_def)
  have "idxGet (index c) rid = None" using index_some_iff [OF h, of rid] assms(3) by simp
  then show ?thesis using assms by (simp add: Delete_def now_eq checkFenced_def Let_def)
qed

lemma delete_contract:
  assumes i: "coll_inv c V" and f: "fenced c = None" and rm: "room c" and o: "V rid \<noteq> None"
  shows "outcome_ok V (V(rid := None)) () (Delete rid c)"
proof -
  let ?e = "NewDelete (next_ts c) rid"
  obtain srs rs where h: "coll_holds c srs rs" and V: "V = stored_of (decs c) (all_recs srs rs) Map.empty"
    using i by (auto simp: coll_inv_def)
  define c1 where "c1 = c\<lparr>ticks := Suc (ticks c), clockFloor := next_ts c\<rparr>"
  have h1: "coll_holds c1 srs rs" using h by (simp add: c1_def)
  have V1: "V = stored_of (decs c1) (all_recs srs rs) Map.empty" using V by (simp add: c1_def)
  let ?upd = "\<lambda>off d. publishCommit ?e (sidxRemoveEntry (ID ?e) (d\<lparr>index := idxDelete (index d) (ID ?e)\<rparr>))"
  have le: "rid \<le> idSeq c" using fresh_id [OF h V, of rid] o by (cases "idSeq c < rid") auto
  then have "rid < 2 ^ 64" using rm by (simp add: room_def)
  then have w: "writable ?e" by (simp add: writable_def is_u64_def data_ok_def is_i64_def)
  have V': "V(rid := None) = store_step (decs c1) (rec_view (Plain ?e)) V"
    by (simp add: store_step_plain OpDelete_def OpInsert_def OpUpdate_def)
  have commit: "outcome_ok V (V(rid := None)) () (case append_commit ''delete'' ?e c1 of
      (Inl err, c) \<Rightarrow> (Inl err, c)
    | (Inr off, c) \<Rightarrow> (case afterCommit ''delete'' ev (needRotate (?upd off c)) (?upd off c) of
        (post, c) \<Rightarrow> (Inr ((), post), c)))" for ev
  proof (rule commit_step [OF h1 _ _ w V1 V'])
    show "coll_holds (?upd (segsize (active c1)) (appended c1 rs ?e k)) srs (rs @ [Plain ?e])" if "rec_ok (Plain ?e)" for k
      by (rule holds_delete [OF h1 that]) (use le in \<open>simp_all add: c1_def\<close>)
  qed (use f rm in \<open>simp_all add: c1_def room_def\<close>)
  obtain loc where loc: "idxGet (index c) rid = Some loc"
    using index_some_iff [OF h V, of rid] o by auto
  have "Delete rid c = (case append_commit ''delete'' ?e c1 of
          (Inl err, d) \<Rightarrow> (Inl err, d)
        | (Inr off, d) \<Rightarrow> (case afterCommit ''delete''
              \<lparr>wOp = OpDelete, wID = rid, wData = None, wTs = next_ts c\<rparr>
              (needRotate (?upd off d)) (?upd off d) of (post, d) \<Rightarrow> (Inr ((), post), d)))"
    using f loc by (simp add: Delete_def now_eq c1_def next_ts_def checkFenced_def Let_def cong: case_congs)
  then show ?thesis using commit by simp
qed

section \<open>Reads\<close>

text \<open>What a reader sees of the stored versions at time \<open>t\<close>.\<close>

definition visible_at :: "stored \<Rightarrow> int \<Rightarrow> stored" where
  "visible_at V t i = (case V i of
     None \<Rightarrow> None
   | Some (e, r) \<Rightarrow> if expired (ExpiresAt e) t then None else Some (e, r))"

definition record_of :: "nat \<Rightarrow> entry \<times> nat \<Rightarrow> Record" where
  "record_of i x = (case x of (e, r) \<Rightarrow>
     \<lparr>rID = i, rKey = string_key (Data e), rRev = r, rTs = Ts e, rData = Data e\<rparr>)"

lemma find_segment:
  assumes "p \<in> segpath ` set (all_segs c)"
  obtains s where "segmentByPathLocked c p = Some s" "segpath s = p"
proof -
  obtain s where "List.find (\<lambda>s. segpath s = p) (all_segs c) = Some s"
    using assms by (cases "List.find (\<lambda>s. segpath s = p) (all_segs c)") (auto simp: find_None_iff)
  then show thesis using that [of s] by (auto simp: segmentByPathLocked_def all_segs_def find_Some_iff)
qed

lemma get_contract:
  assumes i: "coll_inv c V" and f: "fenced c = None"
  shows "\<exists>c'. Get rid c = (case visible_at V (next_ts c) rid of
      None \<Rightarrow> Inl (ErrNotFound rid)
    | Some x \<Rightarrow> Inr (record_of rid x), c') \<and> coll_inv c' V \<and> fenced c' = None"
proof -
  obtain srs rs where h: "coll_holds c srs rs" and V: "V = stored_of (decs c) (all_recs srs rs) Map.empty"
    using i by (auto simp: coll_inv_def)
  let ?c = "c\<lparr>ticks := Suc (ticks c), clockFloor := next_ts c\<rparr>"
  have i': "coll_inv ?c V" using i by simp
  note d = Get_def getStored_def readLocated_def checkFenced_def now_eq visible_at_def record_of_def Let_def
  show ?thesis
  proof (cases "V rid")
    case None
    then have "idxGet (index c) rid = None" using index_some_iff [OF h V] by simp
    then show ?thesis using None f i' by (simp add: d flip: next_ts_def)
  next
    case (Some x)
    obtain e r where x: "x = (e, r)" by force
    have "\<exists>loc. idxGet (index c) rid = Some loc \<and> ID e = rid \<and> located (files c) (segpath ` set (all_segs c)) loc (e, r)"
      using index_lookup [OF h V, of rid] Some x by (auto simp: agree_at_def split: option.splits)
    then obtain loc where loc: "idxGet (index c) rid = Some loc" "ID e = rid" "SegmentPath loc \<in> segpath ` set (all_segs c)"
      "IExpiresAt loc = ExpiresAt e" "IRev loc = r"
      and rd: "\<And>s. segpath s = SegmentPath loc \<Longrightarrow> ReadAt (files c) s (Offset loc) = Inr e"
      unfolding located_def by auto
    obtain s where s: "segmentByPathLocked c (SegmentPath loc) = Some s" "segpath s = SegmentPath loc"
      by (rule find_segment [OF loc(3)])
    show ?thesis
      using Some x f i' loc s rd [OF s(2)] by (simp add: d flip: next_ts_def)
  qed
qed

section \<open>Keys\<close>

text \<open>The records that carry a key, and the one that carries it at time \<open>t\<close>.\<close>

definition carries :: "stored \<Rightarrow> string \<Rightarrow> nat \<Rightarrow> bool" where
  "carries V key i \<longleftrightarrow> (\<exists>e r. V i = Some (e, r) \<and> field_of KeyField (Data e) = Some (JStr key))"

definition live_holder :: "stored \<Rightarrow> string \<Rightarrow> int \<Rightarrow> nat \<Rightarrow> bool" where
  "live_holder V key t i \<longleftrightarrow> carries V key i \<and> visible_at V t i \<noteq> None"

lemma field_view_key:
  "sfield s = KeyField \<Longrightarrow> (\<exists>v. field_view s V i = Some v \<and> toIndexKey v = key) \<longleftrightarrow> carries V key i"
  by (auto simp: field_view_def rec_value_def accepts_code carries_def toIndexKey_def split: option.splits json.splits)

lemma key_index:
  assumes "sidxs_ok c V" "map_of (sidxMap c) KeyField = Some s"
  shows "i \<in> set (Lookup s key) \<longleftrightarrow> carries V key i" "distinct (Lookup s key)"
proof -
  have s: "sfield s = KeyField" "sidx_ok s (field_view s V)" using assms by (auto simp: sidxs_ok_def)
  show "i \<in> set (Lookup s key) \<longleftrightarrow> carries V key i" using Lookup_ids [OF s(2)] field_view_key [OF s(1)] by simp
  have "om_ok (bucket_of s key)"
    using s(2) by (auto simp: sidx_ok_def sidx_buckets_ok_def bucket_of_def om_ok_def split: option.splits)
  then show "distinct (Lookup s key)" by (simp add: Lookup_def om_ok_def strict_sorted_iff)
qed

text \<open>The keyed operations refuse a collection in which two records carry one key.\<close>

lemma keyConflict_None:
  assumes s: "sidxs_ok c V" "map_of (sidxMap c) KeyField = Some s"
  shows "keyConflict c = None \<longleftrightarrow> (\<forall>key i j. carries V key i \<and> carries V key j \<longrightarrow> i = j)"
proof -
  have ok: "sidx_dups_ok s" using s by (auto simp: sidxs_ok_def sidx_ok_def)
  have "keyConflict c = None \<longleftrightarrow> dups s = []" by (simp add: keyConflict_def s(2) firstDuplicate_def Let_def)
  also have "\<dots> \<longleftrightarrow> (\<forall>k. map_of (dups s) k = None)" by (cases "dups s") auto
  also have "\<dots> \<longleftrightarrow> (\<forall>k. length (Lookup s k) \<le> 1)"
  proof -
    have "map_of (dups s) k = None \<longleftrightarrow> length (Lookup s k) \<le> 1" for k
      using ok unfolding sidx_dups_ok_def Lookup_def length_map by (meson not_le)
    then show ?thesis by simp
  qed
  also have "\<dots> \<longleftrightarrow> (\<forall>key i j. carries V key i \<and> carries V key j \<longrightarrow> i = j)"
  proof -
    have "length (Lookup s k) \<le> 1 \<longleftrightarrow> (\<forall>i j. carries V k i \<and> carries V k j \<longrightarrow> i = j)" for k
    proof -
      have "length (Lookup s k) = card (set (Lookup s k))" using key_index(2) [OF s] by (simp add: distinct_card)
      then show ?thesis using key_index(1) [OF s, of _ k] by (auto simp: card_le_Suc0_iff_eq)
    qed
    then show ?thesis by blast
  qed
  finally show ?thesis .
qed

lemma liveIDs_eq:
  assumes h: "coll_holds c srs rs" "V = stored_of (decs c) (all_recs srs rs) Map.empty"
  shows "liveIDs c ids t = List.filter (\<lambda>i. visible_at V t i \<noteq> None) ids"
proof -
  have "(case idxGet (index c) i of None \<Rightarrow> False | Some loc \<Rightarrow> \<not> expired (IExpiresAt loc) t) \<longleftrightarrow> visible_at V t i \<noteq> None" for i
    using index_lookup [OF h, of i] by (auto simp: agree_at_def located_def visible_at_def split: option.splits)
  then show ?thesis by (simp add: liveIDs_def)
qed

text \<open>Resolving a key finds its live holder, if it has one.\<close>

lemma indexLookup_key:
  assumes i: "coll_inv c V" and k: "keyConflict c = None" and m: "map_of (sidxMap c) KeyField \<noteq> None"
  obtains (found) i where "indexLookup KeyField key c = (Some [i], c\<lparr>ticks := Suc (ticks c), clockFloor := next_ts c\<rparr>)"
      "live_holder V key (next_ts c) i"
  | (absent) "indexLookup KeyField key c = (Some [], c\<lparr>ticks := Suc (ticks c), clockFloor := next_ts c\<rparr>)"
      "\<And>i. \<not> live_holder V key (next_ts c) i"
proof -
  obtain srs rs where h: "coll_holds c srs rs" and V: "V = stored_of (decs c) (all_recs srs rs) Map.empty"
    using i by (auto simp: coll_inv_def)
  obtain s where s: "map_of (sidxMap c) KeyField = Some s" using m by auto
  have so: "sidxs_ok c V" using h V by (simp add: coll_holds_def)
  let ?c = "c\<lparr>ticks := Suc (ticks c), clockFloor := next_ts c\<rparr>"
  define L where "L = List.filter (\<lambda>i. visible_at V (next_ts c) i \<noteq> None) (Lookup s key)"
  have "liveIDs ?c ids t = List.filter (\<lambda>i. visible_at V t i \<noteq> None) ids" for ids t
    using liveIDs_eq [of ?c srs rs V] h V by simp
  then have lk: "indexLookup KeyField key c = (Some L, ?c)"
    by (simp add: indexLookup_def indexLookupRaw_def s now_eq L_def flip: next_ts_def)
  have mem: "i \<in> set L \<longleftrightarrow> live_holder V key (next_ts c) i" for i
    unfolding L_def by (auto simp: live_holder_def key_index(1) [OF so s])
  have one: "\<forall>i j. carries V key i \<and> carries V key j \<longrightarrow> i = j" using keyConflict_None [OF so s] k by blast
  have d: "distinct L" unfolding L_def by (rule distinct_filter [OF key_index(2) [OF so s]])
  show thesis
  proof (cases L)
    case Nil
    then show ?thesis using lk mem by (intro absent) auto
  next
    case (Cons i L')
    have "L' = []"
    proof (cases L')
      case c2: (Cons j L'')
      have "live_holder V key (next_ts c) i" "live_holder V key (next_ts c) j"
        using mem [of i] mem [of j] unfolding Cons c2 by simp_all
      then have "i = j" using one unfolding live_holder_def by blast
      then show ?thesis using d unfolding Cons c2 by simp
    qed
    then show ?thesis using lk Cons mem [of i] by (intro found [of i]) simp_all
  qed
qed

section \<open>Compare and swap\<close>

text \<open>A stored version can be read back at the place the index has for it.\<close>

lemma read_stored:
  assumes h: "coll_holds c srs rs" "V = stored_of (decs c) (all_recs srs rs) Map.empty" and o: "V i = Some (e, r)"
  obtains loc s where "idxGet (index c) i = Some loc" "segmentByPathLocked c (SegmentPath loc) = Some s"
    "ReadAt (files c) s (Offset loc) = Inr e" "ID e = i" "IRev loc = r" "IExpiresAt loc = ExpiresAt e"
proof -
  obtain loc where loc: "idxGet (index c) i = Some loc" "ID e = i" "SegmentPath loc \<in> segpath ` set (all_segs c)"
      "IExpiresAt loc = ExpiresAt e" "IRev loc = r"
      and rd: "\<And>s. segpath s = SegmentPath loc \<Longrightarrow> ReadAt (files c) s (Offset loc) = Inr e"
    using index_lookup [OF h, of i] o by (auto simp: agree_at_def located_def split: option.splits)
  obtain s where s: "segmentByPathLocked c (SegmentPath loc) = Some s" "segpath s = SegmentPath loc"
    by (rule find_segment [OF loc(3)])
  show thesis using loc s rd [OF s(2)] by (intro that [of loc s]) simp_all
qed

lemma segmentByPath_simps [simp]:
  "segmentByPathLocked (c\<lparr>ticks := t\<rparr>) = segmentByPathLocked c"
  "segmentByPathLocked (c\<lparr>clockFloor := f\<rparr>) = segmentByPathLocked c"
  by (simp_all add: segmentByPathLocked_def fun_eq_iff)

lemma keyConflict_simps [simp]:
  "keyConflict (c\<lparr>ticks := t\<rparr>) = keyConflict c" "keyConflict (c\<lparr>clockFloor := f\<rparr>) = keyConflict c"
  by (simp_all add: keyConflict_def)

text \<open>The collection after one and after two readings of its clock.\<close>

definition tick :: "collection \<Rightarrow> collection" where
  "tick c = c\<lparr>ticks := Suc (ticks c), clockFloor := next_ts c\<rparr>"

lemma now_tick: "now c = (next_ts c, tick c)"
  by (simp add: now_eq tick_def next_ts_def)

lemma tick_simps [simp]:
  "coll_inv (tick c) V = coll_inv c V" "coll_holds (tick c) srs rs = coll_holds c srs rs" "fenced (tick c) = fenced c"
  "keyConflict (tick c) = keyConflict c" "sidxMap (tick c) = sidxMap c" "idSeq (tick c) = idSeq c" "segSeq (tick c) = segSeq c"
  "index (tick c) = index c" "files (tick c) = files c" "decs (tick c) = decs c" "cfg (tick c) = cfg c"
  "clockFloor (tick c) = next_ts c" "segmentByPathLocked (tick c) = segmentByPathLocked c" "active (tick c) = active c"
  "explicitDefaultTTLSecs (tick c) = explicitDefaultTTLSecs c" "room (tick c) = room c" "checkFenced (tick c) = checkFenced c"
  by (simp_all add: tick_def room_def checkFenced_def)

definition cas_entry :: "collection \<Rightarrow> string \<Rightarrow> gmap option \<Rightarrow> nat \<Rightarrow> entry \<times> nat \<Rightarrow> entry" where
  "cas_entry c key data i old = (NewUpdate (next_ts c) i (stampKey data key))
     \<lparr>Rev := u64 (snd old + 1), ExpiresAt := ExpiresAt (fst old)\<rparr>"

lemma cas_current_eq:
  assumes i: "coll_inv c V" and k: "keyConflict c = None" and m: "map_of (sidxMap c) KeyField \<noteq> None"
  obtains (found) i e r loc where "cas_current key c = (Inr (Some (e, loc)), tick c)" "live_holder V key (next_ts c) i"
      "V i = Some (e, r)" "ID e = i" "IRev loc = r" "IExpiresAt loc = ExpiresAt e"
  | (absent) "cas_current key c = (Inr None, tick c)" "\<And>i. \<not> live_holder V key (next_ts c) i"
  using i k m
proof (cases rule: indexLookup_key [where key = key])
  case (found i)
  obtain srs rs where h: "coll_holds c srs rs" "V = stored_of (decs c) (all_recs srs rs) Map.empty"
    using i by (auto simp: coll_inv_def)
  obtain e r where o: "V i = Some (e, r)" using found(2) by (auto simp: live_holder_def carries_def)
  obtain loc s where l: "idxGet (index c) i = Some loc" "segmentByPathLocked c (SegmentPath loc) = Some s"
    "ReadAt (files c) s (Offset loc) = Inr e" "ID e = i" "IRev loc = r" "IExpiresAt loc = ExpiresAt e"
    by (rule read_stored [OF h o])
  then have "cas_current key c = (Inr (Some (e, loc)), tick c)" using found(1) by (simp add: cas_current_def flip: tick_def)
  then show thesis using found(2) o l by (intro that(1)) simp_all
next
  case absent
  then show thesis by (intro that(2)) (simp_all add: cas_current_def flip: tick_def)
qed

lemma cas_refused:
  assumes i: "coll_inv c V" and f: "fenced c = None" and k: "keyConflict c = None" and m: "map_of (sidxMap c) KeyField \<noteq> None"
    and no: "\<And>i e r. live_holder V key (next_ts (tick c)) i \<Longrightarrow> V i = Some (e, r) \<Longrightarrow> \<not> ok (Data e) r"
  shows "compareAndSwap key data ok c = (Inr (False, None), tick (tick c))"
proof -
  have t: "coll_inv (tick c) V" "keyConflict (tick c) = None" "map_of (sidxMap (tick c)) KeyField \<noteq> None"
    using i k m by simp_all
  from t show ?thesis
  proof (cases rule: cas_current_eq [where key = key])
    case (found i e r loc)
    then show ?thesis using no [OF found(2,3)] f k by (simp add: compareAndSwap_def now_tick checkFenced_def)
  next
    case absent
    then show ?thesis using f k by (simp add: compareAndSwap_def now_tick checkFenced_def)
  qed
qed

lemma cas_contract:
  assumes i: "coll_inv c V" and f: "fenced c = None" and rm: "room c" and d: "data_ok data"
    and k: "keyConflict c = None" and m: "map_of (sidxMap c) KeyField \<noteq> None"
    and l: "live_holder V key (next_ts (tick c)) i" and o: "V i = Some (old, r)" and p: "ok (Data old) r"
  shows "outcome_ok V (V(i \<mapsto> stored_entry (cas_entry c key data i (old, r)))) True (compareAndSwap key data ok c)"
proof -
  let ?e = "cas_entry c key data i (old, r)"
  obtain srs rs where h: "coll_holds c srs rs" and V: "V = stored_of (decs c) (all_recs srs rs) Map.empty"
    using i by (auto simp: coll_inv_def)
  have "sidxs_ok c V" using h V by (simp add: coll_holds_def)
  then have one: "carries V key j \<Longrightarrow> j = i" for j
    using keyConflict_None [of c V] k m l unfolding live_holder_def by blast
  have t: "coll_inv (tick c) V" "keyConflict (tick c) = None" "map_of (sidxMap (tick c)) KeyField \<noteq> None"
    using i k m by simp_all
  obtain loc where cu: "cas_current key (tick c) = (Inr (Some (old, loc)), tick (tick c))"
    "ID old = i" "IRev loc = r" "IExpiresAt loc = ExpiresAt old"
    using t
  proof (cases rule: cas_current_eq [where key = key])
    case (found j e r' loc)
    then have "j = i" using one by (simp add: live_holder_def)
    then show thesis using found o that by simp
  next
    case absent
    then show thesis using l by blast
  qed
  have e: "ID ?e = i" "Op ?e = OpUpdate" "Rev ?e = u64 (r + 1)" "Data ?e = stampKey data key"
    by (simp_all add: cas_entry_def)
  have "valid_utf8 key"
    using l data_field_ok [OF stored_ok(1) [OF h V o], of KeyField] o by (auto simp: live_holder_def carries_def)
  moreover have "i < 2 ^ 64" using fresh_id [OF h V, of i] o rm by (cases "idSeq c < i") (auto simp: room_def)
  ultimately have w: "writable ?e"
    using stamp_ok [OF d] stored_ok(2) [OF h V o] by (simp add: writable_def cas_entry_def is_u64_def u64_def)
  have "compareAndSwap key data ok c = (case sidxCheckUnique (ID ?e) (stampKey data key) (tick (tick c)) of
        (Some err, d) \<Rightarrow> (Inl err, d)
      | (None, d) \<Rightarrow> (case append_commit ''cas'' ?e d of
          (Inl err, d) \<Rightarrow> (Inl err, d)
        | (Inr off, d) \<Rightarrow> (case afterCommit ''cas''
              \<lparr>wOp = OpUpdate, wID = i, wData = stampKey data key, wTs = next_ts c\<rparr>
              (needRotate (publishCommit ?e (sidxUpdateEntry (ID ?e) (Data ?e) (index_set off ?e d))))
              (publishCommit ?e (sidxUpdateEntry (ID ?e) (Data ?e) (index_set off ?e d))) of
            (post, d) \<Rightarrow> (Inr (True, post), d))))"
    using f k cu p by (simp add: compareAndSwap_def now_tick checkFenced_def cas_entry_def Let_def cong: case_congs)
  moreover have "coll_holds (tick (tick c)) srs rs" "fenced (tick (tick c)) = None" "Suc (segSeq (tick (tick c))) < 2 ^ 64"
    "V = stored_of (decs (tick (tick c))) (all_recs srs rs) Map.empty" "V (ID ?e) = Some (old, r)"
    using h f rm V e(1) o by (simp_all add: room_def)
  note write_version [OF this(1,2,3,4) w e(2) this(5) e(3), where data = "stampKey data key" and opn = "''cas''" and v = True]
  ultimately show ?thesis by (simp add: e(1))
qed

section \<open>Rebuilding a secondary index\<close>

text \<open>The latest data per id, as a rebuild collects them, are those of the stored versions.\<close>

definition latest_agrees :: "(nat, gmap option option) omap \<Rightarrow> stored \<Rightarrow> bool" where
  "latest_agrees m V \<longleftrightarrow> om_ok m \<and> (\<forall>i. Option.bind (map_of m i) (\<lambda>x. x) = map_option (\<lambda>(e, _). Data e) (V i))"

lemma visible_entries_simps [simp]:
  "visible_entries dec [] = []"
  "visible_entries dec ((off, e, tx) # xs) = (if entryVisible tx dec then e # visible_entries dec xs else visible_entries dec xs)"
  by (simp_all add: visible_entries_def)

lemma latest_step_agrees:
  assumes "latest_agrees m V" "entryVisible tx dec"
  shows "latest_agrees (latest_step e m) (store_step dec (e, tx) V)"
  using assms by (auto simp: latest_agrees_def latest_step_def store_step_def omap_simps)

lemma latest_scan_agrees:
  "latest_agrees m V \<Longrightarrow>
   latest_agrees (fold latest_step (visible_entries dec (layout rec_line rec_view off rs)) m) (stored_of dec rs V)"
proof (induction rs arbitrary: m V off)
  case (Cons r rs)
  obtain e tx where v: "rec_view r = (e, tx)" by force
  show ?case
  proof (cases "entryVisible tx dec")
    case True
    then show ?thesis using Cons.IH [OF latest_step_agrees [OF Cons.prems True, of e]] v by simp
  next
    case False
    then show ?thesis using Cons v by (simp add: store_step_def)
  qed
qed simp

lemma scan_latest_agrees:
  assumes "segs_hold d srs" "latest_agrees m V"
  shows "\<exists>m'. scan_latest d dec (map fst srs) m = Inr m' \<and> latest_agrees m' (stored_of dec (concat (map snd srs)) V)"
  using assms
proof (induction srs arbitrary: m V)
  case (Cons x srs)
  obtain s rs where x: "x = (s, rs)" by force
  have f: "list_all rec_ok rs" "map_of d (segpath s) = Some ([] @ file_of rec_line rs)"
    using Cons.prems(1) by (auto simp: x segs_hold_def)
  have "scanEntries d dec s = Inr (visible_entries dec (layout rec_line rec_view 0 rs))"
    using seg.scan_from [OF f] by (simp add: scanEntries_def)
  moreover have "segs_hold d srs" using Cons.prems(1) by (simp add: segs_hold_def)
  ultimately show ?case using Cons.IH [OF _ latest_scan_agrees [OF Cons.prems(2), of dec 0 rs]] by (simp add: x)
qed simp

lemma rebuild_stored:
  assumes h: "segs_hold d srs" and V: "V = stored_of dec (concat (map snd srs)) Map.empty"
    and ok: "\<forall>r\<in>set (concat (map snd srs)). rec_ok r"
  shows "\<exists>s'. sidx_rebuild d dec (map fst srs) s = Inr s' \<and> sfield s' = sfield s \<and> unique s' = unique s
    \<and> sidx_ok s' (field_view s' V)"
proof -
  have "latest_agrees [] Map.empty" by (simp add: latest_agrees_def om_ok_def)
  then obtain m where m: "scan_latest d dec (map fst srs) [] = Inr m" "latest_agrees m V"
    using scan_latest_agrees [OF h, of "[]" Map.empty dec] V by auto
  let ?s = "sidx_install s m"
  have f: "sfield ?s = sfield s" "unique ?s = unique s" by (simp_all add: sidx_install_def split: prod.splits)
  have bind: "Option.bind (map_of m i) (\<lambda>x. x) = map_option (\<lambda>(e, _). Data e) (V i)" for i
    using m(2) by (simp add: latest_agrees_def)
  have rv: "latest_view s m i = field_view s V i" for i
    using bind [of i] unfolding latest_view_def field_view_def
    by (cases "map_of m i"; cases "V i") (auto simp: rec_value_def Option.bind_eq_Some_conv)
  have "gval_ok v" if mr: "(i, r) \<in> set m" and vr: "rec_value s r = Some v" for i r v
  proof -
    have mi: "map_of m i = Some r" using m(2) mr by (auto simp: latest_agrees_def om_ok_def strict_sorted_iff)
    obtain dt where dt: "r = Some dt" "field_of (sfield s) dt = Some v"
      using vr by (auto simp: rec_value_def split: option.splits if_splits)
    then have "map_option (\<lambda>(e, _). Data e) (V i) = Some dt" using bind [of i] mi by simp
    then obtain e k where e: "V i = Some (e, k)" "Data e = dt" by auto
    have "data_ok (Data e)"
      by (rule stored_all [where P = "\<lambda>_ e. data_ok (Data e)", OF _ _ e(1) [unfolded V]])
        (use ok rec_view_ok in auto)
    then show ?thesis using data_field_ok dt(2) \<open>Data e = dt\<close> by blast
  qed
  then have "sidx_ok ?s (latest_view s m)"
    using m(2) by (intro sidx_install_ok) (auto simp: latest_agrees_def)
  moreover have "latest_view s m = field_view ?s V" using rv field_view_cong [OF f(1)] by (simp add: fun_eq_iff)
  ultimately show ?thesis using m(1) f by (simp add: sidx_rebuild_def)
qed

lemma holds_segs: "coll_holds c srs rs \<Longrightarrow> segs_hold (files c) (srs @ [(active c, rs)]) \<and> all_segs c = map fst (srs @ [(active c, rs)])"
  by (auto simp: coll_holds_def segs_ok_def segs_hold_def seg_holds_def all_segs_def)

lemma rebuild_collection:
  assumes h: "coll_holds c srs rs" "V = stored_of (decs c) (all_recs srs rs) Map.empty"
  shows "\<exists>s'. sidx_rebuild (files c) (decs c) (all_segs c) s = Inr s' \<and> sfield s' = sfield s \<and> unique s' = unique s
    \<and> sidx_ok s' (field_view s' V)"
  using rebuild_stored [of "files c" "srs @ [(active c, rs)]" V "decs c" s] holds_segs [OF h(1)] holds_rec_ok [OF h(1)] h(2)
  by simp

text \<open>Creating an index keeps the stored versions.\<close>

lemma persistSecondary_inv:
  assumes "coll_holds c srs rs"
  shows "coll_holds (snd (persistSecondary s (sidxFilePath (cdir c) f) dec ep c)) srs rs"
    "fenced (snd (persistSecondary s (sidxFilePath (cdir c) f) dec ep c)) = fenced c"
    "decs (snd (persistSecondary s (sidxFilePath (cdir c) f) dec ep c)) = decs c"
  using writeFileAtomic_holds [OF assms glob_sidx, of f] assms
  by (simp_all add: persistSecondary_def case_prod_unfold split: sum.splits)

lemma ensureIndex_inv:
  assumes i: "coll_inv c V" and f: "fenced c = None"
  shows "coll_inv (snd (ensureIndex f u c)) V \<and> fenced (snd (ensureIndex f u c)) = None"
proof -
  obtain srs rs where h: "coll_holds c srs rs" and V: "V = stored_of (decs c) (all_recs srs rs) Map.empty"
    using i by (auto simp: coll_inv_def)
  obtain s where s: "sidx_rebuild (files c) (decs c) (all_segs c) (newSecondaryIndex f u) = Inr s" "sfield s = f"
    "sidx_ok s (field_view s V)"
    using rebuild_collection [OF h V, of "newSecondaryIndex f u"] by (auto simp: newSecondaryIndex_def)
  let ?c = "c\<lparr>sidxMap := om_ins f s (sidxMap c)\<rparr>"
  have "sidxs_ok ?c V"
    using h V s by (auto simp: coll_holds_def sidxs_ok_def omap_simps split: if_splits)
  then have h': "coll_holds ?c srs rs"
    using h V by (simp add: coll_holds_def segs_ok_def paths_ok_def index_ok_def ids_ok_def coll_simps)
  show ?thesis
  proof (cases "map_of (sidxMap c) f")
    case None
    let ?r = "persistSecondary s (sidxFilePath (cdir ?c) f) Map.empty [] ?c"
    have "snd (ensureIndex f u c) = snd ?r"
      using f None s(1) by (simp add: ensureIndex_def checkFenced_def split: prod.splits option.splits)
    moreover have "coll_inv (snd ?r) V"
      using persistSecondary_inv [OF h', of s f Map.empty "[]"] V unfolding coll_inv_def by auto
    ultimately show ?thesis using persistSecondary_inv(2) [OF h', of s f Map.empty "[]"] f by simp
  next
    case (Some x)
    then show ?thesis using i f by (simp add: ensureIndex_def checkFenced_def)
  qed
qed

end
