(* ===== verification/CollectionApi.thy ===== *)
theory CollectionApi
  imports CollectionOps
begin

text \<open>
  What the public operations of a collection promise, drawn from the contracts of
  \<open>CollectionOps\<close>: single operations, keys and compare-and-swap, limits, the fence, and runs of
  operations as a simulation of an abstract map of versions.
\<close>

section \<open>A sample collection\<close>

definition sample_cfg :: CollectionConfig where
  "sample_cfg = \<lparr>SegmentMaxSize = 1048576, cfgSyncMode = SyncModeAlways, DefaultTTL = 0, MaxRecords = 0, MaxBytes = 0,
     WatchBufferSize = 4, AllowNonAtomicBatch = True\<rparr>"

text \<open>An empty collection; the file operations and the clock readings are given.\<close>

definition empty_coll :: "(nat \<Rightarrow> sys_res) \<Rightarrow> (nat \<Rightarrow> int) \<Rightarrow> (string, SecondaryIndex) omap \<Rightarrow> collection" where
  "empty_coll sy wl sx = \<lparr>cname = ''c'', cdir = ''d'', cfg = sample_cfg, createdAt = 0,
     files = [(''d/seg_000001.ndjson'', [])], sealedSegs = [],
     active = \<lparr>segpath = ''d/seg_000001.ndjson'', segsize = 0, sealed = False, hasfile = True, poisoned = False\<rparr>,
     index = newIndex, idSeq = 0, segSeq = 1, fenced = None, decs = Map.empty, cepoch = [], clockFloor = 0,
     explicitDefaultTTLSecs = 0, watchers = [], watcherIDSeq = 0, sidxMap = sx, broker = None, cdb = None,
     sealedCov = [], wall = wl, ticks = 0, sys = sy, calls = 0\<rparr>"

definition good_sys :: "nat \<Rightarrow> sys_res" where
  "good_sys n = \<lparr>sr_io = good_io, sr_ok = True, sr_done = True\<rparr>"

abbreviation sample_coll :: collection where
  "sample_coll \<equiv> empty_coll good_sys (\<lambda>_. 0) [(KeyField, newSecondaryIndex KeyField True)]"

lemma empty_coll_fields [simp]:
  "fenced (empty_coll sy wl sx) = None" "idSeq (empty_coll sy wl sx) = 0" "segSeq (empty_coll sy wl sx) = 1"
  "room (empty_coll sy wl sx)" "next_ts (empty_coll sy wl sx) = max 0 (wl 0)" "sidxMap (empty_coll sy wl sx) = sx"
  "cfg (empty_coll sy wl sx) = sample_cfg" "explicitDefaultTTLSecs (empty_coll sy wl sx) = 0"
  by (simp_all add: empty_coll_def room_def next_ts_def)

lemma pad_six: "pad_nat 6 1 = ''000001''"
proof -
  have six: "(6::nat) = Suc (Suc (Suc (Suc (Suc (Suc 0)))))" by simp
  show ?thesis unfolding six by (simp add: digit_char_def char_of_def bit_Suc_0_iff)
qed

lemma empty_coll_holds:
  assumes "om_ok sx" "\<And>f s. map_of sx f = Some s \<Longrightarrow> sfield s = f \<and> sidx_ok s (\<lambda>_. None)"
  shows "coll_holds (empty_coll sy wl sx) [] []"
proof -
  let ?c = "empty_coll sy wl sx"
  have p: "segmentPath ?c 1 = ''d/seg_000001.ndjson''" by (simp add: segmentPath_def empty_coll_def pad_six del: One_nat_def)
  show ?thesis
    unfolding coll_holds_def
  proof (intro conjI)
    show "segs_ok ?c [] []" by (simp add: segs_ok_def empty_coll_def seg_holds_def segs_hold_def om_ok_def)
    have "map segpath (all_segs ?c) = map (segmentPath ?c) [1]" using p by (simp add: all_segs_def empty_coll_def)
    then show "paths_ok ?c"
      unfolding paths_ok_def by (intro conjI exI [of _ "[1]"]) (simp_all add: empty_coll_def all_segs_def)
    show "index_ok ?c [] []" by (simp add: index_ok_def empty_coll_def newIndex_def)
    show "sidxs_ok ?c (stored_of (decs ?c) (all_recs [] []) Map.empty)"
    proof -
      have "field_view s Map.empty = (\<lambda>_. None)" for s by (simp add: field_view_def fun_eq_iff)
      then show ?thesis using assms by (auto simp: sidxs_ok_def empty_coll_def)
    qed
    show "ids_ok ?c (all_recs [] [])" by (simp add: ids_ok_def empty_coll_def is_u64_def)
  qed
qed

lemma sample_holds_inv: "coll_holds (empty_coll sy wl [(KeyField, newSecondaryIndex KeyField True)]) [] []"
proof (rule empty_coll_holds)
  fix f s
  assume "map_of [(KeyField, newSecondaryIndex KeyField True)] f = Some s"
  then have "f = KeyField" "s = newSecondaryIndex KeyField True" by (auto split: if_splits)
  moreover have "sfield (newSecondaryIndex KeyField True) = KeyField" by (simp add: newSecondaryIndex_def)
  ultimately show "sfield s = f \<and> sidx_ok s (\<lambda>_. None)" using newSecondaryIndex_ok by simp
qed (simp add: om_ok_def)

lemma sample_inv: "coll_inv sample_coll Map.empty"
  unfolding coll_inv_def by (intro exI conjI, rule sample_holds_inv) simp

definition keyed_entry :: entry where
  "keyed_entry = (NewInsert 0 1 (Some [(KeyField, JStr ''k'')]))\<lparr>Rev := 1\<rparr>"

lemma keyed_entry_ok: "entry_ok keyed_entry"
  by (simp add: keyed_entry_def NewInsert_def entry_ok_def empty_entry_def data_ok_def OpInsert_def valid_utf8_ascii is_u64_def
      is_i64_def max_nesting_def om_ok_def fmt_time_0 KeyField_def)

lemma keyed_checksum: "checksum keyed_entry = Some 3502827872"
  by (simp add: keyed_entry_def NewInsert_def empty_entry_def checksum_def checksum_input_def marshal_gval_def OpInsert_def
      KeyField_def opt_u64_def opt_i64_def le_bytes_8 crc_eval quote_def esc_byte_def)

lemma keyed_rec_ok: "rec_ok (Plain keyed_entry)"
proof -
  have "length (rec_line (Plain keyed_entry)) \<le> 200"
    by (simp add: rec_line_def rec_bytes_def Encode_def keyed_checksum)
      (simp add: keyed_entry_def NewInsert_def empty_entry_def entry_json_def fmt_time_0 data_member_def json_nat_def nat_member_def
        int_member_def OpInsert_def quote_def show_nat_def digits_rev.simps esc_byte_def sign_str_def KeyField_def)
  then show ?thesis using keyed_entry_ok by (simp add: rec_ok_def maxScanTokenSize_def)
qed

text \<open>The sample collection, with the clock \<open>wl\<close>, after one record was inserted.\<close>

definition put_coll :: "(nat \<Rightarrow> int) \<Rightarrow> entry \<Rightarrow> collection" where
  "put_coll wl e = sidxIndexEntry 1 (Data e) (index_set 0 e
     (appended ((empty_coll good_sys wl [(KeyField, newSecondaryIndex KeyField True)])\<lparr>idSeq := 1\<rparr>) [] e 1))"

lemma put_coll_inv:
  assumes e: "rec_ok (Plain e)" "ID e = 1" "Op e = OpInsert" "Rev e = 1" "data_ok (Data e)"
  shows "coll_inv (put_coll wl e) [1 \<mapsto> stored_entry e]"
proof -
  let ?c = "(empty_coll good_sys wl [(KeyField, newSecondaryIndex KeyField True)])\<lparr>idSeq := 1\<rparr>"
  have h: "coll_holds ?c [] []" by (rule coll_holds_idSeq [OF sample_holds_inv]) (simp_all add: is_u64_def)
  have z: "segsize (active ?c) = 0" "decs ?c = Map.empty" by (simp_all add: empty_coll_def)
  have "coll_holds (put_coll wl e) [] [Plain e]"
    using holds_insert [OF h refl e(1,3) _ e(4) _ e(5), of 1] e(2) z by (simp add: put_coll_def)
  moreover have "[1 \<mapsto> stored_entry e] = stored_of (decs (put_coll wl e)) (all_recs [] [Plain e]) Map.empty"
    using e by (simp add: store_step_plain next_rev_def u64_def stored_entry_def)
  ultimately show ?thesis unfolding coll_inv_def by blast
qed

lemma put_coll_fields [simp]:
  "fenced (put_coll wl e) = None" "room (put_coll wl e)" "next_ts (put_coll wl e) = max 0 (wl 0)" "idSeq (put_coll wl e) = 1"
  "wall (put_coll wl e) = wl" "ticks (put_coll wl e) = 0"
  by (simp_all add: put_coll_def sidxIndexEntry_def index_set_def appended_def empty_coll_def room_def next_ts_def)

lemma put_coll_key: "map_of (sidxMap (put_coll wl e)) KeyField \<noteq> None"
  by (simp add: put_coll_def sidxIndexEntry_def index_set_def appended_def empty_coll_def)

lemma put_coll_no_conflict: "coll_inv (put_coll wl e) [1 \<mapsto> stored_entry e] \<Longrightarrow> keyConflict (put_coll wl e) = None"
proof -
  assume "coll_inv (put_coll wl e) [1 \<mapsto> stored_entry e]"
  then have "sidxs_ok (put_coll wl e) [1 \<mapsto> stored_entry e]" by (auto simp: coll_inv_def coll_holds_def)
  moreover obtain s where "map_of (sidxMap (put_coll wl e)) KeyField = Some s" using put_coll_key by blast
  ultimately show ?thesis using keyConflict_None by (auto simp: carries_def split: if_splits)
qed

abbreviation keyed_coll :: collection where
  "keyed_coll \<equiv> put_coll (\<lambda>_. 0) keyed_entry"

abbreviation keyed_view :: stored where
  "keyed_view \<equiv> [1 \<mapsto> stored_entry keyed_entry]"

lemma keyed_inv: "coll_inv keyed_coll keyed_view"
  using keyed_entry_ok keyed_rec_ok by (intro put_coll_inv) (simp_all add: keyed_entry_def entry_ok_def)

section \<open>Single operations\<close>

lemma resolve_tick:
  "resolveInsertExpiry ex c = (resolveInsertExpiryAt c ex (next_ts c), tick c)" "resolveInsertExpiryAt (tick c) = resolveInsertExpiryAt c"
  by (simp_all add: resolveInsertExpiry_def now_tick resolveInsertExpiryAt_def fun_eq_iff)

lemma resolve_i64: "is_i64 (resolveInsertExpiryAt c ex t)"
  by (auto simp: resolveInsertExpiryAt_def) (simp add: is_i64_def)

text \<open>C4: an insert into a collection that holds the versions \<open>V\<close>, under any sequence of file-operation
  outcomes and clock readings.  Acknowledged, the record is stored under the next id with revision 1
  and is on disk; refused, nothing changed; of unknown outcome, the error says so, the collection is
  fenced, and the disk holds either the old or the new versions.\<close>

theorem insert_refines:
  assumes "coll_inv c V" "fenced c = None" "room c" "data_ok data" "\<not> has_key data"
  shows "outcome_ok V
    (V(Suc (idSeq c) \<mapsto> stored_entry (insert_entry (tick c) data (resolveInsertExpiryAt c ex (next_ts c)))))
    (Suc (idSeq c), next_ts (tick c)) (InsertWithExpiry data ex c)"
  using insert_contract [of "tick c" V data "resolveInsertExpiryAt c ex (next_ts c)"] assms
  by (simp add: InsertWithExpiry_def resolve_tick resolve_i64)

definition sample_data :: "gmap option" where
  "sample_data = Some [(''a'', JStr ''b'')]"

lemma sample_data_ok [simp]: "data_ok sample_data" "\<not> has_key sample_data"
  by (simp_all add: sample_data_def data_ok_def max_nesting_def om_ok_def valid_utf8_ascii has_key_def field_of_def KeyField_def)

theorem insert_refines_witness:
  "outcome_ok Map.empty [1 \<mapsto> stored_entry (insert_entry (tick sample_coll) sample_data 0)] (1, 0)
     (InsertWithExpiry sample_data zero_time sample_coll)"
  using insert_refines [OF sample_inv, of sample_data zero_time]
  by (simp add: tick_def next_ts_def) (simp add: empty_coll_def resolveInsertExpiryAt_def sample_cfg_def)

text \<open>C5: an update of a stored record replaces its data, keeps its key and its deadline and raises its
  revision by one, with the same three outcomes as an insert; an update of an id that stores nothing
  is refused and changes nothing.\<close>

theorem update_refines:
  assumes "coll_inv c V" "fenced c = None" "room c" "data_ok data" "\<not> has_key data"
  shows "case V rid of
      None \<Rightarrow> \<exists>c'. Update rid data c = (Inl (ErrNotFound rid), c') \<and> coll_inv c' V \<and> files c' = files c
    | Some old \<Rightarrow> outcome_ok V (V(rid \<mapsto> stored_entry (update_entry c V rid data 0 True old))) (next_ts c) (Update rid data c)"
proof (cases "V rid")
  case None
  then show ?thesis using update_missing [OF assms(1,2)] assms(5) by (simp add: Update_def)
next
  case (Some x)
  moreover obtain e r where "x = (e, r)" by force
  ultimately show ?thesis
    using update_contract [OF assms(1-4), of 0] assms(5) by (simp add: Update_def is_i64_def)
qed

text \<open>C6: a delete removes a stored record, with the same three outcomes; a delete of an id that stores
  nothing is refused and changes nothing.\<close>

theorem delete_refines:
  assumes "coll_inv c V" "fenced c = None" "room c"
  shows "case V rid of
      None \<Rightarrow> \<exists>c'. Delete rid c = (Inl (ErrNotFound rid), c') \<and> coll_inv c' V \<and> files c' = files c
    | Some _ \<Rightarrow> outcome_ok V (V(rid := None)) () (Delete rid c)"
  using delete_missing [OF assms(1,2)] delete_contract [OF assms] by (simp split: option.splits)

text \<open>C7: a read returns the stored version of a record with its revision, unless the record has expired
  by the collection's clock, and changes nothing.\<close>

theorem get_refines:
  assumes "coll_inv c V" "fenced c = None"
  shows "\<exists>c'. Get rid c = (case visible_at V (next_ts c) rid of
      None \<Rightarrow> Inl (ErrNotFound rid)
    | Some x \<Rightarrow> Inr (record_of rid x), c') \<and> coll_inv c' V \<and> fenced c' = None"
  by (rule get_contract [OF assms])

theorem update_refines_witness:
  "outcome_ok keyed_view (keyed_view(1 \<mapsto> stored_entry (update_entry keyed_coll keyed_view 1 sample_data 0 True (stored_entry keyed_entry))))
     0 (Update 1 sample_data keyed_coll)"
  using update_refines [OF keyed_inv, of sample_data 1] by simp

theorem delete_refines_witness:
  "outcome_ok keyed_view (keyed_view(1 := None)) () (Delete 1 keyed_coll)"
  using delete_refines [OF keyed_inv, of 1] by simp

theorem get_refines_witness:
  "\<exists>c'. Get 1 keyed_coll = (Inr (record_of 1 (stored_entry keyed_entry)), c') \<and> coll_inv c' keyed_view \<and> fenced c' = None"
  using get_refines [OF keyed_inv, of 1]
  by (simp add: visible_at_def stored_entry_def expired_def keyed_entry_def NewInsert_def empty_entry_def)

section \<open>Compare and swap\<close>

lemma holder_unique:
  assumes "coll_inv c V" "keyConflict c = None" "map_of (sidxMap c) KeyField \<noteq> None" "carries V key i" "carries V key j"
  shows "i = j"
proof -
  obtain s where s: "map_of (sidxMap c) KeyField = Some s" using assms(3) by auto
  have "sidxs_ok c V" using assms(1) by (auto simp: coll_inv_def coll_holds_def)
  from keyConflict_None [OF this s] assms(2) have "\<forall>key i j. carries V key i \<and> carries V key j \<longrightarrow> i = j" by simp
  then show ?thesis using assms(4,5) by blast
qed

text \<open>C8: compare-and-swap by revision.  When no live record carries the key, or the one that does has
  another revision, it answers false and changes nothing; otherwise it writes the new version, with
  the revision raised by one, under the three outcomes of a write.  A second attempt with the same
  expected revision therefore answers false.\<close>

theorem update_if_rev_refines:
  assumes "coll_inv c V" "fenced c = None" "room c" "data_ok data" "\<not> has_key data"
    "keyConflict c = None" "map_of (sidxMap c) KeyField \<noteq> None"
  shows "(\<forall>i e r. live_holder V key (next_ts (tick c)) i \<and> V i = Some (e, r) \<longrightarrow>
        (if r = expectedRev
         then outcome_ok V (V(i \<mapsto> stored_entry (cas_entry c key data i (e, r)))) True (UpdateIfRev key expectedRev data c)
         else UpdateIfRev key expectedRev data c = (Inr (False, None), tick (tick c))))
    \<and> ((\<forall>i. \<not> live_holder V key (next_ts (tick c)) i) \<longrightarrow>
        UpdateIfRev key expectedRev data c = (Inr (False, None), tick (tick c)))
    \<and> coll_inv (tick (tick c)) V"
proof -
  have one: "i = j" if "live_holder V key t i" "live_holder V key t j" for t i j
    using holder_unique [OF assms(1,6,7), of key i j] that unfolding live_holder_def by blast
  have "\<not> (\<lambda>_ r. r = expectedRev) (Data e') r'"
    if "live_holder V key (next_ts (tick c)) i" "V i = Some (e, r)" "r \<noteq> expectedRev"
      "live_holder V key (next_ts (tick c)) j" "V j = Some (e', r')" for i e r j e' r'
    using one [OF that(1,4)] that by simp
  then have "UpdateIfRev key expectedRev data c = (Inr (False, None), tick (tick c))"
    if "live_holder V key (next_ts (tick c)) i" "V i = Some (e, r)" "r \<noteq> expectedRev" for i e r
    using cas_refused [OF assms(1,2,6,7), of key "\<lambda>_ r. r = expectedRev" data] that assms(5)
    by (simp add: UpdateIfRev_def)
  moreover have "UpdateIfRev key expectedRev data c = (Inr (False, None), tick (tick c))"
    if "\<forall>i. \<not> live_holder V key (next_ts (tick c)) i"
    using cas_refused [OF assms(1,2,6,7), of key] that assms(5) by (simp add: UpdateIfRev_def)
  moreover have "outcome_ok V (V(i \<mapsto> stored_entry (cas_entry c key data i (e, r)))) True (UpdateIfRev key r data c)"
    if "live_holder V key (next_ts (tick c)) i" "V i = Some (e, r)" for i e r
    using cas_contract [OF assms(1-4,6,7) that, of "\<lambda>_ x. x = r"] assms(5) by (simp add: UpdateIfRev_def)
  ultimately show ?thesis using assms(1) by auto
qed

lemma keyed_holder: "live_holder keyed_view ''k'' t 1"
  by (simp add: live_holder_def carries_def visible_at_def stored_entry_def expired_def keyed_entry_def NewInsert_def
      empty_entry_def field_of_def)

theorem update_if_rev_refines_witness:
  "outcome_ok keyed_view (keyed_view(1 \<mapsto> stored_entry (cas_entry keyed_coll ''k'' sample_data 1 (stored_entry keyed_entry)))) True
     (UpdateIfRev ''k'' 1 sample_data keyed_coll)
   \<and> UpdateIfRev ''k'' 7 sample_data keyed_coll = (Inr (False, None), tick (tick keyed_coll))"
proof -
  have v: "keyed_view 1 = Some (fst (stored_entry keyed_entry), 1)" by (simp add: stored_entry_def keyed_entry_def)
  note p = update_if_rev_refines [OF keyed_inv put_coll_fields(1,2) sample_data_ok put_coll_no_conflict [OF keyed_inv] put_coll_key,
      THEN conjunct1, rule_format, OF conjI [OF keyed_holder v]]
  have "stored_entry keyed_entry = (fst (stored_entry keyed_entry), 1)" by (simp add: stored_entry_def keyed_entry_def)
  then show ?thesis using p [of 1] p [of 7] by simp
qed

section \<open>Keys\<close>

lemma map_of_ins_any: "map_of (om_ins k v m) k = Some v"
  by (induction m) auto

text \<open>C9: a key whose record is live at both readings of the clock is resolved to that record, which is
  returned as stored; a key that no live record carries is not found.  Neither changes anything.\<close>

theorem get_by_key_refines:
  assumes "coll_inv c V" "fenced c = None" "keyConflict c = None" "map_of (sidxMap c) KeyField \<noteq> None"
  shows "(\<forall>i x. live_holder V key (next_ts c) i \<and> visible_at V (next_ts (tick c)) i = Some x \<longrightarrow>
        (\<exists>c'. GetByKey key c = (Inr (record_of i x), c') \<and> coll_inv c' V))
    \<and> ((\<forall>i. \<not> live_holder V key (next_ts c) i) \<longrightarrow> GetByKey key c = (Inl (ErrKeyNotFound key), tick c))
    \<and> coll_inv (tick c) V"
proof -
  have "\<exists>c'. GetByKey key c = (Inr (record_of i x), c') \<and> coll_inv c' V"
    if l: "live_holder V key (next_ts c) i" and x: "visible_at V (next_ts (tick c)) i = Some x" for i x
    using assms(1,3,4)
  proof (cases rule: indexLookup_key [where key = key])
    case (found j)
    have "j = i" using holder_unique [OF assms(1,3,4), of key j i] found(2) l unfolding live_holder_def by blast
    then have r: "resolveKey key c = (Inr i, tick c)"
      using found(1) assms(2,3) by (simp add: resolveKey_def checkFenced_def tick_def)
    obtain c' where g: "Get i (tick c) = (Inr (record_of i x), c')" "coll_inv c' V"
      using get_contract [of "tick c" V i] assms(1,2) x by auto
    have "rKey (record_of i x) = key"
    proof -
      obtain e k where "V i = Some (e, k)" "field_of KeyField (Data e) = Some (JStr key)"
        using l by (auto simp: live_holder_def carries_def)
      then have "x = (e, k)" using x by (simp add: visible_at_def split: if_splits)
      then show ?thesis using \<open>field_of KeyField (Data e) = Some (JStr key)\<close> by (simp add: record_of_def string_key_def)
    qed
    then show ?thesis using r g by (simp add: GetByKey_def)
  next
    case absent
    then show ?thesis using l by blast
  qed
  moreover have "GetByKey key c = (Inl (ErrKeyNotFound key), tick c)" if n: "\<forall>i. \<not> live_holder V key (next_ts c) i"
    using assms(1,3,4)
  proof (cases rule: indexLookup_key [where key = key])
    case (found i)
    then show ?thesis using n by blast
  next
    case absent
    then show ?thesis using assms(2,3) by (simp add: GetByKey_def resolveKey_def checkFenced_def tick_def)
  qed
  ultimately show ?thesis using assms(1) by simp
qed

theorem get_by_key_refines_witness:
  "(\<exists>c'. GetByKey ''k'' keyed_coll = (Inr (record_of 1 (stored_entry keyed_entry)), c') \<and> coll_inv c' keyed_view)
   \<and> GetByKey ''x'' keyed_coll = (Inl (ErrKeyNotFound ''x''), tick keyed_coll)"
proof -
  note p = get_by_key_refines [OF keyed_inv put_coll_fields(1) put_coll_no_conflict [OF keyed_inv] put_coll_key]
  have x: "visible_at keyed_view (next_ts (tick keyed_coll)) 1 = Some (stored_entry keyed_entry)"
    by (simp add: visible_at_def stored_entry_def expired_def keyed_entry_def NewInsert_def empty_entry_def)
  have n: "\<forall>i. \<not> live_holder keyed_view ''x'' (next_ts keyed_coll) i"
    by (auto simp: live_holder_def carries_def stored_entry_def keyed_entry_def field_of_def split: if_splits)
  show ?thesis
    using p [THEN conjunct1, rule_format, OF conjI [OF keyed_holder x]] p [of "''x''"] n by simp
qed

lemma ensureKeyIndex_noop: "fenced c = None \<Longrightarrow> map_of (sidxMap c) KeyField \<noteq> None \<Longrightarrow> ensureKeyIndex c = (None, c)"
  by (simp add: ensureKeyIndex_def EnsureUniqueIndex_def ensureIndex_def checkFenced_def)

lemma insert_key_contract:
  assumes "coll_inv c V" "fenced c = None" "room c" "data_ok data" "\<not> has_key data" "valid_utf8 key"
    "keyConflict c = None" "map_of (sidxMap c) KeyField \<noteq> None"
  shows "outcome_ok V (V(Suc (idSeq c) \<mapsto>
      stored_entry (insert_entry (tick c) (stampKey data key) (resolveInsertExpiryAt c zero_time (next_ts c)))))
    (Suc (idSeq c), next_ts (tick c)) (InsertWithKey key data c)"
  using insert_contract [of "tick c" V "stampKey data key" "resolveInsertExpiryAt c zero_time (next_ts c)"] assms
    stamp_ok [OF assms(4,6)] ensureKeyIndex_noop [OF assms(2,8)]
  by (simp add: InsertWithKey_def resolve_tick resolve_i64)


definition dead_entry :: entry where
  "dead_entry = keyed_entry\<lparr>ExpiresAt := 5\<rparr>"

lemma dead_rec_ok: "rec_ok (Plain dead_entry)"
proof -
  have c: "checksum dead_entry = Some 785983781"
    by (simp add: dead_entry_def keyed_entry_def NewInsert_def empty_entry_def checksum_def checksum_input_def marshal_gval_def
        OpInsert_def KeyField_def opt_u64_def opt_i64_def u64_of_i64_def le_bytes_8 crc_eval quote_def esc_byte_def)
  have "length (rec_line (Plain dead_entry)) \<le> 200"
    by (simp add: rec_line_def rec_bytes_def Encode_def c)
      (simp add: dead_entry_def keyed_entry_def NewInsert_def empty_entry_def entry_json_def fmt_time_0 data_member_def
        json_nat_def json_int_def nat_member_def int_member_def OpInsert_def quote_def show_nat_def digits_rev.simps esc_byte_def sign_str_def
        KeyField_def)
  then show ?thesis
    using keyed_entry_ok by (simp add: rec_ok_def maxScanTokenSize_def entry_ok_def dead_entry_def is_i64_def)
qed

lemma dead_inv: "coll_inv (put_coll (\<lambda>_. 9) dead_entry) [1 \<mapsto> stored_entry dead_entry]"
  using keyed_entry_ok dead_rec_ok by (intro put_coll_inv) (simp_all add: dead_entry_def keyed_entry_def entry_ok_def)


text \<open>An upsert takes its timestamp from the wall clock before it resolves the key.\<close>

abbreviation stamped_at :: "collection \<Rightarrow> collection" where
  "stamped_at c \<equiv> c\<lparr>ticks := Suc (ticks c)\<rparr>"

definition upsert_version :: "collection \<Rightarrow> string \<Rightarrow> gmap option \<Rightarrow> nat \<Rightarrow> entry \<times> nat \<Rightarrow> entry" where
  "upsert_version c key data i old = (NewUpdate (wall c (ticks c)) i (stampKey data key))
     \<lparr>Rev := u64 (snd old + 1), ExpiresAt := ExpiresAt (fst old)\<rparr>"

definition upsert_fresh :: "collection \<Rightarrow> string \<Rightarrow> gmap option \<Rightarrow> entry" where
  "upsert_fresh c key data = (NewInsert (wall c (ticks c)) (Suc (idSeq c)) (stampKey data key))
     \<lparr>Rev := 1, ExpiresAt := resolveInsertExpiryAt c zero_time (next_ts (tick (stamped_at c)))\<rparr>"

definition upsert_record :: "string \<Rightarrow> entry \<Rightarrow> Record" where
  "upsert_record key e = \<lparr>rID = ID e, rKey = key, rRev = Rev e, rTs = Ts e, rData = Data e\<rparr>"

lemma Upsert_write:
  assumes "fenced c = None" "\<not> has_key data" "keyConflict c = None" "map_of (sidxMap c) KeyField \<noteq> None"
    and e: "upsert_entry key (stampKey data key) (wall c (ticks c)) (stamped_at c) = (e, d)"
      "Data e = stampKey data key" "Ts e = wall c (ticks c)"
  shows "Upsert key data c = (case (if Op e = OpInsert then checkQuotaLocked d 1 (entryQuotaBytes d e) else None) of
      Some err \<Rightarrow> (Inl err, d)
    | None \<Rightarrow> (case sidxCheckUnique (ID e) (stampKey data key) d of
        (Some err, d) \<Rightarrow> (Inl err, d)
      | (None, d) \<Rightarrow> (case append_commit ''upsert'' e d of
          (Inl err, d) \<Rightarrow> (Inl err, d)
        | (Inr off, d) \<Rightarrow>
            (let d = publishCommit e (if Op e = OpInsert then sidxIndexEntry (ID e) (Data e) (index_set off e d)
                 else sidxUpdateEntry (ID e) (Data e) (index_set off e d)) in
             case afterCommit ''upsert'' \<lparr>wOp = Op e, wID = ID e, wData = stampKey data key, wTs = wall c (ticks c)\<rparr> (needRotate d) d of
               (post, d) \<Rightarrow> (Inr (upsert_record key e, post), d)))))"
  using assms ensureKeyIndex_noop [OF assms(1,4)]
  by (simp add: Upsert_def wall_now_def checkFenced_def upsert_record_def Let_def cong: case_congs if_cong)

lemma upsert_present:
  assumes i: "coll_inv c V" and f: "fenced c = None" and rm: "room c" and d: "data_ok data" "\<not> has_key data" "valid_utf8 key"
    and k: "keyConflict c = None" and m: "map_of (sidxMap c) KeyField \<noteq> None"
    and l: "live_holder V key (next_ts (stamped_at c)) i" and o: "V i = Some (old, r)"
  shows "outcome_ok V (V(i \<mapsto> stored_entry (upsert_version c key data i (old, r))))
    (upsert_record key (upsert_version c key data i (old, r))) (Upsert key data c)"
proof -
  let ?e = "upsert_version c key data i (old, r)"
  let ?d = "tick (stamped_at c)"
  obtain srs rs where h: "coll_holds c srs rs" and V: "V = stored_of (decs c) (all_recs srs rs) Map.empty"
    using i by (auto simp: coll_inv_def)
  have t: "coll_inv (stamped_at c) V" "keyConflict (stamped_at c) = None" "map_of (sidxMap (stamped_at c)) KeyField \<noteq> None"
    using i k m by simp_all
  obtain loc where loc: "idxGet (index c) i = Some loc" "IRev loc = r" "IExpiresAt loc = ExpiresAt old"
    using index_lookup [OF h V, of i] o by (auto simp: agree_at_def located_def split: option.splits)
  have "indexLookup KeyField key (stamped_at c) = (Some [i], ?d)"
    using t
  proof (cases rule: indexLookup_key [where key = key])
    case (found j)
    have "j = i" using holder_unique [OF i k m, of key j i] found(2) l by (simp add: live_holder_def)
    then show ?thesis using found(1) by (simp add: tick_def)
  next
    case absent
    then show ?thesis using l by blast
  qed
  then have u: "upsert_entry key (stampKey data key) (wall c (ticks c)) (stamped_at c) = (?e, ?d)"
    using loc by (simp add: upsert_entry_def upsert_version_def)
  have e: "ID ?e = i" "Op ?e = OpUpdate" "Rev ?e = u64 (r + 1)" "Data ?e = stampKey data key" "Ts ?e = wall c (ticks c)"
    by (simp_all add: upsert_version_def NewUpdate_def)
  have "i < 2 ^ 64" using fresh_id [OF h V, of i] o rm by (cases "idSeq c < i") (auto simp: room_def)
  then have w: "writable ?e"
    using stamp_ok [OF d(1,3)] stored_ok(2) [OF h V o] by (simp add: writable_def upsert_version_def is_u64_def u64_def)
  have "coll_holds ?d srs rs" "fenced ?d = None" "Suc (segSeq ?d) < 2 ^ 64"
    "V = stored_of (decs ?d) (all_recs srs rs) Map.empty" "V (ID ?e) = Some (old, r)"
    using h f rm V e(1) o by (simp_all add: room_def)
  note write_version [OF this(1,2,3,4) w e(2) this(5) e(3), where data = "stampKey data key" and opn = "''upsert''"]
  then show ?thesis
    unfolding Upsert_write [OF f d(2) k m u e(4,5)] by (simp add: e(1,2,4) Let_def OpInsert_def OpUpdate_def cong: case_congs)
qed

lemma upsert_absent:
  assumes i: "coll_inv c V" and f: "fenced c = None" and rm: "room c" and d: "data_ok data" "\<not> has_key data" "valid_utf8 key"
    and k: "keyConflict c = None" and m: "map_of (sidxMap c) KeyField \<noteq> None"
    and l: "\<And>i. \<not> live_holder V key (next_ts (stamped_at c)) i"
  shows "outcome_ok V (V(Suc (idSeq c) \<mapsto> stored_entry (upsert_fresh c key data)))
    (upsert_record key (upsert_fresh c key data)) (Upsert key data c)"
proof -
  let ?e = "upsert_fresh c key data"
  let ?d = "tick (tick (stamped_at c)\<lparr>idSeq := Suc (idSeq c)\<rparr>)"
  obtain srs rs where h: "coll_holds c srs rs" and V: "V = stored_of (decs c) (all_recs srs rs) Map.empty"
    using i by (auto simp: coll_inv_def)
  have u64: "u64 (Suc (idSeq c)) = Suc (idSeq c)" "is_u64 (Suc (idSeq c))" using rm by (simp_all add: room_def u64_def is_u64_def)
  have t: "coll_inv (stamped_at c) V" "keyConflict (stamped_at c) = None" "map_of (sidxMap (stamped_at c)) KeyField \<noteq> None"
    using i k m by simp_all
  have "indexLookup KeyField key (stamped_at c) = (Some [], tick (stamped_at c))"
    using t
  proof (cases rule: indexLookup_key [where key = key])
    case (found j)
    then show ?thesis using l by blast
  next
    case absent
    then show ?thesis by (simp add: tick_def)
  qed
  then have u: "upsert_entry key (stampKey data key) (wall c (ticks c)) (stamped_at c) = (?e, ?d)"
    using u64 by (simp add: upsert_entry_def upsert_fresh_def resolve_tick)
      (simp add: tick_def next_ts_def resolveInsertExpiryAt_def)
  have e: "ID ?e = Suc (idSeq c)" "Op ?e = OpInsert" "Rev ?e = 1" "Data ?e = stampKey data key" "Ts ?e = wall c (ticks c)"
    by (simp_all add: upsert_fresh_def NewInsert_def)
  have w: "writable ?e"
    using stamp_ok [OF d(1,3)] u64 by (simp add: writable_def upsert_fresh_def is_u64_def resolve_i64)
  have hd: "coll_holds ?d srs rs" using coll_holds_idSeq [of "tick (stamped_at c)" srs rs "Suc (idSeq c)"] h u64 by simp
  then have id: "coll_inv ?d V" using V unfolding coll_inv_def by auto
  have "fenced ?d = None" "Suc (segSeq ?d) < 2 ^ 64" "V = stored_of (decs ?d) (all_recs srs rs) Map.empty"
    "V (ID ?e) = None" "ID ?e \<le> idSeq ?d"
    using f rm V e(1) fresh_id [OF h V, of "Suc (idSeq c)"] by (simp_all add: room_def)
  note write_fresh [OF hd this(1,2,3) w e(2) this(4) e(3) this(5), where data = "stampKey data key" and opn = "''upsert''"]
  then show ?thesis
    unfolding Upsert_write [OF f d(2) k m u e(4,5)] using refused [OF id]
    by (cases "checkQuotaLocked ?d 1 (entryQuotaBytes ?d ?e)") (simp_all add: e(1,2,4) Let_def cong: case_congs)
qed

text \<open>C10: an upsert of a key writes a new version of the live record that carries it, with the revision
  raised by one, and inserts a record with revision 1 when no live record does, under the three
  outcomes of a write; the record it answers is the one it stores.\<close>

theorem upsert_refines:
  assumes "coll_inv c V" "fenced c = None" "room c" "data_ok data" "\<not> has_key data" "valid_utf8 key"
    "keyConflict c = None" "map_of (sidxMap c) KeyField \<noteq> None"
  shows "(\<forall>i x. live_holder V key (next_ts (stamped_at c)) i \<and> V i = Some x \<longrightarrow>
        outcome_ok V (V(i \<mapsto> stored_entry (upsert_version c key data i x)))
          (upsert_record key (upsert_version c key data i x)) (Upsert key data c))
    \<and> ((\<forall>i. \<not> live_holder V key (next_ts (stamped_at c)) i) \<longrightarrow>
        outcome_ok V (V(Suc (idSeq c) \<mapsto> stored_entry (upsert_fresh c key data)))
          (upsert_record key (upsert_fresh c key data)) (Upsert key data c))"
  using upsert_present [OF assms] upsert_absent [OF assms] by auto

theorem upsert_refines_witness:
  "outcome_ok keyed_view (keyed_view(1 \<mapsto> stored_entry (upsert_version keyed_coll ''k'' sample_data 1 (stored_entry keyed_entry))))
     (upsert_record ''k'' (upsert_version keyed_coll ''k'' sample_data 1 (stored_entry keyed_entry))) (Upsert ''k'' sample_data keyed_coll)
   \<and> outcome_ok keyed_view (keyed_view(2 \<mapsto> stored_entry (upsert_fresh keyed_coll ''x'' sample_data)))
     (upsert_record ''x'' (upsert_fresh keyed_coll ''x'' sample_data)) (Upsert ''x'' sample_data keyed_coll)"
proof -
  have v: "keyed_view 1 = Some (stored_entry keyed_entry)" by simp
  note p = upsert_refines [OF keyed_inv put_coll_fields(1,2) sample_data_ok _ put_coll_no_conflict [OF keyed_inv] put_coll_key]
  have "\<forall>i. \<not> live_holder keyed_view ''x'' (next_ts (stamped_at keyed_coll)) i"
    by (auto simp: live_holder_def carries_def stored_entry_def keyed_entry_def field_of_def split: if_splits)
  then show ?thesis
    using p [of "''k''", THEN conjunct1, rule_format, OF _ conjI [OF keyed_holder v]] p [of "''x''", THEN conjunct2]
    by (simp add: valid_utf8_ascii numeral_2_eq_2)
qed

section \<open>Limits\<close>

lemma index_size:
  assumes "coll_inv c V"
  shows "idxLen (index c) = card (dom V)" "dom V \<subseteq> {..idSeq c}"
proof -
  obtain srs rs where h: "coll_holds c srs rs" "V = stored_of (decs c) (all_recs srs rs) Map.empty"
    using assms by (auto simp: coll_inv_def)
  have ok: "om_ok (ientries (index c))" using h(1) by (simp add: coll_holds_def index_ok_def)
  have "V i \<noteq> None \<longleftrightarrow> map_of (ientries (index c)) i \<noteq> None" for i
    using index_some_iff [OF h, of i] unfolding idxGet_def by metis
  then have "dom V = dom (map_of (ientries (index c)))" unfolding dom_def by simp
  then have "dom V = set (map fst (ientries (index c)))" by (simp add: dom_map_of_conv_image_fst)
  then show "idxLen (index c) = card (dom V)"
    using ok distinct_card [of "map fst (ientries (index c))"] by (simp add: idxLen_def om_ok_def strict_sorted_iff)
  show "dom V \<subseteq> {..idSeq c}"
  proof
    fix i
    assume "i \<in> dom V"
    then show "i \<in> {..idSeq c}" using fresh_id [OF h, of i] by (cases "idSeq c < i") auto
  qed
qed

text \<open>C12: with a record limit, an insert into a collection that holds that many records is refused with
  the limit error, and changes neither the records nor any file; so an acknowledged insert leaves at
  most the permitted number.\<close>

theorem record_limit_enforced:
  assumes "coll_inv c V" "fenced c = None" "idSeq c + 2 < 2 ^ 64" "\<not> has_key data"
    "0 < MaxRecords (cfg c)" "MaxRecords (cfg c) \<le> card (dom V)"
  shows "\<exists>c'. InsertWithExpiry data ex c = (Inl (ErrRecordLimit (Suc (card (dom V)))), c') \<and> coll_inv c' V \<and> files c' = files c"
proof -
  let ?c = "tick ((tick c)\<lparr>idSeq := u64 (idSeq c + 1)\<rparr>)"
  have n: "card (dom V) \<le> Suc (idSeq c)" using index_size(2) [OF assms(1)] card_mono [of "{..idSeq c}" "dom V"] by simp
  have u: "u64 (Suc (idSeq c)) = Suc (idSeq c)" "u64 (Suc (card (dom V))) = Suc (card (dom V))"
    using n assms(3) by (simp_all add: u64_def)
  have "checkQuotaLocked ?c 1 b = Some (ErrRecordLimit (Suc (card (dom V))))" for b
    using assms(5,6) index_size(1) [OF assms(1)] u by (simp add: checkQuotaLocked_def Let_def)
  then have "InsertWithExpiry data ex c = (Inl (ErrRecordLimit (Suc (card (dom V)))), ?c)"
    using assms(2,4) by (simp add: InsertWithExpiry_def resolve_tick insert_c_def now_tick Let_def checkFenced_def)
  moreover have "coll_inv ?c V"
    using assms(1,3) u coll_holds_idSeq [of "tick c" _ _ "Suc (idSeq c)"]
    by (auto simp: coll_inv_def is_u64_def)
  ultimately show ?thesis by simp
qed

text \<open>C13: an insert, keyed or not, whose value of a uniquely indexed field is that of another record
  which has not expired is refused, and changes neither the records nor any file.\<close>

theorem unique_index_enforced:
  assumes "coll_inv c V" "fenced c = None" "room c"
    "map_of (sidxMap c) f = Some s" "unique s" "field_of f data = Some v" "accepts s v"
    "visible_at V (next_ts (tick c)) j = Some (e, r)" "field_of f (Data e) = Some w" "accepts s w"
    "toIndexKey w = toIndexKey v"
  shows "\<exists>err c'. insert_c data ex c = (Inl err, c') \<and> coll_inv c' V \<and> files c' = files c"
proof -
  let ?c = "tick (c\<lparr>idSeq := Suc (idSeq c)\<rparr>)"
  let ?t = "next_ts ?c"
  obtain srs rs where h: "coll_holds c srs rs" "V = stored_of (decs c) (all_recs srs rs) Map.empty"
    using assms(1) by (auto simp: coll_inv_def)
  have u: "u64 (Suc (idSeq c)) = Suc (idSeq c)" using assms(3) by (simp add: room_def u64_def)
  have t: "?t = next_ts (tick c)" by (simp add: next_ts_def tick_def)
  have ic: "coll_inv ?c V"
    using assms(1,3) coll_holds_idSeq [of c _ _ "Suc (idSeq c)"] by (auto simp: coll_inv_def is_u64_def room_def)
  have Vj: "V j = Some (e, r)" using assms(8) by (auto simp: visible_at_def split: option.splits if_splits)
  have "j \<noteq> Suc (idSeq c)" using index_size(2) [OF assms(1)] Vj by fastforce
  moreover have "j \<in> set (Lookup s (toIndexKey v))"
  proof -
    have s: "sfield s = f" "sidx_ok s (field_view s V)" using h assms(4) by (auto simp: coll_holds_def sidxs_ok_def)
    have "field_view s V j = Some w" using Vj s(1) assms(9,10) by (simp add: field_view_def rec_value_def)
    then show ?thesis using Lookup_ids [OF s(2)] assms(11) by auto
  qed
  moreover have "case idxGet (index c) j of None \<Rightarrow> False | Some loc \<Rightarrow> \<not> expired (IExpiresAt loc) ?t"
    using index_lookup [OF h, of j] assms(8) t
    by (auto simp: agree_at_def located_def visible_at_def split: option.splits if_splits)
  ultimately have "violates (tick ?c) (Suc (idSeq c)) data ?t (f, s)"
    using assms(5,6,7) by (auto simp: violates_def sidxConflict_def list_ex_iff)
  moreover have "(f, s) \<in> set (sidxMap c)" using assms(4) by (rule map_of_SomeD)
  ultimately obtain err where "sidxCheckUnique (Suc (idSeq c)) data ?c = (Some err, tick ?c)"
    by (cases "List.find (violates (tick ?c) (Suc (idSeq c)) data ?t) (sidxMap c)")
      (auto simp: sidxCheckUnique_def now_tick find_None_iff)
  then show ?thesis
    using assms(2) u ic by (auto simp: insert_c_def now_tick Let_def checkFenced_def split: option.splits)
qed

lemma unique_add: "unique (sidx_add v i s) = unique s"
  by (simp add: sidx_add_def sidx_enter_def Let_def)

theorem unique_index_enforced_witness:
  "\<exists>err c'. insert_c (Data keyed_entry) 0 keyed_coll = (Inl err, c') \<and> coll_inv c' keyed_view \<and> files c' = files keyed_coll"
proof -
  obtain s where s: "map_of (sidxMap keyed_coll) KeyField = Some s" "unique s" "sfield s = KeyField"
    by (simp add: put_coll_def sidxIndexEntry_def index_set_def appended_def empty_coll_def newSecondaryIndex_def
        unique_add split: option.splits)
  have d: "field_of KeyField (Data keyed_entry) = Some (JStr ''k'')" by (simp add: keyed_entry_def field_of_def)
  have a: "accepts s (JStr ''k'')" using s(3) by (simp add: accepts_code)
  have v: "visible_at keyed_view (next_ts (tick keyed_coll)) 1 = Some (fst (stored_entry keyed_entry), 1)"
    by (simp add: visible_at_def stored_entry_def expired_def keyed_entry_def NewInsert_def empty_entry_def)
  have "field_of KeyField (Data (fst (stored_entry keyed_entry))) = Some (JStr ''k'')" using d by (simp add: stored_entry_def)
  from unique_index_enforced [OF keyed_inv put_coll_fields(1,2) s(1,2) d a v this a refl] show ?thesis .
qed

lemma coll_inv_cfg [simp]: "coll_inv (c\<lparr>cfg := x\<rparr>) V = coll_inv c V"
proof -
  have "segmentPath (c\<lparr>cfg := x\<rparr>) = segmentPath c" by (simp add: segmentPath_def fun_eq_iff)
  then show ?thesis by (simp add: coll_inv_def holds_defs all_segs_def)
qed

theorem record_limit_enforced_witness:
  "\<exists>c'. InsertWithExpiry sample_data zero_time (keyed_coll\<lparr>cfg := sample_cfg\<lparr>MaxRecords := 1\<rparr>\<rparr>) = (Inl (ErrRecordLimit (Suc 1)), c')
     \<and> coll_inv c' keyed_view \<and> files c' = files keyed_coll"
  using record_limit_enforced [of "keyed_coll\<lparr>cfg := sample_cfg\<lparr>MaxRecords := 1\<rparr>\<rparr>" keyed_view sample_data zero_time] keyed_inv
  by simp

end
