(* ===== verification/CollectionRuns.thy ===== *)
theory CollectionRuns
  imports CollectionApi
begin

text \<open>
  Runs of requests.  A store serves requests one at a time; the locale \<open>store\<close> states what one step
  promises against an abstract specification and derives what a whole run promises, whatever the
  file operations did.  The collection of the model is an instance.
\<close>

section \<open>Stores\<close>

fun run :: "('r \<Rightarrow> 'c \<Rightarrow> 'a \<times> 'c) \<Rightarrow> 'r list \<Rightarrow> 'c \<Rightarrow> 'a list \<times> 'c" where
  "run serve [] c = ([], c)"
| "run serve (r # rs) c = (case serve r c of (a, c) \<Rightarrow> case run serve rs c of (as, c) \<Rightarrow> (a # as, c))"

inductive spec_run :: "('r \<Rightarrow> 'a \<Rightarrow> 'v \<Rightarrow> 'v \<Rightarrow> bool) \<Rightarrow> 'r list \<Rightarrow> 'a list \<Rightarrow> 'v \<Rightarrow> 'v \<Rightarrow> bool" for spec where
  spec_nil: "spec_run spec [] [] V V"
| spec_cons: "spec r a V V1 \<Longrightarrow> spec_run spec rs as V1 V2 \<Longrightarrow> spec_run spec (r # rs) (a # as) V V2"

inductive_simps spec_run_Nil: "spec_run spec [] as V V'"
inductive_simps spec_run_Cons: "spec_run spec (r # rs) as V V'"

locale store =
  fixes serve :: "'r \<Rightarrow> 'c \<Rightarrow> 'a \<times> 'c" and inv :: "'c \<Rightarrow> 'v \<Rightarrow> bool" and disk :: "'c \<Rightarrow> 'v \<Rightarrow> bool"
    and live :: "'c \<Rightarrow> bool" and capacity :: "'c \<Rightarrow> nat" and ok :: "'r \<Rightarrow> bool" and spec :: "'r \<Rightarrow> 'a \<Rightarrow> 'v \<Rightarrow> 'v \<Rightarrow> bool"
  assumes durable: "inv c V \<Longrightarrow> disk c V"
    and step: "inv c V \<Longrightarrow> live c \<Longrightarrow> 0 < capacity c \<Longrightarrow> ok r \<Longrightarrow> serve r c = (a, c') \<Longrightarrow>
      \<exists>V'. spec r a V V' \<and> disk c' V' \<and> (live c' \<longrightarrow> inv c' V' \<and> capacity c \<le> Suc (capacity c'))"
    and stopped: "\<not> live c \<Longrightarrow> disk c V \<Longrightarrow> serve r c = (a, c') \<Longrightarrow> \<not> live c' \<and> disk c' V \<and> spec r a V V"
begin

lemma run_stopped:
  "\<not> live c \<Longrightarrow> disk c V \<Longrightarrow> run serve rs c = (as, c') \<Longrightarrow> \<not> live c' \<and> disk c' V \<and> spec_run spec rs as V V"
proof (induction rs arbitrary: c as)
  case (Cons r rs)
  obtain a d where s: "serve r c = (a, d)" by force
  obtain as' where as: "as = a # as'" "run serve rs d = (as', c')"
    using Cons.prems(3) s by (auto split: prod.splits)
  then show ?case using stopped [OF Cons.prems(1,2) s] Cons.IH [of d as'] by (auto intro: spec_cons)
qed (auto intro: spec_nil)

lemma run_refines:
  "inv c V \<Longrightarrow> live c \<Longrightarrow> length rs \<le> capacity c \<Longrightarrow> list_all ok rs \<Longrightarrow> run serve rs c = (as, c') \<Longrightarrow>
   \<exists>V'. spec_run spec rs as V V' \<and> disk c' V' \<and> (live c' \<longrightarrow> inv c' V')"
proof (induction rs arbitrary: c V as)
  case Nil
  then show ?case using durable by (auto intro: spec_nil)
next
  case (Cons r rs)
  obtain a d where s: "serve r c = (a, d)" by force
  obtain as' where as: "as = a # as'" "run serve rs d = (as', c')"
    using Cons.prems(5) s by (auto split: prod.splits)
  obtain V1 where V1: "spec r a V V1" "disk d V1" "live d \<longrightarrow> inv d V1 \<and> capacity c \<le> Suc (capacity d)"
    using step [OF Cons.prems(1,2) _ _ s] Cons.prems(3,4) by auto
  show ?case
  proof (cases "live d")
    case True
    then obtain V' where "spec_run spec rs as' V1 V'" "disk c' V'" "live c' \<longrightarrow> inv c' V'"
      using Cons.IH [of d V1 as'] V1(3) Cons.prems(3,4) as(2) by auto
    then show ?thesis using as(1) V1(1) by (auto intro: spec_cons)
  next
    case False
    then show ?thesis using run_stopped [OF _ V1(2) as(2)] as(1) V1(1) by (auto intro: spec_cons)
  qed
qed

end

section \<open>Counters and indexes\<close>

text \<open>The frame of one operation: at most one id and one segment number are taken, and the key index
  stays.\<close>

definition advances :: "collection \<Rightarrow> collection \<Rightarrow> bool" where
  "advances c c' \<longleftrightarrow> idSeq c' \<le> Suc (idSeq c) \<and> segSeq c' \<le> Suc (segSeq c)
     \<and> (map_of (sidxMap c) KeyField \<noteq> None \<longrightarrow> map_of (sidxMap c') KeyField \<noteq> None)"

lemma u64_Suc_le: "u64 (Suc n) \<le> Suc n"
  by (simp add: u64_def)

lemma fence_frame [simp]:
  "idSeq (fence opn ca c) = idSeq c" "segSeq (fence opn ca c) = segSeq c" "sidxMap (fence opn ca c) = sidxMap c"
  by (simp_all add: fence_def)

lemma append_active_frame:
  "append_active e c = (r, c') \<Longrightarrow> idSeq c' = idSeq c \<and> segSeq c' = segSeq c \<and> sidxMap c' = sidxMap c"
  by (auto simp: append_active_def sys_next_def Let_def split: prod.splits if_splits)

lemma append_commit_frame:
  assumes "append_commit opn e c = (r, c')"
  shows "idSeq c' = idSeq c \<and> segSeq c' = segSeq c \<and> sidxMap c' = sidxMap c"
proof -
  obtain x d where a: "append_active e c = (x, d)" by force
  have sy: "sync_active d = (Sync (sr_ok (sys d (calls d))) (active d), d\<lparr>calls := Suc (calls d)\<rparr>)"
    by (simp add: sync_active_def sys_next_def)
  have "c' = c \<or> c' = d \<or> c' = d\<lparr>calls := Suc (calls d)\<rparr> \<or> (\<exists>o1 ca. c' = fence o1 ca d)
      \<or> (\<exists>o1 ca. c' = fence o1 ca (d\<lparr>calls := Suc (calls d)\<rparr>))"
    using assms unfolding append_commit_def appendLocked_def syncCommitLocked_def unknownOutcome_def a sy
    by (cases "checkFenced c"; cases x; cases "Sync (sr_ok (sys d (calls d))) (active d)") (auto simp: sy split: if_splits)
  then show ?thesis using append_active_frame [OF a] by auto
qed

lemma open_active_frame:
  "open_active p c = (r, c') \<Longrightarrow> idSeq c' = idSeq c \<and> segSeq c' = segSeq c \<and> sidxMap c' = sidxMap c"
  by (auto simp: open_active_def sys_next_def split: sum.splits prod.splits)

lemma rotate_finish_frame [simp]:
  "idSeq (snd (rotate_finish ce c)) = idSeq c" "segSeq (snd (rotate_finish ce c)) = segSeq c"
  "sidxMap (snd (rotate_finish ce c)) = sidxMap c"
  by (auto simp: rotate_finish_def writeMeta_def persistMeta_def writeFileAtomic_def fence_def sys_next_def Let_def
      split: prod.splits option.splits)

lemma rotateSegment_frame:
  "idSeq (snd (rotateSegment c)) = idSeq c \<and> segSeq (snd (rotateSegment c)) \<le> Suc (segSeq c)
   \<and> sidxMap (snd (rotateSegment c)) = sidxMap c"
proof (cases "fenced c = None")
  case True
  obtain se old where s: "Seal (sr_ok (sys c (calls c))) (sr_ok (sys c (Suc (calls c)))) (active c) = (se, old)" by force
  define d where "d = c\<lparr>calls := Suc (Suc (calls c)), active := old, segSeq := u64 (Suc (segSeq c))\<rparr>"
  obtain r d1 where o1: "open_active (segmentPath d (u64 (Suc (segSeq c)))) d = (r, d1)" by force
  have d1: "idSeq d1 = idSeq c" "segSeq d1 \<le> Suc (segSeq c)" "sidxMap d1 = sidxMap c"
    using open_active_frame [OF o1] u64_Suc_le by (simp_all add: d_def)
  obtain r' d2 where o2: "open_active (segpath old) d1 = (r', d2)" by force
  have d2: "idSeq d2 = idSeq c" "segSeq d2 \<le> Suc (segSeq c)" "sidxMap d2 = sidxMap c"
    using open_active_frame [OF o2] d1 by simp_all
  show ?thesis
  proof (cases "se \<noteq> None \<and> \<not> sealed old")
    case t: True
    then show ?thesis using True s by (auto simp: rotateSegment_def sys_next_def checkFenced_def)
  next
    case False
    then have "rotateSegment c = (case r of
        Inl err \<Rightarrow> (case r' of
           Inl rerr \<Rightarrow> (Some (ErrRotateCreate err), fence ''rotate'' (CauseRotate err rerr) d2)
         | Inr reopened \<Rightarrow> (Some (ErrRotateCreate err), d2\<lparr>active := reopened\<rparr>))
      | Inr fresh \<Rightarrow> rotate_finish (map_option ErrSeal se) (d1\<lparr>sealedSegs := sealedSegs d1 @ [old], active := fresh\<rparr>))"
      using True s o1 o2
      by (cases r; cases se; cases "sealed old") (simp_all add: rotateSegment_def sys_next_def checkFenced_def Let_def d_def)
    then show ?thesis using d1 d2 by (cases r; cases r') simp_all
  qed
next
  case False
  then obtain x where "fenced c = Some x" by auto
  then show ?thesis by (simp add: rotateSegment_def checkFenced_def)
qed

lemma afterCommit_frame:
  "idSeq (snd (afterCommit opn ev need c)) = idSeq c \<and> segSeq (snd (afterCommit opn ev need c)) \<le> Suc (segSeq c)
   \<and> sidxMap (snd (afterCommit opn ev need c)) = sidxMap c"
proof (cases need)
  case True
  obtain x d where r: "rotateSegment (emit ev c) = (x, d)" by force
  have "afterCommit opn ev need c = (map_option (PostCommitError opn ''rotate'') x, d)"
    unfolding afterCommit_def rotate_post_def using True r by (cases x) simp_all
  then show ?thesis using rotateSegment_frame [of "emit ev c"] unfolding r snd_conv emit_fields by (simp only: snd_conv)
next
  case False
  then have "afterCommit opn ev need c = (None, emit ev c)" by (simp only: afterCommit_def rotate_post_def) simp
  then show ?thesis by simp
qed

definition frame :: "collection \<Rightarrow> collection \<Rightarrow> bool" where
  "frame c c' \<longleftrightarrow> idSeq c' = idSeq c \<and> segSeq c' \<le> Suc (segSeq c)
     \<and> (map_of (sidxMap c) KeyField \<noteq> None \<longrightarrow> map_of (sidxMap c') KeyField \<noteq> None)"

lemma frame_refl [simp]: "frame c c"
  by (simp add: frame_def)

lemma sidx_entry_frame [simp]:
  "map_of (sidxMap (sidxIndexEntry i d c)) f = None \<longleftrightarrow> map_of (sidxMap c) f = None"
  "map_of (sidxMap (sidxUpdateEntry i d c)) f = None \<longleftrightarrow> map_of (sidxMap c) f = None"
  "map_of (sidxMap (sidxRemoveEntry i c)) f = None \<longleftrightarrow> map_of (sidxMap c) f = None"
  "idSeq (sidxIndexEntry i d c) = idSeq c" "idSeq (sidxUpdateEntry i d c) = idSeq c" "idSeq (sidxRemoveEntry i c) = idSeq c"
  "idSeq (index_set off e c) = idSeq c" "sidxMap (index_set off e c) = sidxMap c"
  by (simp_all add: sidxIndexEntry_def sidxUpdateEntry_def sidxRemoveEntry_def index_set_def map_of_map_key)

lemma write_frame:
  assumes "\<And>off d. idSeq (upd off d) = idSeq d" "\<And>off d. segSeq (upd off d) = segSeq d"
    "\<And>off d. map_of (sidxMap (upd off d)) KeyField = None \<longleftrightarrow> map_of (sidxMap d) KeyField = None"
  shows "frame c (snd (case append_commit opn e c of
      (Inl err, c) \<Rightarrow> (Inl err, c)
    | (Inr off, c) \<Rightarrow> (case afterCommit opn ev (needRotate (upd off c)) (upd off c) of (post, c) \<Rightarrow> (Inr (v, post), c))))"
proof -
  obtain r d where a: "append_commit opn e c = (r, d)" by force
  show ?thesis
  proof (cases r)
    case (Inr off)
    obtain post d' where p: "afterCommit opn ev (needRotate (upd off d)) (upd off d) = (post, d')" by force
    show ?thesis
      using append_commit_frame [OF a] afterCommit_frame [of opn ev "needRotate (upd off d)" "upd off d"] assms [of off d]
      by (simp add: a Inr p frame_def)
  qed (use append_commit_frame [OF a] in \<open>simp add: a frame_def\<close>)
qed

lemma unique_frame: "sidxCheckUnique rid data c = (r, d) \<Longrightarrow> idSeq d = idSeq c \<and> segSeq d = segSeq c \<and> sidxMap d = sidxMap c"
  using sidxCheckUnique_eq [of rid data c] by auto

lemma guarded_frame:
  assumes "\<And>off d. idSeq (upd off d) = idSeq d" "\<And>off d. segSeq (upd off d) = segSeq d"
    "\<And>off d. map_of (sidxMap (upd off d)) KeyField = None \<longleftrightarrow> map_of (sidxMap d) KeyField = None"
  shows "frame c (snd (case sidxCheckUnique rid data c of
      (Some err, c) \<Rightarrow> (Inl err, c)
    | (None, c) \<Rightarrow> (case append_commit opn e c of
        (Inl err, c) \<Rightarrow> (Inl err, c)
      | (Inr off, c) \<Rightarrow> (case afterCommit opn ev (needRotate (upd off c)) (upd off c) of (post, c) \<Rightarrow> (Inr (v, post), c)))))"
proof -
  obtain r d where u: "sidxCheckUnique rid data c = (r, d)" by force
  have "frame c d' = frame d d'" for d' using unique_frame [OF u] by (simp add: frame_def)
  then show ?thesis using write_frame [OF assms, where c = d and opn = opn and e = e and ev = ev and v = v] u by (cases r) simp_all
qed

lemma advances_frame: "frame d c' \<Longrightarrow> idSeq d \<le> Suc (idSeq c) \<Longrightarrow> segSeq d = segSeq c \<Longrightarrow> sidxMap d = sidxMap c \<Longrightarrow> advances c c'"
  by (simp add: frame_def advances_def)

lemma insert_c_advances: "advances c (snd (insert_c data ex c))"
proof -
  let ?d = "tick (c\<lparr>idSeq := u64 (idSeq c + 1)\<rparr>)"
  have "frame ?d (snd (insert_c data ex c))"
    unfolding insert_c_def now_tick Let_def split
    by (cases "checkFenced ?d") (auto split: option.splits intro: guarded_frame)
  then show ?thesis by (rule advances_frame) (simp_all add: u64_Suc_le)
qed

lemma update_c_advances: "advances c (snd (update_c rid data ex keep c))"
proof -
  have "frame (tick c) (snd (update_c rid data ex keep c))"
    unfolding update_c_def now_tick Let_def split
    by (cases "checkFenced (tick c)"; cases "idxGet (index (tick c)) rid") (auto intro: guarded_frame)
  then show ?thesis by (rule advances_frame) simp_all
qed

lemma Delete_advances: "advances c (snd (Delete rid c))"
proof -
  have "frame (tick c) (snd (Delete rid c))"
    unfolding Delete_def now_tick Let_def split
    by (cases "checkFenced (tick c)"; cases "idxGet (index (tick c)) rid") (auto intro!: write_frame)
  then show ?thesis by (rule advances_frame) simp_all
qed

lemma advances_refl [simp]: "advances c c" "advances c (tick c)"
  by (simp_all add: advances_def)

lemma cas_advances: "advances c (snd (compareAndSwap key data ok c))"
proof -
  obtain r d where cu: "cas_current key (tick c) = (r, d)" by force
  have d: "d = tick c \<or> d = tick (tick c)"
    using cu by (auto simp: cas_current_def indexLookup_def now_tick split: prod.splits option.splits list.splits sum.splits if_splits)
  have "frame d (snd (compareAndSwap key data ok c)) \<or> snd (compareAndSwap key data ok c) = tick c"
  proof (cases "checkFenced (tick c) = None \<and> keyConflict (tick c) = None")
    case True
    then show ?thesis
      unfolding compareAndSwap_def now_tick split Let_def
      by (cases r) (auto simp: cu split: option.splits intro: guarded_frame)
  next
    case False
    then show ?thesis
      unfolding compareAndSwap_def now_tick split by (auto split: option.splits)
  qed
  moreover have "idSeq d = idSeq c" "segSeq d = segSeq c" "sidxMap d = sidxMap c" using d by auto
  ultimately show ?thesis by (auto intro: advances_frame [of d] advances_frame [of "tick c"])
qed

lemma upsert_entry_frame:
  assumes "upsert_entry key st ts c = (e, d)"
  shows "idSeq d \<le> Suc (idSeq c) \<and> segSeq d = segSeq c \<and> sidxMap d = sidxMap c \<and> Data e = st \<and> Ts e = ts"
proof -
  obtain ids c1 where l: "indexLookup KeyField key c = (ids, c1)" by force
  have c1: "c1 = c \<or> c1 = tick c" using l by (auto simp: indexLookup_def now_tick split: option.splits)
  then show ?thesis
    using assms u64_Suc_le unfolding upsert_entry_def l
    by (auto simp: Let_def resolve_tick NewInsert_def NewUpdate_def split: option.splits)
qed

lemma Upsert_advances:
  assumes "fenced c = None" "map_of (sidxMap c) KeyField \<noteq> None"
  shows "advances c (snd (Upsert key data c))"
proof -
  obtain e d where u: "upsert_entry key (stampKey data key) (wall c (ticks c)) (stamped_at c) = (e, d)" by force
  have f: "idSeq d \<le> Suc (idSeq c)" "segSeq d = segSeq c" "sidxMap d = sidxMap c"
    and e: "Data e = stampKey data key" "Ts e = wall c (ticks c)"
    using upsert_entry_frame [OF u] by simp_all
  have "frame d (snd (Upsert key data c)) \<or> snd (Upsert key data c) = c"
  proof (cases "has_key data \<or> keyConflict c \<noteq> None")
    case True
    then show ?thesis by (auto simp: Upsert_def ensureKeyIndex_noop [OF assms])
  next
    case False
    then have "\<not> has_key data" "keyConflict c = None" by simp_all
    note w = Upsert_write [OF assms(1) this assms(2) u e]
    show ?thesis
    proof (cases "Op e = OpInsert")
      case True
      then show ?thesis unfolding w Let_def
        by (cases "checkQuotaLocked d 1 (entryQuotaBytes d e)") (auto intro!: guarded_frame)
    next
      case False
      then show ?thesis unfolding w Let_def by (auto intro!: guarded_frame)
    qed
  qed
  then show ?thesis using advances_frame [OF _ f] by auto
qed

section \<open>The specification of the operations\<close>

datatype request =
  RInsert "gmap option" time | RUpdate nat "gmap option" | RDelete nat | RGet nat
| RUpsert string "gmap option" | RSwap string nat "gmap option"

datatype response = Created nat | Done | Found Record | Swapped bool | Refused coll_err

definition request_ok :: "request \<Rightarrow> bool" where
  "request_ok r = (case r of
     RInsert d _ \<Rightarrow> data_ok d \<and> \<not> has_key d
   | RUpdate _ d \<Rightarrow> data_ok d \<and> \<not> has_key d
   | RUpsert k d \<Rightarrow> data_ok d \<and> \<not> has_key d \<and> valid_utf8 k
   | RSwap _ _ d \<Rightarrow> data_ok d \<and> \<not> has_key d
   | _ \<Rightarrow> True)"

definition answer :: "('a \<Rightarrow> response) \<Rightarrow> 'a committed \<Rightarrow> response \<times> collection" where
  "answer f r = (case r of (Inl err, c) \<Rightarrow> (Refused err, c) | (Inr (v, _), c) \<Rightarrow> (f v, c))"

definition serve :: "request \<Rightarrow> collection \<Rightarrow> response \<times> collection" where
  "serve r c = (case r of
     RInsert d ex \<Rightarrow> answer (\<lambda>(i, _). Created i) (InsertWithExpiry d ex c)
   | RUpdate i d \<Rightarrow> answer (\<lambda>_. Done) (Update i d c)
   | RDelete i \<Rightarrow> answer (\<lambda>_. Done) (Delete i c)
   | RGet i \<Rightarrow> (case Get i c of (Inl err, c) \<Rightarrow> (Refused err, c) | (Inr x, c) \<Rightarrow> (Found x, c))
   | RUpsert k d \<Rightarrow> answer Found (Upsert k d c)
   | RSwap k n d \<Rightarrow> answer Swapped (UpdateIfRev k n d c))"

text \<open>What a client may observe of a map of versions: an acknowledged operation has its effect, a refused
  one has none, and one whose outcome is unknown has its effect or none.  The new version \<open>e\<close> of a
  record may carry any timestamp and, on insert, any deadline.\<close>

inductive spec_step :: "request \<Rightarrow> response \<Rightarrow> stored \<Rightarrow> stored \<Rightarrow> bool" where
  spec_insert: "V i = None \<Longrightarrow> Data e = d \<Longrightarrow> spec_step (RInsert d ex) (Created i) V (V(i \<mapsto> (e, 1)))"
| spec_update: "V i = Some (old, r) \<Longrightarrow> ExpiresAt e = ExpiresAt old \<Longrightarrow>
    Data e = d \<or> Data e = keep_key (Some (old, r)) d \<Longrightarrow>
    spec_step (RUpdate i d) Done V (V(i \<mapsto> (e, u64 (r + 1))))"
| spec_delete: "V i \<noteq> None \<Longrightarrow> spec_step (RDelete i) Done V (V(i := None))"
| spec_get: "visible_at V t i = Some x \<Longrightarrow> spec_step (RGet i) (Found (record_of i x)) V V"
| spec_upsert_version: "carries V k i \<Longrightarrow> V i = Some (old, r) \<Longrightarrow> ExpiresAt e = ExpiresAt old \<Longrightarrow>
    Data e = stampKey d k \<Longrightarrow> Rev e = u64 (r + 1) \<Longrightarrow> ID e = i \<Longrightarrow>
    spec_step (RUpsert k d) (Found (upsert_record k e)) V (V(i \<mapsto> stored_entry e))"
| spec_upsert_fresh: "(\<And>i. \<not> live_holder V k t i) \<Longrightarrow> V i = None \<Longrightarrow> Data e = stampKey d k \<Longrightarrow> Rev e = 1 \<Longrightarrow> ID e = i \<Longrightarrow>
    spec_step (RUpsert k d) (Found (upsert_record k e)) V (V(i \<mapsto> stored_entry e))"
| spec_swap: "carries V k i \<Longrightarrow> V i = Some (old, r) \<Longrightarrow> ExpiresAt e = ExpiresAt old \<Longrightarrow> Data e = stampKey d k \<Longrightarrow>
    spec_step (RSwap k r d) (Swapped True) V (V(i \<mapsto> (e, u64 (r + 1))))"
| spec_no_swap: "(\<And>i e. live_holder V k t i \<Longrightarrow> V i \<noteq> Some (e, r)) \<Longrightarrow> spec_step (RSwap k r d) (Swapped False) V V"
| spec_refused: "spec_step r (Refused err) V V"
| spec_unknown: "spec_step r a V V' \<Longrightarrow> spec_step r (Refused (ErrWriteOutcomeUnknown opn cause)) V V'"

definition keyed_inv_of :: "collection \<Rightarrow> stored \<Rightarrow> bool" where
  "keyed_inv_of c V \<longleftrightarrow> coll_inv c V \<and> map_of (sidxMap c) KeyField \<noteq> None"

definition capacity_of :: "collection \<Rightarrow> nat" where
  "capacity_of c = 2 ^ 64 - 1 - max (idSeq c) (segSeq c)"

lemma capacity_room: "0 < capacity_of c \<longleftrightarrow> room c"
  by (auto simp: capacity_of_def room_def)

lemma capacity_advances: "advances c c' \<Longrightarrow> capacity_of c \<le> Suc (capacity_of c')"
  by (auto simp: capacity_of_def advances_def)

lemma refused_step:
  "coll_inv c' V \<Longrightarrow> \<exists>V'. spec_step q (Refused err) V V' \<and> on_disk c' V' \<and> (fenced c' = None \<longrightarrow> coll_inv c' V')"
  by (intro exI [of _ V]) (simp add: spec_refused inv_on_disk)

text \<open>One served write, from the contract of its operation.\<close>

lemma write_step:
  assumes o: "outcome_ok V V' v r" and s: "spec_step q (f v) V V'" and a: "answer f r = (a, c')"
  shows "\<exists>V'. spec_step q a V V' \<and> on_disk c' V' \<and> (fenced c' = None \<longrightarrow> coll_inv c' V')"
proof (cases "fst r")
  case (Inl err)
  then have r: "r = (Inl err, c')" "a = Refused err" using a by (auto simp: answer_def split: prod.splits)
  from o consider "on_disk c' V" "fenced c' = None \<longrightarrow> coll_inv c' V"
    | opn cause where "err = ErrWriteOutcomeUnknown opn cause" "fenced c' \<noteq> None" "on_disk c' V'"
    unfolding outcome_ok_def r by auto
  then show ?thesis
  proof cases
    case 1
    then show ?thesis by (intro exI [of _ V]) (simp add: r(2) spec_refused)
  next
    case 2
    then show ?thesis using spec_unknown [OF s] by (intro exI [of _ V']) (auto simp: r(2))
  qed
next
  case (Inr x)
  then have "r = (Inr (fst x, snd x), c')" "a = f (fst x)" using a by (auto simp: answer_def split: prod.splits)
  then show ?thesis using o s by (auto simp: outcome_ok_def)
qed
lemma insert_step:
  assumes i: "coll_inv c V" "fenced c = None" "room c" and d: "data_ok d" "\<not> has_key d"
    and s: "serve (RInsert d ex) c = (a, c')"
  shows "\<exists>V'. spec_step (RInsert d ex) a V V' \<and> on_disk c' V' \<and> (fenced c' = None \<longrightarrow> coll_inv c' V')"
proof (rule write_step [OF insert_contract [where data = d and c = "tick c" and V = V and ex = "resolveInsertExpiryAt c ex (next_ts c)"]])
  obtain srs rs where h: "coll_holds c srs rs" "V = stored_of (decs c) (all_recs srs rs) Map.empty"
    using i by (auto simp: coll_inv_def)
  have "V (Suc (idSeq c)) = None" by (rule fresh_id [OF h]) simp
  then show "spec_step (RInsert d ex) ((\<lambda>(i, _). Created i) (Suc (idSeq (tick c)), next_ts (tick c))) V
      (V(Suc (idSeq (tick c)) \<mapsto> stored_entry (insert_entry (tick c) d (resolveInsertExpiryAt c ex (next_ts c)))))"
    using spec_insert [of V "Suc (idSeq c)"] by (simp add: stored_entry_def insert_entry_def)
  show "answer (\<lambda>(i, _). Created i) (insert_c d (resolveInsertExpiryAt c ex (next_ts c)) (tick c)) = (a, c')"
    using s d by (simp add: serve_def InsertWithExpiry_def resolve_tick)
qed (use i d in \<open>simp_all add: resolve_i64\<close>)

lemma update_step:
  assumes i: "coll_inv c V" "fenced c = None" "room c" and d: "data_ok d" "\<not> has_key d"
    and s: "serve (RUpdate rid d) c = (a, c')"
  shows "\<exists>V'. spec_step (RUpdate rid d) a V V' \<and> on_disk c' V' \<and> (fenced c' = None \<longrightarrow> coll_inv c' V')"
proof (cases "V rid")
  case None
  then show ?thesis
    using update_missing [OF i(1,2) None, of d 0 True] s d
    by (auto simp: serve_def answer_def Update_def intro: refused_step)
next
  case (Some x)
  obtain old r where x: "V rid = Some (old, r)" using Some by force
  have a: "answer (\<lambda>_. Done) (update_c rid d 0 True c) = (a, c')" using s d by (simp add: serve_def Update_def)
  let ?e = "update_entry c V rid d 0 True (old, r)"
  have "spec_step (RUpdate rid d) Done V (V(rid \<mapsto> ((?e)\<lparr>CRC := checksum ?e\<rparr>, u64 (r + 1))))"
    by (rule spec_update [where V = V, OF x]) (auto simp: update_entry_def update_data_def x)
  then show ?thesis
    using write_step [OF update_contract [OF i d(1) _ x, of 0 True] _ a] by (simp add: stored_entry_def update_entry_def is_i64_def)
qed

lemma delete_step:
  assumes i: "coll_inv c V" "fenced c = None" "room c" and s: "serve (RDelete rid) c = (a, c')"
  shows "\<exists>V'. spec_step (RDelete rid) a V V' \<and> on_disk c' V' \<and> (fenced c' = None \<longrightarrow> coll_inv c' V')"
proof (cases "V rid = None")
  case True
  then show ?thesis
    using delete_missing [OF i(1,2) True] s by (auto simp: serve_def answer_def intro: refused_step)
next
  case False
  then show ?thesis
    using write_step [OF delete_contract [OF i False] spec_delete [where V = V, OF False], of a c'] s by (simp add: serve_def)
qed

lemma get_step:
  assumes i: "coll_inv c V" "fenced c = None" and s: "serve (RGet rid) c = (a, c')"
  shows "spec_step (RGet rid) a V V \<and> coll_inv c' V"
proof -
  obtain d where g: "Get rid c = (case visible_at V (next_ts c) rid of
      None \<Rightarrow> Inl (ErrNotFound rid) | Some x \<Rightarrow> Inr (record_of rid x), d)" "coll_inv d V"
    using get_contract [OF i, of rid] by blast
  show ?thesis
  proof (cases "visible_at V (next_ts c) rid")
    case None
    then have "a = Refused (ErrNotFound rid)" "c' = d" using g(1) s by (simp_all add: serve_def)
    then show ?thesis using g(2) spec_refused by simp
  next
    case (Some x)
    then have "a = Found (record_of rid x)" "c' = d" using g(1) s by (simp_all add: serve_def)
    then show ?thesis using g(2) spec_get [where V = V, OF Some] by simp
  qed
qed

lemma upsert_step:
  assumes i: "coll_inv c V" "fenced c = None" "room c" "map_of (sidxMap c) KeyField \<noteq> None"
    and d: "data_ok d" "\<not> has_key d" "valid_utf8 k" and s: "serve (RUpsert k d) c = (a, c')"
  shows "\<exists>V'. spec_step (RUpsert k d) a V V' \<and> on_disk c' V' \<and> (fenced c' = None \<longrightarrow> coll_inv c' V')"
proof (cases "keyConflict c")
  case (Some err)
  then have "a = Refused err" "c' = c"
    using s d(2) ensureKeyIndex_noop [OF i(2,4)] by (auto simp: serve_def Upsert_def answer_def)
  then show ?thesis using refused_step [OF i(1)] by simp
next
  case None
  have a: "answer Found (Upsert k d c) = (a, c')" using s by (simp add: serve_def)
  show ?thesis
  proof (cases "\<exists>i. live_holder V k (next_ts (stamped_at c)) i")
    case True
    then obtain j where j: "live_holder V k (next_ts (stamped_at c)) j" by blast
    then obtain old r where x: "V j = Some (old, r)" "carries V k j" by (auto simp: live_holder_def carries_def)
    let ?e = "upsert_version c k d j (old, r)"
    have "spec_step (RUpsert k d) (Found (upsert_record k ?e)) V (V(j \<mapsto> stored_entry ?e))"
      by (rule spec_upsert_version [where V = V, OF x(2,1)]) (simp_all add: upsert_version_def)
    then show ?thesis using write_step [OF upsert_present [OF i(1-3) d None i(4) j x(1)] _ a] by simp
  next
    case False
    obtain srs rs where h: "coll_holds c srs rs" "V = stored_of (decs c) (all_recs srs rs) Map.empty"
      using i by (auto simp: coll_inv_def)
    have "V (Suc (idSeq c)) = None" by (rule fresh_id [OF h]) simp
    then have "spec_step (RUpsert k d) (Found (upsert_record k (upsert_fresh c k d))) V
        (V(Suc (idSeq c) \<mapsto> stored_entry (upsert_fresh c k d)))"
      using False by (intro spec_upsert_fresh) (auto simp: upsert_fresh_def)
    then show ?thesis using write_step [OF upsert_absent [OF i(1-3) d None i(4)] _ a] False by simp
  qed
qed

lemma swap_step:
  assumes i: "coll_inv c V" "fenced c = None" "room c" "map_of (sidxMap c) KeyField \<noteq> None"
    and d: "data_ok d" "\<not> has_key d" and s: "serve (RSwap k n d) c = (a, c')"
  shows "\<exists>V'. spec_step (RSwap k n d) a V V' \<and> on_disk c' V' \<and> (fenced c' = None \<longrightarrow> coll_inv c' V')"
proof (cases "keyConflict c")
  case (Some err)
  then have "a = Refused err" "c' = tick c"
    using s d(2) i(2) by (auto simp: serve_def UpdateIfRev_def compareAndSwap_def answer_def now_tick checkFenced_def)
  then show ?thesis using refused_step [of "tick c" V] i(1) by simp
next
  case None
  let ?t = "next_ts (tick c)"
  have a: "answer Swapped (compareAndSwap k d (\<lambda>_ r. r = n) c) = (a, c')" using s d by (simp add: serve_def UpdateIfRev_def)
  show ?thesis
  proof (cases "\<exists>i e. live_holder V k ?t i \<and> V i = Some (e, n)")
    case True
    then obtain j old where x: "live_holder V k ?t j" "V j = Some (old, n)" by blast
    let ?e = "cas_entry c k d j (old, n)"
    have "carries V k j" using x(1) by (simp add: live_holder_def)
    then have "spec_step (RSwap k n d) (Swapped True) V (V(j \<mapsto> (?e\<lparr>CRC := checksum ?e\<rparr>, u64 (n + 1))))"
      by (rule spec_swap [where V = V, OF _ x(2)]) (simp_all add: cas_entry_def)
    then show ?thesis
      using write_step [OF cas_contract [OF i(1-3) d(1) None i(4) x, of "\<lambda>_ r. r = n"] _ a]
      by (simp add: stored_entry_def cas_entry_def)
  next
    case False
    then have "compareAndSwap k d (\<lambda>_ r. r = n) c = (Inr (False, None), tick (tick c))"
      by (intro cas_refused [OF i(1,2) None i(4)]) auto
    then have "a = Swapped False" "c' = tick (tick c)" using a by (auto simp: answer_def)
    moreover have "spec_step (RSwap k n d) (Swapped False) V V" using False by (intro spec_no_swap [of V k ?t]) auto
    ultimately show ?thesis using i(1) inv_on_disk [of "tick (tick c)" V] by auto
  qed
qed
lemma serve_advances:
  assumes "fenced c = None" "map_of (sidxMap c) KeyField \<noteq> None"
  shows "advances c (snd (serve r c))"
proof -
  have a: "snd (answer f x) = snd x" for f :: "'z \<Rightarrow> response" and x
    by (auto simp: answer_def split: prod.splits sum.splits)
  have t: "advances (tick c) d = advances c d" for d by (simp add: advances_def)
  show ?thesis
  proof (cases r)
    case (RInsert d ex)
    then show ?thesis
      using insert_c_advances [of "tick c" d] by (simp add: serve_def a InsertWithExpiry_def resolve_tick t)
  next
    case (RGet i)
    have "snd (serve r c) = c \<or> snd (serve r c) = tick c"
      by (auto simp: RGet serve_def Get_def getStored_def now_tick Let_def split: prod.splits sum.splits option.splits)
    then show ?thesis by auto
  qed (use assms in \<open>simp_all add: serve_def a Update_def UpdateIfRev_def update_c_advances Delete_advances cas_advances Upsert_advances\<close>)
qed

lemma serve_fenced:
  assumes "fenced c = Some x" "serve r c = (a, c')"
  shows "fenced c' = Some x" "\<exists>err. a = Refused err" "on_disk c' = on_disk c"
proof -
  have f: "checkFenced d = Some ErrCollectionFenced" if "fenced d = Some x" for d using that by (simp add: checkFenced_def)
  have "(\<exists>err. a = Refused err) \<and> fenced c' = fenced c \<and> files c' = files c \<and> cdir c' = cdir c \<and> decs c' = decs c"
    using assms
    by (cases r) (auto simp: serve_def answer_def InsertWithExpiry_def resolve_tick insert_c_def Update_def update_c_def Delete_def
        Get_def getStored_def Upsert_def ensureKeyIndex_def EnsureUniqueIndex_def ensureIndex_def UpdateIfRev_def compareAndSwap_def
        now_tick Let_def f tick_def split: if_splits)
  then show "fenced c' = Some x" "\<exists>err. a = Refused err" "on_disk c' = on_disk c"
    using assms(1) on_disk_cong [of c' c] by auto
qed

lemma serve_step:
  assumes i: "keyed_inv_of c V" "fenced c = None" "0 < capacity_of c" "request_ok r" and s: "serve r c = (a, c')"
  shows "\<exists>V'. spec_step r a V V' \<and> on_disk c' V' \<and>
    (fenced c' = None \<longrightarrow> keyed_inv_of c' V' \<and> capacity_of c \<le> Suc (capacity_of c'))"
proof -
  have c: "coll_inv c V" "room c" "map_of (sidxMap c) KeyField \<noteq> None"
    using i by (simp_all add: keyed_inv_of_def capacity_room)
  have "\<exists>V'. spec_step r a V V' \<and> on_disk c' V' \<and> (fenced c' = None \<longrightarrow> coll_inv c' V')"
  proof (cases r)
    case (RInsert d ex)
    then show ?thesis using insert_step [OF c(1) i(2) c(2)] i(4) s by (simp add: request_ok_def)
  next
    case (RUpdate j d)
    then show ?thesis using update_step [OF c(1) i(2) c(2)] i(4) s by (simp add: request_ok_def)
  next
    case (RDelete j)
    then show ?thesis using delete_step [OF c(1) i(2) c(2)] s by simp
  next
    case (RGet j)
    then have "spec_step r a V V" "coll_inv c' V" using get_step [OF c(1) i(2)] s by simp_all
    then show ?thesis using inv_on_disk by blast
  next
    case (RUpsert k d)
    then show ?thesis using upsert_step [OF c(1) i(2) c(2,3)] i(4) s by (simp add: request_ok_def)
  next
    case (RSwap k n d)
    then show ?thesis using swap_step [OF c(1) i(2) c(2,3)] i(4) s by (simp add: request_ok_def)
  qed
  moreover have "advances c c'" using serve_advances [OF i(2) c(3), of r] s by simp
  ultimately show ?thesis
    using capacity_advances [of c c'] c(3) by (auto simp: keyed_inv_of_def advances_def)
qed

interpretation coll: store serve keyed_inv_of on_disk "\<lambda>c. fenced c = None" capacity_of request_ok spec_step
proof
  show "on_disk c V" if "keyed_inv_of c V" for c V using that by (simp add: keyed_inv_of_def inv_on_disk)
  show "fenced c' \<noteq> None \<and> on_disk c' V \<and> spec_step r a V V"
    if f: "fenced c \<noteq> None" and d: "on_disk c V" and s: "serve r c = (a, c')" for c V r a c'
  proof -
    obtain x where x: "fenced c = Some x" using f by (cases "fenced c") simp_all
    obtain err where "a = Refused err" using serve_fenced(2) [OF x s] by blast
    then show ?thesis using serve_fenced(1,3) [OF x s] d by (simp add: spec_refused)
  qed
  show "\<exists>V'. spec_step r a V V' \<and> on_disk c' V' \<and>
      (fenced c' = None \<longrightarrow> keyed_inv_of c' V' \<and> capacity_of c \<le> Suc (capacity_of c'))"
    if "keyed_inv_of c V" "fenced c = None" "0 < capacity_of c" "request_ok r" "serve r c = (a, c')" for c V r a c'
    by (rule serve_step [OF that])
qed

section \<open>Runs of a collection\<close>

text \<open>C1: whatever the file operations did, the answers of a run of requests are those of the
  specification, and the disk holds the versions it ends in; unless the collection fenced itself, so
  does the collection.  After a fence every request is refused and the disk does not change.\<close>

theorem collection_run_refines:
  assumes "coll_inv c V" "fenced c = None" "map_of (sidxMap c) KeyField \<noteq> None"
    "length rs \<le> capacity_of c" "list_all request_ok rs" "run serve rs c = (as, c')"
  shows "\<exists>V'. spec_run spec_step rs as V V' \<and> on_disk c' V' \<and> (fenced c' = None \<longrightarrow> coll_inv c' V')"
proof -
  have "keyed_inv_of c V" using assms(1,3) by (simp add: keyed_inv_of_def)
  from coll.run_refines [OF this assms(2,4,5,6)] obtain V' where
    V': "spec_run spec_step rs as V V'" "on_disk c' V'" "fenced c' = None \<longrightarrow> keyed_inv_of c' V'"
    by (elim exE conjE)
  then show ?thesis by (intro exI [of _ V']) (simp add: keyed_inv_of_def)
qed

theorem collection_run_refines_witness:
  "\<exists>as c' V'. run serve [RInsert sample_data 0, RGet 1, RUpsert ''k'' None, RSwap ''k'' 1 sample_data, RDelete 2] keyed_coll = (as, c')
     \<and> spec_run spec_step [RInsert sample_data 0, RGet 1, RUpsert ''k'' None, RSwap ''k'' 1 sample_data, RDelete 2] as keyed_view V'
     \<and> on_disk c' V'"
proof -
  let ?rs = "[RInsert sample_data 0, RGet 1, RUpsert ''k'' None, RSwap ''k'' 1 sample_data, RDelete 2]"
  obtain as c' where r: "run serve ?rs keyed_coll = (as, c')" by (rule prod.exhaust)
  have "segSeq keyed_coll = 1" by (simp add: put_coll_def empty_coll_def appended_def)
  then have "length ?rs \<le> capacity_of keyed_coll" by (simp add: capacity_of_def)
  moreover have "list_all request_ok ?rs"
    by (simp add: request_ok_def valid_utf8_ascii data_ok_def [of None] has_key_def [of None] field_of_def)
  ultimately show ?thesis
    using collection_run_refines [OF keyed_inv put_coll_fields(1) put_coll_key _ _ r] r by blast
qed

end
