(* ===== verification/Salvage.thy ===== *)
theory Salvage
  imports Index
begin

text \<open>
  The tolerant scanner of \<open>engine/salvage.go\<close>: every line of a segment is either an entry or a
  bad region, and a damaged line does not stop the scan.  On the files the engine writes it finds
  what the strict scanner finds; on any bytes its entries and regions partition the file.
\<close>

section \<open>The scanner\<close>

datatype BadRegionReason =
  BadRegionUndecodableJSON | BadRegionTornTailLine | BadRegionGluedLines | BadRegionOversizedLine | BadRegionWrongOp

record BadRegion =
  brOffset :: nat
  brLength :: nat
  brReason :: BadRegionReason

record SalvagedEntry =
  svEntry :: entry
  svTx :: "TxStamp option"
  svOffset :: nat
  svLength :: nat
  svGlued :: bool

record SegmentReport =
  rpPath :: string
  rpSize :: nat
  rpEntries :: "SalvagedEntry list"
  rpBad :: "BadRegion list"

definition validSegmentOp :: "string \<Rightarrow> bool" where
  "validSegmentOp opn \<longleftrightarrow> opn = OpInsert \<or> opn = OpUpdate \<or> opn = OpDelete"

definition add_bad :: "nat \<Rightarrow> nat \<Rightarrow> BadRegionReason \<Rightarrow> SegmentReport \<Rightarrow> SegmentReport" where
  "add_bad off n why rep = rep\<lparr>rpBad := rpBad rep @ [\<lparr>brOffset = off, brLength = n, brReason = why\<rparr>]\<rparr>"

definition add_entry :: "entry \<Rightarrow> TxStamp option \<Rightarrow> nat \<Rightarrow> nat \<Rightarrow> bool \<Rightarrow> SegmentReport \<Rightarrow> SegmentReport" where
  "add_entry e tx off n glued rep =
     rep\<lparr>rpEntries := rpEntries rep @ [\<lparr>svEntry = e, svTx = tx, svOffset = off, svLength = n, svGlued = glued\<rparr>]\<rparr>"

text \<open>The positions of an opening brace in the line, the last first; the brace at position 0 ends
  the search.\<close>

definition brace_starts :: "string \<Rightarrow> nat list" where
  "brace_starts line = rev (List.filter (\<lambda>i. 0 < i \<and> line ! i = CHR ''{'') [0..<length line])"

definition glued_at :: "string \<Rightarrow> nat \<Rightarrow> bool" where
  "glued_at line i = (case decodeSegmentLine (drop i line) of Inl _ \<Rightarrow> False | Inr (e, _) \<Rightarrow> validSegmentOp (Op e))"

definition scanSalvageLine :: "string \<Rightarrow> nat \<Rightarrow> nat \<Rightarrow> bool \<Rightarrow> SegmentReport \<Rightarrow> SegmentReport" where
  "scanSalvageLine line off n hasNewline rep =
     (if \<not> hasNewline then add_bad off n BadRegionTornTailLine rep
      else if n > maxScanTokenSize then add_bad off n BadRegionOversizedLine rep
      else if line = [] then add_bad off n BadRegionUndecodableJSON rep
      else if \<not> valid_utf8 line then add_bad off n BadRegionUndecodableJSON rep
      else case decodeSegmentLine line of
        Inr (e, tx) \<Rightarrow>
          if validSegmentOp (Op e) then add_entry e tx off n False rep else add_bad off n BadRegionWrongOp rep
      | Inl _ \<Rightarrow>
          (case List.find (glued_at line) (brace_starts line) of
             None \<Rightarrow> add_bad off n BadRegionUndecodableJSON rep
           | Some i \<Rightarrow> (case decodeSegmentLine (drop i line) of
               Inl _ \<Rightarrow> add_bad off n BadRegionUndecodableJSON rep
             | Inr (e, tx) \<Rightarrow> add_entry e tx (off + i) (n - i) True (add_bad off i BadRegionGluedLines rep))))"

fun scan_physical :: "nat \<Rightarrow> string list \<Rightarrow> string \<Rightarrow> SegmentReport \<Rightarrow> SegmentReport" where
  "scan_physical off [] rest rep = (if rest = [] then rep else scanSalvageLine rest off (length rest) False rep)"
| "scan_physical off (l # ls) rest rep =
     scan_physical (off + length l + 1) ls rest (scanSalvageLine l off (length l + 1) True rep)"

text \<open>\<open>None\<close> as the limit reads the whole file, as a negative one does in the source.\<close>

definition scanSegmentTolerantLimit :: "disk \<Rightarrow> string \<Rightarrow> nat option \<Rightarrow> seg_err + SegmentReport" where
  "scanSegmentTolerantLimit d p limit = (case map_of d p of
     None \<Rightarrow> Inl SegOpen
   | Some b \<Rightarrow>
       (let s = (case limit of None \<Rightarrow> b | Some n \<Rightarrow> take n b) in
        case split_nl s of (ls, rest) \<Rightarrow>
          Inr (scan_physical 0 ls rest \<lparr>rpPath = p, rpSize = length s, rpEntries = [], rpBad = []\<rparr>)))"

definition ScanSegmentTolerant :: "disk \<Rightarrow> string \<Rightarrow> seg_err + SegmentReport" where
  "ScanSegmentTolerant d p = scanSegmentTolerantLimit d p None"

section \<open>Printed JSON is valid UTF-8\<close>

lemma rune_len_append: "rune_len s \<noteq> 0 \<Longrightarrow> rune_len (s @ r) = rune_len s"
  using rune_len_take [of s "drop (rune_len s) s @ r"] by (simp flip: append_assoc)

lemma valid_append: "valid_utf8 a \<Longrightarrow> valid_utf8 b \<Longrightarrow> valid_utf8 (a @ b)"
proof (induction a rule: valid_utf8.induct)
  case (2 c cs)
  have n: "rune_len (c # cs) \<noteq> 0" using "2.prems"(1) by (simp add: valid_utf8.simps)
  have r: "rune_len ((c # cs) @ b) = rune_len (c # cs)" by (rule rune_len_append [OF n])
  have "rune_len (c # cs) - 1 \<le> length cs" using rune_len_le [of "c # cs"] by simp
  then have "drop (rune_len (c # cs) - 1) (cs @ b) = drop (rune_len (c # cs) - 1) cs @ b" by simp
  moreover have "valid_utf8 (drop (rune_len (c # cs) - 1) cs @ b)"
    using 2 by (simp add: valid_utf8.simps)
  ultimately show ?case using n r by (simp add: valid_utf8.simps)
qed simp

lemma valid_ascii_Cons: "byte c < 128 \<Longrightarrow> valid_utf8 s \<Longrightarrow> valid_utf8 (c # s)"
  by (simp add: valid_utf8.simps rune_len_ascii)

lemma rune_valid: "rune_len s \<noteq> 0 \<Longrightarrow> valid_utf8 (take (rune_len s) s)"
proof (cases s)
  case (Cons c cs)
  assume n: "rune_len s \<noteq> 0"
  have t: "take (rune_len s) s = c # take (rune_len s - 1) cs" using n Cons by (cases "rune_len s") auto
  have "rune_len (take (rune_len s) s) = rune_len s" using rune_len_take [OF n, of "[]"] by simp
  then show ?thesis using n t by (simp add: valid_utf8.simps)
qed simp

lemma esc_byte_ascii: "byte c < 128 \<Longrightarrow> list_all (\<lambda>c. byte c < 128) (esc_byte c)"
proof -
  have h: "byte (hex_digit n) < 128" if "n < 16" for n using that by (simp add: hex_digit_def)
  assume "byte c < 128"
  then show ?thesis by (simp add: esc_byte_def h less_mult_imp_div_less)
qed

lemma valid_esc_str: "valid_utf8 (esc_str s)"
proof (induction s rule: esc_str.induct)
  case (2 c cs)
  show ?case
  proof (cases "byte c < 128")
    case True
    then show ?thesis
      using 2 valid_append [OF valid_utf8_ascii [OF esc_byte_ascii [OF True]]] by simp
  next
    case False
    have a: "valid_utf8 (CHR 0x5C # ''ufffd'')" "valid_utf8 (CHR 0x5C # ''u2028'')" "valid_utf8 (CHR 0x5C # ''u2029'')"
      by (simp_all add: valid_utf8_ascii)
    show ?thesis
      using 2 False valid_append [OF a(1)] valid_append [OF a(2)] valid_append [OF a(3)]
        valid_append [OF rune_valid [of "c # cs"]] by (auto simp: Let_def)
  qed
qed simp

lemma valid_quote: "valid_utf8 (quote s)"
  using valid_append [OF valid_esc_str [of s], of "[CHR 0x22]"]
  by (simp add: quote_def valid_ascii_Cons valid_utf8_ascii)

lemma valid_commas: "\<forall>s\<in>set ss. valid_utf8 s \<Longrightarrow> valid_utf8 (commas ss)"
proof (induction ss rule: commas.induct)
  case (3 s t ss)
  have "valid_utf8 (CHR '','' # commas (t # ss))" by (rule valid_ascii_Cons) (use 3 in simp_all)
  then show ?case using valid_append [of s] 3 by simp
qed simp_all

lemma valid_print_lit: "lit_ok l \<Longrightarrow> valid_utf8 (print_lit l)"
proof -
  assume "lit_ok l"
  moreover have "byte c < 128" if "is_digit c" for c using that by (simp add: is_digit_def less_eq_char_def)
  ultimately have "list_all (\<lambda>c. byte c < 128) (print_lit l)"
    by (cases l) (auto simp: sign_str_def list_all_iff split: option.splits)
  then show ?thesis by (rule valid_utf8_ascii)
qed

lemma valid_print_json: "json_ok j \<Longrightarrow> valid_utf8 (print_json j)"
proof (induction j rule: print_json.induct)
  case (5 vs)
  then have "valid_utf8 (commas (map print_json vs))" by (intro valid_commas) (auto simp: list_all_iff)
  then show ?case
    using valid_append [of "commas (map print_json vs)" "'']''"] by (simp add: valid_ascii_Cons valid_utf8_ascii)
next
  case (6 kvs)
  let ?ms = "map (\<lambda>kv. quote (fst kv) @ CHR '':'' # print_json (snd kv)) kvs"
  have "valid_utf8 (quote (fst kv) @ CHR '':'' # print_json (snd kv))" if "kv \<in> set kvs" for kv
    using 6 that by (intro valid_append [OF valid_quote] valid_ascii_Cons) (auto simp: list_all_iff)
  then have "valid_utf8 (commas ?ms)" by (intro valid_commas) auto
  then show ?case using valid_append [of "commas ?ms" "''}''"] by (simp add: valid_ascii_Cons valid_utf8_ascii)
qed (simp_all add: valid_quote valid_print_lit valid_utf8_ascii)

lemma rec_line_utf8: "rec_ok r \<Longrightarrow> valid_utf8 (rec_line r)"
proof -
  assume ok: "rec_ok r"
  have "\<exists>j. json_ok j \<and> rec_bytes r = Inr (print_json j @ [NL])"
  proof (cases r)
    case (Plain e)
    then have e: "entry_ok e" using ok by (simp add: rec_ok_def)
    obtain c where c: "checksum e = Some c" using rec_line_props(1) [OF ok] Plain
      by (auto simp: rec_bytes_def Encode_def split: option.splits)
    have "entry_ok (e\<lparr>CRC := Some c\<rparr>)" using e by (simp add: entry_ok_def)
    then obtain kvs where "entry_json (e\<lparr>CRC := Some c\<rparr>) = Some (JObj kvs)" "json_ok (JObj kvs)"
      using entry_json_back [of "e\<lparr>CRC := Some c\<rparr>"] checksum_lt [OF c] by (auto simp del: json_ok.simps)
    then show ?thesis using Plain c by (auto simp: rec_bytes_def Encode_def simp del: json_ok.simps print_json.simps)
  next
    case (Stamped e)
    then have e: "stamped_ok e" using ok by (simp add: rec_ok_def)
    obtain c j where c: "stamped_json (e\<lparr>seCRC := c\<rparr>) = Some j" "rec_bytes r = Inr (print_json j @ [NL])"
      using rec_line_props(1) [OF ok] Stamped
      by (auto simp: rec_bytes_def encodeStamped_def split: option.splits sum.splits if_splits)
    have "data_ok (seData e)" using e by (simp add: stamped_ok_def)
    then obtain dm where dm: "data_member (seData e) = Some dm"
      "list_all (\<lambda>kv. valid_utf8 (fst kv) \<and> json_ok (snd kv)) dm" by (rule data_member_back)
    have "json_ok j"
      using c(1) dm e by (auto simp: stamped_json_def nat_member_def int_member_def stamped_ok_def stamp_json_def)
    then show ?thesis using c(2) by blast
  qed
  then show ?thesis using rec_line_props(1) [OF ok] valid_print_json by auto
qed

section \<open>Intact files\<close>

definition salvaged :: "nat \<times> entry \<times> TxStamp option \<Rightarrow> nat \<Rightarrow> SalvagedEntry" where
  "salvaged x n = (case x of (off, e, tx) \<Rightarrow> \<lparr>svEntry = e, svTx = tx, svOffset = off, svLength = n, svGlued = False\<rparr>)"

definition rec_op_ok :: "segrec \<Rightarrow> bool" where
  "rec_op_ok r = validSegmentOp (Op (fst (rec_view r)))"

text \<open>The salvaged form of the records laid out from an offset.\<close>

fun salvage_recs :: "nat \<Rightarrow> segrec list \<Rightarrow> SalvagedEntry list" where
  "salvage_recs off [] = []"
| "salvage_recs off (r # rs) =
     salvaged (off, rec_view r) (length (rec_line r) + 1) # salvage_recs (off + length (rec_line r) + 1) rs"

lemma salvage_line:
  assumes "rec_ok r" "rec_op_ok r"
  shows "scanSalvageLine (rec_line r) off (Suc (length (rec_line r))) True rep =
    rep\<lparr>rpEntries := rpEntries rep @ [salvaged (off, rec_view r) (Suc (length (rec_line r)))]\<rparr>"
proof -
  obtain e tx where v: "rec_view r = (e, tx)" by force
  show ?thesis
    using assms rec_line_props(3,5) [OF assms(1)] rec_line_utf8 [OF assms(1)] v
    by (simp add: scanSalvageLine_def add_entry_def salvaged_def rec_op_ok_def rec_ok_def)
qed

lemma salvage_lines:
  "list_all rec_ok rs \<Longrightarrow> list_all rec_op_ok rs \<Longrightarrow>
   scan_physical off (map rec_line rs) [] rep = rep\<lparr>rpEntries := rpEntries rep @ salvage_recs off rs\<rparr>"
  by (induction rs arbitrary: off rep) (simp_all add: salvage_line)

lemma salvage_file:
  assumes "list_all rec_ok rs" "list_all rec_op_ok rs" "map_of d p = Some b" "take n b = file_of rec_line rs"
  shows "scanSegmentTolerantLimit d p (Some n) =
    Inr \<lparr>rpPath = p, rpSize = length (file_of rec_line rs), rpEntries = salvage_recs 0 rs, rpBad = []\<rparr>"
proof -
  have "split_nl (file_of rec_line rs) = (map rec_line rs, [])"
    using split_join_nl [of "map rec_line rs" "[]"] assms(1) rec_line_props(2)
    by (auto simp: file_of_def list_all_iff)
  then show ?thesis using assms salvage_lines [OF assms(1,2), of 0] by (simp add: scanSegmentTolerantLimit_def)
qed

lemma salvage_recs_layout:
  "map (\<lambda>se. (svOffset se, svEntry se, svTx se)) (salvage_recs off rs) = layout rec_line rec_view off rs"
  by (induction rs arbitrary: off) (simp_all add: salvaged_def split: prod.splits)

text \<open>C22: on a file the engine wrote, the tolerant scanner reports no damaged region and finds exactly the
  entries, transaction stamps and offsets the strict scanner finds.\<close>

theorem tolerant_scan_agrees:
  assumes "seg_holds d s rs" "list_all rec_op_ok rs"
  shows "\<exists>rep. ScanSegmentTolerant d (segpath s) = Inr rep \<and> rpBad rep = []
    \<and> (map (\<lambda>se. (svOffset se, svEntry se, svTx se)) (rpEntries rep), None) = ScanStampedFromOffset d s 0"
proof -
  have h: "list_all rec_ok rs" "map_of d (segpath s) = Some (file_of rec_line rs)" using assms(1) by (simp_all add: seg_holds_def)
  have "ScanSegmentTolerant d (segpath s) = scanSegmentTolerantLimit d (segpath s) (Some (length (file_of rec_line rs)))"
    using h(2) by (simp add: ScanSegmentTolerant_def scanSegmentTolerantLimit_def)
  then show ?thesis
    using salvage_file [OF h(1) assms(2) h(2)] seg.scan_from [OF h(1), of d s "[]"] h(2) by (simp add: salvage_recs_layout)
qed

section \<open>Any file\<close>

text \<open>What a report accounts for up to an offset: its entries and regions have that many bytes in all, and
  every entry decodes from its own bytes.\<close>

definition accounts :: "string \<Rightarrow> nat \<Rightarrow> SegmentReport \<Rightarrow> bool" where
  "accounts s n rep \<longleftrightarrow> sum_list (map svLength (rpEntries rep)) + sum_list (map brLength (rpBad rep)) = n
     \<and> (\<forall>se\<in>set (rpEntries rep). 0 < svLength se \<and> svOffset se + svLength se \<le> n \<and> validSegmentOp (Op (svEntry se))
          \<and> decodeSegmentLine (take (svLength se - 1) (drop (svOffset se) s)) = Inr (svEntry se, svTx se))
     \<and> (\<forall>b\<in>set (rpBad rep). brOffset b + brLength b \<le> n)"

lemma accounts_bad:
  "accounts s off rep \<Longrightarrow> accounts s (off + n) (add_bad off n why rep)"
  by (fastforce simp: accounts_def add_bad_def)

lemma accounts_entry:
  assumes "accounts s off rep" "0 < n" "validSegmentOp (Op e)" "decodeSegmentLine (take (n - 1) (drop off s)) = Inr (e, tx)"
  shows "accounts s (off + n) (add_entry e tx off n g rep)"
  using assms by (fastforce simp: accounts_def add_entry_def)

lemma accounts_line:
  assumes "accounts s off rep" "drop off s = line @ NL # r"
  shows "accounts s (Suc (off + length line)) (scanSalvageLine line off (Suc (length line)) True rep)"
proof -
  have b: "accounts s (Suc (off + length line)) (add_bad off (Suc (length line)) why rep)" for why
    using accounts_bad [OF assms(1), of "Suc (length line)" why] by simp
  show ?thesis
  proof (cases "decodeSegmentLine line")
    case (Inr x)
    obtain e tx where x: "x = (e, tx)" by force
    have "validSegmentOp (Op e) \<Longrightarrow> accounts s (Suc (off + length line)) (add_entry e tx off (Suc (length line)) False rep)"
      using accounts_entry [OF assms(1), of "Suc (length line)" e tx False] assms(2) Inr x by simp
    then show ?thesis using b Inr x by (cases "line = []") (simp_all add: scanSalvageLine_def)
  next
    case (Inl err)
    show ?thesis
    proof (cases "List.find (glued_at line) (brace_starts line)")
      case None
      then show ?thesis using b Inl by (cases "line = []") (simp_all add: scanSalvageLine_def)
    next
      case (Some i)
      then have "glued_at line i" "i \<in> set (brace_starts line)"
        by (auto simp: find_Some_iff)
      then have i: "glued_at line i" "0 < i" "i < length line" by (auto simp: brace_starts_def)
      then obtain e tx where e: "decodeSegmentLine (drop i line) = Inr (e, tx)" "validSegmentOp (Op e)"
        by (auto simp: glued_at_def split: sum.splits)
      have "drop (off + i) s = drop i line @ NL # r" using assms(2) i(3) by (simp add: add.commute flip: drop_drop)
      then have "accounts s (off + i + (Suc (length line) - i))
          (add_entry e tx (off + i) (Suc (length line) - i) True (add_bad off i BadRegionGluedLines rep))"
        using e i by (intro accounts_entry [OF accounts_bad [OF assms(1)]]) (simp_all add: Suc_diff_le)
      moreover have "line \<noteq> []" using i(3) by auto
      ultimately show ?thesis using b Inl Some e i by (simp add: scanSalvageLine_def)
    qed
  qed
qed

lemma accounts_physical:
  "accounts s off rep \<Longrightarrow> drop off s = join_nl ls @ rest \<Longrightarrow> off \<le> length s \<Longrightarrow> list_all (\<lambda>l. NL \<notin> set l) ls \<Longrightarrow>
   accounts s (length s) (scan_physical off ls rest rep)"
proof (induction ls arbitrary: off rep)
  case Nil
  have "length s - off = length rest" using arg_cong [OF Nil.prems(2), of length] by (simp add: line_simps)
  then have "length s = off + length rest" using Nil.prems(3) by simp
  then show ?case using accounts_bad [OF Nil.prems(1)] Nil.prems(1) by (simp add: scanSalvageLine_def)
next
  case (Cons l ls)
  have d: "drop off s = l @ NL # (join_nl ls @ rest)" using Cons.prems(2) by (simp add: line_simps)
  have "drop (Suc (length l) + off) s = join_nl ls @ rest"
    using d unfolding drop_drop [symmetric] by simp
  moreover have "Suc (off + length l) \<le> length s" using arg_cong [OF d, of length] Cons.prems(3) by simp
  ultimately show ?case
    using Cons.IH [OF accounts_line [OF Cons.prems(1) d]] Cons.prems(4) by (simp add: add.commute)
qed



theorem tolerant_scan_agrees_witness:
  "\<exists>rep. ScanSegmentTolerant (om_ins ''seg_000001.ndjson'' (file_of rec_line [Plain sample_entry]) []) ''seg_000001.ndjson'' = Inr rep
    \<and> rpBad rep = []"
proof -
  let ?s = "\<lparr>segpath = ''seg_000001.ndjson'', segsize = length (file_of rec_line [Plain sample_entry]), sealed = False, hasfile = True,
    poisoned = False\<rparr>"
  have "seg_holds (om_ins ''seg_000001.ndjson'' (file_of rec_line [Plain sample_entry]) []) ?s [Plain sample_entry]"
    using sample_rec_ok by (simp add: seg_holds_def om_ok_def)
  moreover have "list_all rec_op_ok [Plain sample_entry]"
    by (simp add: rec_op_ok_def rec_view_def validSegmentOp_def sample_entry_def)
  ultimately show ?thesis using tolerant_scan_agrees [of _ ?s "[Plain sample_entry]"] by fastforce
qed

end
