(* ===== verification/Verify.thy ===== *)
theory Verify
  imports Salvage Collection
begin

text \<open>
  The integrity checks of \<open>engine/verify_checks.go\<close> and \<open>engine/verify.go\<close>: the ground truth replayed
  from tolerantly scanned segments, its comparison with the primary and secondary indexes, the check of
  persisted coverage, and the findings they report.  The text of a finding's message is not modelled,
  and a pass is never cancelled through its context.
\<close>

unbundle bit_operations_syntax

section \<open>Findings\<close>

definition or_zero :: "nat option \<Rightarrow> nat" where
  "or_zero x = (case x of None \<Rightarrow> 0 | Some n \<Rightarrow> n)"

datatype Severity = SeverityInfo | SeverityRepairableIndex | SeverityDataCorruption | SeverityConflict

definition severity_rank :: "Severity \<Rightarrow> nat" where
  "severity_rank s = (case s of
     SeverityInfo \<Rightarrow> 1 | SeverityRepairableIndex \<Rightarrow> 2 | SeverityDataCorruption \<Rightarrow> 3 | SeverityConflict \<Rightarrow> 4)"

record Location =
  lcSegment :: string
  lcOffset :: nat
  lcID :: nat
  lcField :: string

definition no_location :: Location where
  "no_location = \<lparr>lcSegment = [], lcOffset = 0, lcID = 0, lcField = []\<rparr>"

record Finding =
  fdSeverity :: Severity
  fdCode :: string
  fdCollection :: string
  fdLocation :: Location

record findingSink =
  skCollection :: string
  skMax :: nat
  skCounts :: "(string, nat) omap"
  skTruncated :: "(string, nat) omap"
  skOut :: "Finding list"

definition DefaultMaxFindingsPerCode :: nat where
  "DefaultMaxFindingsPerCode = 1000"

definition newFindingSink :: "string \<Rightarrow> nat \<Rightarrow> findingSink" where
  "newFindingSink name m = \<lparr>skCollection = name, skMax = m, skCounts = [], skTruncated = [], skOut = []\<rparr>"

definition bump :: "string \<Rightarrow> (string, nat) omap \<Rightarrow> (string, nat) omap" where
  "bump k m = om_ins k (or_zero (map_of m k) + 1) m"

definition sink_add :: "Severity \<Rightarrow> string \<Rightarrow> Location \<Rightarrow> findingSink \<Rightarrow> findingSink" where
  "sink_add sev code loc s =
     (let counts = bump code (skCounts s); s = s\<lparr>skCounts := counts\<rparr> in
      if or_zero (map_of counts code) > skMax s then s\<lparr>skTruncated := bump code (skTruncated s)\<rparr>
      else s\<lparr>skOut := skOut s @
        [\<lparr>fdSeverity = sev, fdCode = code, fdCollection = skCollection s, fdLocation = loc\<rparr>]\<rparr>)"

section \<open>What a pass looks at\<close>

record vseg =
  vsSeg :: segment
  vsPath :: string
  vsName :: string
  vsNum :: nat
  vsSize :: nat

record sidxView =
  svField :: string
  svUnique :: bool
  svBuckets :: "(string, nat list) omap"
  svCov :: "SegmentCoverage list"
  svCovKnown :: bool

record VerifyStats =
  vtSegments :: nat
  vtSegmentBytes :: nat
  vtEntries :: nat
  vtLiveRecords :: nat
  vtBadRegions :: nat
  vtIndexEntries :: nat
  vtSecondaryIndexes :: nat

record verifyInput =
  viName :: string
  viDir :: string
  viFull :: bool
  viNow :: int
  viMax :: nat
  viPersisted :: bool
  viSegs :: "vseg list"
  viHasIndex :: bool
  viIndex :: locs
  viIndexCov :: "SegmentCoverage list"
  viIndexCovKnown :: bool
  viSidx :: "sidxView list"
  viIdCounter :: nat
  viIdCounterKnown :: bool
  viIdCounterLive :: bool

definition vseg_of :: "segment \<Rightarrow> vseg" where
  "vseg_of s = \<lparr>vsSeg = s, vsPath = segpath s, vsName = Base (segpath s),
     vsNum = or_zero (segmentNum (segpath s)), vsSize = segsize s\<rparr>"

section \<open>The ground truth\<close>

record truthRec =
  tSeg :: string
  tOff :: nat
  tRev :: nat
  tLastRev :: nat
  tExp :: int
  tEpoch :: nat
  tHash :: nat
  tLive :: bool
  tDeleted :: bool
  tKeys :: "(string, string) omap"

definition zero_truth :: truthRec where
  "zero_truth = \<lparr>tSeg = [], tOff = 0, tRev = 0, tLastRev = 0, tExp = 0, tEpoch = 0, tHash = 0, tLive = False,
     tDeleted = False, tKeys = []\<rparr>"

text \<open>\<open>hash/fnv\<close>, 64 bits, variant 1a.\<close>

definition fnv64a :: "string \<Rightarrow> nat" where
  "fnv64a s = fold (\<lambda>c h. u64 ((h XOR byte c) * 1099511628211)) s 14695981039346656037"

definition dataHash :: "gmap option \<Rightarrow> nat" where
  "dataHash data = fnv64a (case data of
     None \<Rightarrow> ''null''
   | Some m \<Rightarrow> (case marshal_gval (JObj m) of None \<Rightarrow> [] | Some b \<Rightarrow> b))"

definition at_loc :: "string \<Rightarrow> nat \<Rightarrow> nat \<Rightarrow> Location" where
  "at_loc seg off rid = \<lparr>lcSegment = seg, lcOffset = off, lcID = rid, lcField = []\<rparr>"

definition checkHistory :: "Location \<Rightarrow> truthRec \<Rightarrow> entry \<Rightarrow> nat \<Rightarrow> findingSink \<Rightarrow> findingSink" where
  "checkHistory loc prev e h sink =
     (if tDeleted prev \<and> Op e = OpInsert then sink_add SeverityConflict ''conflict-id-reuse-after-delete'' loc sink
      else if tDeleted prev then sink_add SeverityConflict ''conflict-write-after-delete'' loc sink
      else if Op e = OpInsert then
        (if Rev e = tLastRev prev \<and> h = tHash prev then sink_add SeverityInfo ''duplicate-record-identical'' loc sink
         else sink_add SeverityConflict ''conflict-duplicate-id'' loc sink)
      else if Rev e > 0 \<and> tLastRev prev > 0 \<and> Rev e < tLastRev prev then
        sink_add SeverityConflict ''conflict-revision-regression'' loc sink
      else if Rev e > 0 \<and> Rev e = tLastRev prev then
        (if h = tHash prev then sink_add SeverityInfo ''duplicate-record-identical'' loc sink
         else sink_add SeverityConflict ''conflict-revision-regression'' loc sink)
      else sink)"

record truthBuilder =
  tbTruth :: "(nat, truthRec) omap"
  tbAt :: "(string \<times> nat, nat) omap"
  tbMaxID :: nat
  tbFields :: "string list"

definition newTruthBuilder :: "verifyInput \<Rightarrow> truthBuilder" where
  "newTruthBuilder inp = \<lparr>tbTruth = [], tbAt = [], tbMaxID = 0, tbFields = map svField (viSidx inp)\<rparr>"

definition isStringValue :: "gval \<Rightarrow> bool" where
  "isStringValue v = (case v of JStr _ \<Rightarrow> True | _ \<Rightarrow> False)"

definition truth_keys :: "string list \<Rightarrow> gmap option \<Rightarrow> (string, string) omap" where
  "truth_keys fs data = fold (\<lambda>f ks. case field_of f data of
     None \<Rightarrow> ks
   | Some v \<Rightarrow> if f \<noteq> KeyField \<or> isStringValue v then om_ins f (toIndexKey v) ks else ks) fs []"

definition fold_one :: "string \<Rightarrow> SalvagedEntry \<Rightarrow> truthBuilder \<times> findingSink \<Rightarrow> truthBuilder \<times> findingSink" where
  "fold_one seg se st = (case st of (tb, sink) \<Rightarrow>
     (let e = svEntry se;
          tb = tb\<lparr>tbAt := om_ins (seg, svOffset se) (ID e) (tbAt tb), tbMaxID := max (ID e) (tbMaxID tb)\<rparr>;
          prev = map_of (tbTruth tb) (ID e)
      in if Op e = OpInsert \<or> Op e = OpUpdate then
           (let h = dataHash (Data e);
                sink = (case prev of None \<Rightarrow> sink
                  | Some r \<Rightarrow> checkHistory (at_loc seg (svOffset se) (ID e)) r e h sink);
                rv = max (u64 ((case prev of None \<Rightarrow> 0 | Some r \<Rightarrow> tRev r) + 1)) (Rev e);
                r = \<lparr>tSeg = seg, tOff = svOffset se, tRev = rv, tLastRev = Rev e, tExp = ExpiresAt e, tEpoch = Epoch e,
                     tHash = h, tLive = True, tDeleted = False, tKeys = truth_keys (tbFields tb) (Data e)\<rparr>
            in (tb\<lparr>tbTruth := om_ins (ID e) r (tbTruth tb)\<rparr>, sink))
         else if Op e = OpDelete then
           (tb\<lparr>tbTruth := om_ins (ID e) (zero_truth\<lparr>tDeleted := True\<rparr>) (tbTruth tb)\<rparr>, sink)
         else (tb, sink)))"

definition fold_truth :: "string \<Rightarrow> SalvagedEntry list \<Rightarrow> truthBuilder \<times> findingSink \<Rightarrow> truthBuilder \<times> findingSink" where
  "fold_truth seg ses st = fold (fold_one seg) ses st"

definition reportBadRegion :: "vseg \<Rightarrow> bool \<Rightarrow> BadRegion \<Rightarrow> findingSink \<Rightarrow> findingSink" where
  "reportBadRegion s newest br sink =
     (let loc = at_loc (vsName s) (brOffset br) 0 in
      case brReason br of
        BadRegionTornTailLine \<Rightarrow>
          if newest \<and> brOffset br + brLength br = vsSize s then sink_add SeverityInfo ''segment-torn-tail'' loc sink
          else sink_add SeverityDataCorruption ''segment-torn-tail'' loc sink
      | BadRegionGluedLines \<Rightarrow> sink_add SeverityDataCorruption ''segment-glued-line'' loc sink
      | _ \<Rightarrow> sink_add SeverityDataCorruption ''segment-bad-region'' loc sink)"

section \<open>The primary index\<close>

definition check_index_entry ::
  "(nat, truthRec) omap \<Rightarrow> (string \<times> nat, nat) omap \<Rightarrow> nat \<times> IndexEntry \<Rightarrow> findingSink \<Rightarrow> findingSink" where
  "check_index_entry truth places ie sink = (case ie of (rid, e) \<Rightarrow>
     (let base = Base (SegmentPath e); loc = at_loc base (Offset e) rid; got = map_of places (base, Offset e) in
      case map_of truth rid of
        None \<Rightarrow> (case got of
          Some _ \<Rightarrow> sink_add SeverityRepairableIndex ''index-wrong-record'' loc sink
        | None \<Rightarrow> sink_add SeverityRepairableIndex ''index-dangling-entry'' loc sink)
      | Some t \<Rightarrow>
          if tDeleted t then sink_add SeverityRepairableIndex ''index-resurrected-delete'' loc sink
          else if tSeg t \<noteq> base \<or> tOff t \<noteq> Offset e then
            (case got of
               None \<Rightarrow> sink_add SeverityRepairableIndex ''index-dangling-offset'' loc sink
             | Some g \<Rightarrow> if g \<noteq> rid then sink_add SeverityRepairableIndex ''index-wrong-record'' loc sink
                 else sink_add SeverityRepairableIndex ''index-stale-record'' loc sink)
          else if IRev e \<noteq> tRev t \<or> IExpiresAt e \<noteq> tExp t \<or> IEpoch e \<noteq> tEpoch t then
            sink_add SeverityRepairableIndex ''index-stale-record'' loc sink
          else sink))"

definition check_indexed :: "locs \<Rightarrow> nat \<times> truthRec \<Rightarrow> findingSink \<Rightarrow> findingSink" where
  "check_indexed idx rt sink = (case rt of (rid, t) \<Rightarrow>
     if tLive t \<and> map_of idx rid = None
     then sink_add SeverityRepairableIndex ''index-missing-record'' (at_loc (tSeg t) (tOff t) rid) sink else sink)"

definition check_expired :: "int \<Rightarrow> nat \<times> truthRec \<Rightarrow> findingSink \<Rightarrow> findingSink" where
  "check_expired t rt sink = (case rt of (rid, r) \<Rightarrow>
     if tLive r \<and> tExp r > 0 \<and> tExp r \<le> t
     then sink_add SeverityInfo ''record-expired-live'' (at_loc (tSeg r) (tOff r) rid) sink else sink)"

definition compareIndex ::
  "verifyInput \<Rightarrow> (nat, truthRec) omap \<Rightarrow> (string \<times> nat, nat) omap \<Rightarrow> findingSink \<Rightarrow> findingSink" where
  "compareIndex inp truth places sink =
     (let sink = (if viHasIndex inp
        then fold (check_indexed (viIndex inp)) truth (fold (check_index_entry truth places) (viIndex inp) sink)
        else sink)
      in fold (check_expired (viNow inp)) truth sink)"

section \<open>Secondary indexes\<close>

definition member_keys :: "(string, nat list) omap \<Rightarrow> (nat, string list) omap" where
  "member_keys bs = map (\<lambda>(i, ks). (i, sort ks))
     (fold (\<lambda>(k, ids). fold (\<lambda>i m. om_ins i ((case map_of m i of None \<Rightarrow> [] | Some ks \<Rightarrow> ks) @ [k]) m) ids) bs [])"

definition field_loc :: "nat \<Rightarrow> string \<Rightarrow> Location" where
  "field_loc rid f = no_location\<lparr>lcID := rid, lcField := f\<rparr>"

definition check_member :: "(nat, truthRec) omap \<Rightarrow> (nat, string list) omap \<Rightarrow> string \<Rightarrow> nat \<Rightarrow> findingSink \<Rightarrow> findingSink" where
  "check_member truth member f rid sink =
     (let tk = (case map_of truth rid of None \<Rightarrow> None | Some t \<Rightarrow> if tLive t then map_of (tKeys t) f else None);
          sk = (case map_of member rid of None \<Rightarrow> [] | Some ks \<Rightarrow> ks)
      in case tk of
        Some k \<Rightarrow>
          if sk = [] then sink_add SeverityRepairableIndex ''sidx-missing-entry'' (field_loc rid f) sink
          else if sk \<noteq> [k] then sink_add SeverityRepairableIndex ''sidx-wrong-bucket'' (field_loc rid f) sink
          else sink
      | None \<Rightarrow>
          if sk \<noteq> [] then sink_add SeverityRepairableIndex ''sidx-extra-entry'' (field_loc rid f) sink else sink)"

definition reportUnique :: "string \<Rightarrow> (string, nat list) omap \<Rightarrow> findingSink \<Rightarrow> findingSink" where
  "reportUnique f byKey sink = fold
     (\<lambda>(k, ids). sink_add SeverityConflict (if f = KeyField then ''key-duplicate'' else ''sidx-unique-violation'')
        (field_loc (hd (sort ids)) f))
     (List.filter (\<lambda>(_, ids). length ids > 1) byKey) sink"

definition by_key :: "string \<Rightarrow> (nat, truthRec) omap \<Rightarrow> (string, nat list) omap" where
  "by_key f truth = fold (\<lambda>(rid, t) m.
     if tLive t then (case map_of (tKeys t) f of
       None \<Rightarrow> m
     | Some k \<Rightarrow> om_ins k ((case map_of m k of None \<Rightarrow> [] | Some ids \<Rightarrow> ids) @ [rid]) m) else m) truth []"

definition compare_view :: "(nat, truthRec) omap \<Rightarrow> sidxView \<Rightarrow> findingSink \<Rightarrow> findingSink" where
  "compare_view truth v sink =
     (let member = member_keys (svBuckets v);
          ids = sort (remdups (map fst member @ map fst (List.filter (\<lambda>(_, t). tLive t) truth)));
          sink = fold (check_member truth member (svField v)) ids sink
      in if svUnique v then reportUnique (svField v) (by_key (svField v) truth) sink else sink)"

definition compareSidx :: "verifyInput \<Rightarrow> (nat, truthRec) omap \<Rightarrow> findingSink \<Rightarrow> findingSink" where
  "compareSidx inp truth sink = fold (compare_view truth) (viSidx inp) sink"

definition uniqueFromBuckets :: "sidxView \<Rightarrow> findingSink \<Rightarrow> findingSink" where
  "uniqueFromBuckets v sink = (if svUnique v then reportUnique (svField v) (svBuckets v) sink else sink)"

section \<open>Spot checks and coverage\<close>

definition spotCheckNewest :: nat where
  "spotCheckNewest = 16"

definition spotCheckRandom :: nat where
  "spotCheckRandom = 64"

definition recordStartsWithID :: "disk \<Rightarrow> segment \<Rightarrow> nat \<Rightarrow> nat \<Rightarrow> bool" where
  "recordStartsWithID d s off rid =
     (if off \<ge> segsize s then False
      else if off > 0 \<and> (case map_of d (segpath s) of None \<Rightarrow> True | Some b \<Rightarrow> length b < off \<or> b ! (off - 1) \<noteq> NL) then False
      else case ReadAt d s off of Inl _ \<Rightarrow> False | Inr e \<Rightarrow> ID e = rid)"

definition coverageMatches :: "disk \<Rightarrow> segment \<Rightarrow> SegmentCoverage \<Rightarrow> bool" where
  "coverageMatches d s cv =
     (CovChecksum cv \<noteq> [] \<and> (case map_of d (segpath s) of
        None \<Rightarrow> False | Some b \<Rightarrow> prefixChecksum b (CovSize cv) = Some (CovChecksum cv)))"

fun every_nth :: "nat \<Rightarrow> nat \<Rightarrow> 'a list \<Rightarrow> 'a list" where
  "every_nth step k [] = []"
| "every_nth step k (x # xs) = (if k = 0 then x # every_nth step (step - 1) xs else every_nth step (k - 1) xs)"

text \<open>The newest entries by id, and evenly spaced others.\<close>

definition spot_picks :: "nat list \<Rightarrow> nat list" where
  "spot_picks ids =
     (let rest = length ids - spotCheckNewest in
      every_nth (max 1 (rest div spotCheckRandom)) 0 (take rest ids) @ drop rest ids)"

definition find_vseg :: "verifyInput \<Rightarrow> string \<Rightarrow> vseg option" where
  "find_vseg inp name = List.find (\<lambda>s. vsName s = name) (rev (viSegs inp))"

definition spotCheckIndex :: "disk \<Rightarrow> verifyInput \<Rightarrow> findingSink \<Rightarrow> findingSink" where
  "spotCheckIndex d inp sink =
     (if \<not> viHasIndex inp then sink
      else fold (\<lambda>rid sink. case map_of (viIndex inp) rid of
          None \<Rightarrow> sink
        | Some ie \<Rightarrow>
            (let base = Base (SegmentPath ie) in
             if (case find_vseg inp base of None \<Rightarrow> False | Some s \<Rightarrow> recordStartsWithID d (vsSeg s) (Offset ie) rid)
             then sink
             else sink_add SeverityRepairableIndex ''index-spotcheck-failed'' (at_loc base (Offset ie) rid) sink))
        (spot_picks (om_keys (viIndex inp))) sink)"

record cov_state =
  csCovered :: "string list"
  csMax :: nat
  csLast :: string
  csLastSize :: nat
  csBad :: bool

definition check_cov_one ::
  "disk \<Rightarrow> verifyInput \<Rightarrow> string \<Rightarrow> Location \<Rightarrow> SegmentCoverage \<Rightarrow> cov_state \<times> findingSink \<Rightarrow> cov_state \<times> findingSink" where
  "check_cov_one d inp what base cv st = (case st of (cs, sink) \<Rightarrow>
     (let loc = base\<lparr>lcSegment := CovSegment cv\<rparr> in
      case find_vseg inp (CovSegment cv) of
        None \<Rightarrow> (cs\<lparr>csBad := True\<rparr>, sink_add SeverityRepairableIndex (what @ ''-coverage-segment-missing'') loc sink)
      | Some s \<Rightarrow>
          if CovSegment cv \<in> set (csCovered cs)
          then (cs\<lparr>csBad := True\<rparr>, sink_add SeverityRepairableIndex (what @ ''-coverage-mismatch'') loc sink)
          else
            (let bad = (vsSize s < CovSize cv \<or> \<not> coverageMatches d (vsSeg s) cv);
                 cs = cs\<lparr>csCovered := CovSegment cv # csCovered cs, csBad := csBad cs \<or> bad\<rparr>;
                 sink = (if bad then sink_add SeverityRepairableIndex (what @ ''-coverage-mismatch'') loc sink else sink)
             in (if vsNum s \<ge> csMax cs
                 then cs\<lparr>csMax := vsNum s, csLast := CovSegment cv, csLastSize := CovSize cv\<rparr> else cs, sink))))"

definition check_cov_grown ::
  "verifyInput \<Rightarrow> string \<Rightarrow> Location \<Rightarrow> SegmentCoverage \<Rightarrow> cov_state \<times> findingSink \<Rightarrow> cov_state \<times> findingSink" where
  "check_cov_grown inp what base cv st = (case st of (cs, sink) \<Rightarrow>
     (case find_vseg inp (CovSegment cv) of
        None \<Rightarrow> (cs, sink)
      | Some s \<Rightarrow>
          if vsName s \<noteq> csLast cs \<and> vsSize s > CovSize cv
          then (cs\<lparr>csBad := True\<rparr>,
            sink_add SeverityRepairableIndex (what @ ''-coverage-mismatch'') (base\<lparr>lcSegment := CovSegment cv\<rparr>) sink)
          else (cs, sink)))"

definition check_uncovered :: "string \<Rightarrow> Location \<Rightarrow> cov_state \<Rightarrow> vseg \<Rightarrow> findingSink \<Rightarrow> findingSink" where
  "check_uncovered what base cs s sink =
     (let loc = base\<lparr>lcSegment := vsName s\<rparr> in
      if vsName s \<in> set (csCovered cs) then sink
      else if vsNum s > csMax cs then
        (if vsSize s > 0 then sink_add SeverityRepairableIndex (what @ ''-stale-tail'') loc sink else sink)
      else sink_add SeverityRepairableIndex (what @ ''-segment-unlisted'') loc sink)"

definition checkCoverage ::
  "disk \<Rightarrow> verifyInput \<Rightarrow> string \<Rightarrow> Location \<Rightarrow> SegmentCoverage list \<Rightarrow> bool \<Rightarrow> nat \<Rightarrow> findingSink \<Rightarrow> findingSink" where
  "checkCoverage d inp what base cov known nEntries sink =
     (if \<not> known then sink_add SeverityRepairableIndex (what @ ''-coverage-unknown'') base sink
      else if cov = [] \<and> nEntries > 0 then sink_add SeverityRepairableIndex (what @ ''-coverage-mismatch'') base sink
      else case fold (check_cov_grown inp what base) cov
          (fold (check_cov_one d inp what base) cov
            (\<lparr>csCovered = [], csMax = 0, csLast = [], csLastSize = 0, csBad = False\<rparr>, sink)) of
        (cs, sink) \<Rightarrow>
          if csBad cs then sink
          else
            (let sink = (case find_vseg inp (csLast cs) of
                  Some s \<Rightarrow> if vsSize s > csLastSize cs
                    then sink_add SeverityRepairableIndex (what @ ''-stale-tail'')
                      (base\<lparr>lcSegment := csLast cs, lcOffset := csLastSize cs\<rparr>) sink else sink
                | None \<Rightarrow> sink)
             in fold (check_uncovered what base cs) (viSegs inp) sink))"

section \<open>A pass\<close>

record check_state =
  ckStats :: VerifyStats
  ckTruth :: truthBuilder
  ckActiveMax :: nat
  ckSink :: findingSink

text \<open>One segment: its bad regions are reported, and in a full pass its entries are folded into the
  ground truth.\<close>

definition scan_vseg :: "disk \<Rightarrow> bool \<Rightarrow> bool \<Rightarrow> vseg \<Rightarrow> check_state \<Rightarrow> check_state" where
  "scan_vseg d full newest s st = (case scanSegmentTolerantLimit d (vsPath s) (Some (vsSize s)) of
     Inl _ \<Rightarrow> st\<lparr>ckSink := sink_add SeverityDataCorruption ''segment-unreadable''
        (no_location\<lparr>lcSegment := vsName s\<rparr>) (ckSink st)\<rparr>
   | Inr rep \<Rightarrow>
       (let st = st\<lparr>ckStats := (ckStats st)\<lparr>vtBadRegions := vtBadRegions (ckStats st) + length (rpBad rep)\<rparr>,
                    ckSink := fold (reportBadRegion s newest) (rpBad rep) (ckSink st),
                    ckActiveMax := (if newest then fold (\<lambda>se m. max (ID (svEntry se)) m) (rpEntries rep) (ckActiveMax st)
                      else ckActiveMax st)\<rparr>
        in if full then
             (case fold_truth (vsName s) (rpEntries rep) (ckTruth st, ckSink st) of (tb, sink) \<Rightarrow>
                st\<lparr>ckStats := (ckStats st)\<lparr>vtEntries := vtEntries (ckStats st) + length (rpEntries rep)\<rparr>,
                   ckTruth := tb, ckSink := sink\<rparr>)
           else st))"

fun scan_vsegs :: "disk \<Rightarrow> vseg list \<Rightarrow> check_state \<Rightarrow> check_state" where
  "scan_vsegs d [] st = st"
| "scan_vsegs d (s # ss) st = scan_vsegs d ss (scan_vseg d True (ss = []) s st)"

definition check_persisted :: "disk \<Rightarrow> verifyInput \<Rightarrow> findingSink \<Rightarrow> findingSink" where
  "check_persisted d inp sink =
     (if \<not> viPersisted inp then sink
      else fold (\<lambda>v. checkCoverage d inp ''sidx'' (no_location\<lparr>lcField := svField v\<rparr>) (svCov v) (svCovKnown v)
              (length (svBuckets v))) (viSidx inp)
          (if viHasIndex inp
           then checkCoverage d inp ''index'' no_location (viIndexCov inp) (viIndexCovKnown inp) (length (viIndex inp)) sink
           else sink))"

definition start_state :: "verifyInput \<Rightarrow> findingSink \<Rightarrow> check_state" where
  "start_state inp sink =
     \<lparr>ckStats = \<lparr>vtSegments = length (viSegs inp), vtSegmentBytes = sum_list (map vsSize (viSegs inp)), vtEntries = 0,
        vtLiveRecords = 0, vtBadRegions = 0, vtIndexEntries = length (viIndex inp),
        vtSecondaryIndexes = length (viSidx inp)\<rparr>,
      ckTruth = newTruthBuilder inp, ckActiveMax = 0, ckSink = sink\<rparr>"

definition runChecks :: "disk \<Rightarrow> verifyInput \<Rightarrow> findingSink \<Rightarrow> VerifyStats \<times> findingSink" where
  "runChecks d inp sink =
     (let st = start_state inp (check_persisted d inp sink);
          st = (if viFull inp then scan_vsegs d (viSegs inp) st
                else if viPersisted inp \<and> viSegs inp \<noteq> [] then scan_vseg d False True (last (viSegs inp)) st
                else st);
          truth = tbTruth (ckTruth st);
          (stats, maxObserved, sink) =
            (if viFull inp then
               ((ckStats st)\<lparr>vtLiveRecords := length (List.filter (\<lambda>(_, t). tLive t) truth)\<rparr>, tbMaxID (ckTruth st),
                compareSidx inp truth (compareIndex inp truth (tbAt (ckTruth st)) (ckSink st)))
             else
               (ckStats st, fold max (om_keys (viIndex inp)) 0,
                fold uniqueFromBuckets (viSidx inp) (spotCheckIndex d inp (ckSink st))));
          eff = (if \<not> viIdCounterLive inp then max (viIdCounter inp) (ckActiveMax st) else viIdCounter inp)
      in (stats, if viIdCounterKnown inp \<and> eff < maxObserved
                 then sink_add SeverityRepairableIndex ''idcounter-behind'' no_location sink else sink))"

section \<open>Reports\<close>

record CollectionReport =
  crName :: string
  crFull :: bool
  crStats :: VerifyStats
  crFindings :: "Finding list"
  crTruncated :: "(string, nat) omap"

definition report_of :: "verifyInput \<Rightarrow> VerifyStats \<Rightarrow> findingSink \<Rightarrow> CollectionReport" where
  "report_of inp stats sink = \<lparr>crName = viName inp, crFull = viFull inp, crStats = stats, crFindings = skOut sink,
     crTruncated = skTruncated sink\<rparr>"

definition blockingFindings :: "CollectionReport \<Rightarrow> bool" where
  "blockingFindings r = list_ex (\<lambda>f. severity_rank (fdSeverity f) \<ge> severity_rank SeverityDataCorruption) (crFindings r)"

definition MaxSeverity :: "Finding list \<Rightarrow> nat" where
  "MaxSeverity fs = fold (\<lambda>f m. max (severity_rank (fdSeverity f)) m) fs 0"

definition Clean_report :: "Finding list \<Rightarrow> bool" where
  "Clean_report fs \<longleftrightarrow> MaxSeverity fs \<le> severity_rank SeverityInfo"

definition HasCode :: "Finding list \<Rightarrow> string \<Rightarrow> bool" where
  "HasCode fs code = list_ex (\<lambda>f. fdCode f = code) fs"

end
