(* ===== verification/Manifest.thy ===== *)
theory Manifest
  imports Collection
begin

text \<open>
  The record of an unfinished compaction swap, \<open>engine/compact_manifest.go\<close>, and its recovery when a
  collection is opened.  Every read, rename and removal consumes one outcome of the file operations.
\<close>

section \<open>The manifest file\<close>

record compactManifest =
  mRenames :: "(string, string) omap"
  mRemovals :: "string list"

definition compactManifestPath :: "string \<Rightarrow> string" where
  "compactManifestPath dir = dir @ ''/compact.manifest''"

definition manifestPathForDisk :: "string \<Rightarrow> string \<Rightarrow> string" where
  "manifestPathForDisk dir p = (if Dir p = dir then Base p else p)"

definition manifestPathFromDisk :: "string \<Rightarrow> string \<Rightarrow> string" where
  "manifestPathFromDisk dir p = (if p = Base p then Join dir p else p)"

definition compactManifestForDisk :: "string \<Rightarrow> compactManifest \<Rightarrow> compactManifest" where
  "compactManifestForDisk dir m =
     \<lparr>mRenames = om_of (map (\<lambda>(s, t). (manifestPathForDisk dir s, manifestPathForDisk dir t)) (mRenames m)),
      mRemovals = map (manifestPathForDisk dir) (mRemovals m)\<rparr>"

definition compactManifestFromDisk :: "string \<Rightarrow> compactManifest \<Rightarrow> compactManifest" where
  "compactManifestFromDisk dir m =
     \<lparr>mRenames = om_of (map (\<lambda>(s, t). (manifestPathFromDisk dir s, manifestPathFromDisk dir t)) (mRenames m)),
      mRemovals = map (manifestPathFromDisk dir) (mRemovals m)\<rparr>"

definition manifest_json :: "compactManifest \<Rightarrow> jtext" where
  "manifest_json m = JObj [(''renames'', JObj (map (\<lambda>(s, t). (s, JStr t)) (mRenames m))),
     (''removals'', JArr (map JStr (mRemovals m)))]"

definition writeCompactManifest :: "compactManifest \<Rightarrow> collection \<Rightarrow> bool \<times> collection" where
  "writeCompactManifest m c =
     writeFileAtomic (compactManifestPath (cdir c)) (print_json (manifest_json (compactManifestForDisk (cdir c) m))) c"

fun get_strmap :: "(string \<times> jtext) list \<Rightarrow> (string, string) omap \<Rightarrow> (string, string) omap option" where
  "get_strmap [] m = Some m"
| "get_strmap ((k, j) # kvs) m = (case get_str j [] of None \<Rightarrow> None | Some s \<Rightarrow> get_strmap kvs (om_ins k s m))"

definition set_manifest_field :: "string \<times> jtext \<Rightarrow> compactManifest \<Rightarrow> compactManifest option" where
  "set_manifest_field kv m =
     (let k = fold_name (fst kv); j = snd kv in
      if k = ''renames'' then
        (case j of
           JNull \<Rightarrow> Some (m\<lparr>mRenames := []\<rparr>)
         | JObj kvs \<Rightarrow> map_option (\<lambda>x. m\<lparr>mRenames := x\<rparr>) (get_strmap kvs (mRenames m))
         | _ \<Rightarrow> None)
      else if k = ''removals'' then map_option (\<lambda>x. m\<lparr>mRemovals := x\<rparr>) (get_strlist j)
      else Some m)"

definition parse_manifest :: "string \<Rightarrow> compactManifest option" where
  "parse_manifest b = Option.bind (parse_json b) (\<lambda>j. get_struct set_manifest_field j \<lparr>mRenames = [], mRemovals = []\<rparr>)"

section \<open>Recovery\<close>

datatype manifest_err = ManifestRead | ManifestUnmarshal | ManifestStat | ManifestRename | ManifestRemove | ManifestSync

text \<open>\<open>os.Remove\<close>, for which a missing file is no error.\<close>

definition remove_file :: "string \<Rightarrow> collection \<Rightarrow> manifest_err option \<times> collection" where
  "remove_file p c =
     (if map_of (files c) p = None then (None, c)
      else case sys_next c of (r, c) \<Rightarrow>
        if sr_ok r then (None, c\<lparr>files := om_del p (files c)\<rparr>) else (Some ManifestRemove, c))"

fun remove_files :: "string list \<Rightarrow> collection \<Rightarrow> manifest_err option \<times> collection" where
  "remove_files [] c = (None, c)"
| "remove_files (p # ps) c = (case remove_file p c of
     (Some err, c) \<Rightarrow> (Some err, c)
   | (None, c) \<Rightarrow> remove_files ps c)"

definition discardCompactTemps :: "collection \<Rightarrow> manifest_err option \<times> collection" where
  "discardCompactTemps c = remove_files (List.filter (glob_match (cdir c) ''.compact_'' []) (om_keys (files c))) c"

definition fsync_dir :: "collection \<Rightarrow> manifest_err option \<times> collection" where
  "fsync_dir c = (case sys_next c of (r, c) \<Rightarrow> (if sr_ok r then None else Some ManifestSync, c))"

definition clearCompactManifest :: "collection \<Rightarrow> manifest_err option \<times> collection" where
  "clearCompactManifest c = (case remove_file (compactManifestPath (cdir c)) c of
     (Some err, c) \<Rightarrow> (Some err, c)
   | (None, c) \<Rightarrow> fsync_dir c)"

definition apply_rename :: "string \<Rightarrow> string \<Rightarrow> collection \<Rightarrow> manifest_err option \<times> collection" where
  "apply_rename src dst c = (case sys_next c of (r1, c) \<Rightarrow>
     if \<not> sr_ok r1 then (Some ManifestStat, c)
     else case map_of (files c) src of
       None \<Rightarrow> (None, c)
     | Some b \<Rightarrow> (case sys_next c of (r2, c) \<Rightarrow>
         if sr_ok r2 then (None, c\<lparr>files := om_ins dst b (om_del src (files c))\<rparr>) else (Some ManifestRename, c)))"

fun apply_renames :: "(string \<times> string) list \<Rightarrow> collection \<Rightarrow> manifest_err option \<times> collection" where
  "apply_renames [] c = (None, c)"
| "apply_renames ((src, dst) # rs) c = (case apply_rename src dst c of
     (Some err, c) \<Rightarrow> (Some err, c)
   | (None, c) \<Rightarrow> apply_renames rs c)"

definition roll_forward :: "compactManifest \<Rightarrow> collection \<Rightarrow> manifest_err option \<times> collection" where
  "roll_forward m c = (case apply_renames (mRenames m) c of
     (Some err, c) \<Rightarrow> (Some err, c)
   | (None, c) \<Rightarrow> (case remove_files (mRemovals m) c of
       (Some err, c) \<Rightarrow> (Some err, c)
     | (None, c) \<Rightarrow> (case discardCompactTemps c of
         (Some err, c) \<Rightarrow> (Some err, c)
       | (None, c) \<Rightarrow> (case fsync_dir c of
           (Some err, c) \<Rightarrow> (Some err, c)
         | (None, c) \<Rightarrow> clearCompactManifest c))))"

definition recoverCompaction :: "collection \<Rightarrow> (bool \<times> manifest_err option) \<times> collection" where
  "recoverCompaction c = (case map_of (files c) (compactManifestPath (cdir c)) of
     None \<Rightarrow> (case discardCompactTemps c of (err, c) \<Rightarrow> ((False, err), c))
   | Some b \<Rightarrow> (case sys_next c of (r, c) \<Rightarrow>
       if \<not> sr_ok r then ((False, Some ManifestRead), c)
       else case parse_manifest b of
         None \<Rightarrow> ((True, Some ManifestUnmarshal), c)
       | Some m \<Rightarrow> (case roll_forward (compactManifestFromDisk (cdir c) m) c of (err, c) \<Rightarrow> ((True, err), c))))"

end
