(* ===== verification/MetaFile.thy ===== *)
theory MetaFile
  imports Collection
begin

text \<open>
  Reading \<open>meta.json\<close> (\<open>loadMeta\<close> in \<open>engine/meta.go\<close>) with its encryption block, and the classification
  of the file against the evidence of encryption in the collection's directory
  (\<open>engine/encryption_integrity.go\<close>).
\<close>

section \<open>The file\<close>

record EncryptionPolicy =
  epMode :: string
  epFields :: "string list"
  epIndexFields :: "string list"

record KDFParams =
  kpMemory :: nat
  kpIterations :: nat
  kpParallelism :: nat
  kpKeyLen :: nat
  kpSaltLen :: int

record EncryptionKDF =
  ekAlgo :: string
  ekSalt :: string
  ekParams :: KDFParams

record encryptionMeta =
  emPolicy :: EncryptionPolicy
  emReadMode :: string
  emEpoch :: nat
  emKDF :: "EncryptionKDF option"
  emKeyCheck :: string
  emCurrentKeyID :: string

record collectionMeta =
  cmIDCounter :: nat
  cmCreatedAt :: time
  cmDefaultTTLSeconds :: int
  cmEncryption :: "encryptionMeta option"

definition em_readMode :: "encryptionMeta \<Rightarrow> string" where
  "em_readMode m = (if emReadMode m \<noteq> [] then emReadMode m else epMode (emPolicy m))"

definition empty_policy :: EncryptionPolicy where
  "empty_policy = \<lparr>epMode = [], epFields = [], epIndexFields = []\<rparr>"

definition empty_kdf :: EncryptionKDF where
  "empty_kdf = \<lparr>ekAlgo = [], ekSalt = [],
     ekParams = \<lparr>kpMemory = 0, kpIterations = 0, kpParallelism = 0, kpKeyLen = 0, kpSaltLen = 0\<rparr>\<rparr>"

definition empty_encryption :: encryptionMeta where
  "empty_encryption = \<lparr>emPolicy = empty_policy, emReadMode = [], emEpoch = 0, emKDF = None, emKeyCheck = [], emCurrentKeyID = []\<rparr>"

definition set_policy_field :: "string \<times> jtext \<Rightarrow> EncryptionPolicy \<Rightarrow> EncryptionPolicy option" where
  "set_policy_field kv p =
     (let k = fold_name (fst kv); j = snd kv in
      if k = ''mode'' then map_option (\<lambda>x. p\<lparr>epMode := x\<rparr>) (get_str j (epMode p))
      else if k = ''fields'' then map_option (\<lambda>x. p\<lparr>epFields := x\<rparr>) (get_strlist j)
      else if k = ''index_fields'' then map_option (\<lambda>x. p\<lparr>epIndexFields := x\<rparr>) (get_strlist j)
      else Some p)"

definition set_params_field :: "string \<times> jtext \<Rightarrow> KDFParams \<Rightarrow> KDFParams option" where
  "set_params_field kv p =
     (let k = fold_name (fst kv); j = snd kv in
      if k = ''memory'' then map_option (\<lambda>x. p\<lparr>kpMemory := x\<rparr>) (get_uint 32 j (kpMemory p))
      else if k = ''iterations'' then map_option (\<lambda>x. p\<lparr>kpIterations := x\<rparr>) (get_uint 32 j (kpIterations p))
      else if k = ''parallelism'' then map_option (\<lambda>x. p\<lparr>kpParallelism := x\<rparr>) (get_uint 8 j (kpParallelism p))
      else if k = ''key_len'' then map_option (\<lambda>x. p\<lparr>kpKeyLen := x\<rparr>) (get_uint 32 j (kpKeyLen p))
      else if k = ''salt_len'' then map_option (\<lambda>x. p\<lparr>kpSaltLen := x\<rparr>) (get_int64 j (kpSaltLen p))
      else Some p)"

definition set_kdf_field :: "string \<times> jtext \<Rightarrow> EncryptionKDF \<Rightarrow> EncryptionKDF option" where
  "set_kdf_field kv p =
     (let k = fold_name (fst kv); j = snd kv in
      if k = ''algo'' then map_option (\<lambda>x. p\<lparr>ekAlgo := x\<rparr>) (get_str j (ekAlgo p))
      else if k = ''salt'' then map_option (\<lambda>x. p\<lparr>ekSalt := x\<rparr>) (get_str j (ekSalt p))
      else if k = ''params'' then map_option (\<lambda>x. p\<lparr>ekParams := x\<rparr>) (get_struct set_params_field j (ekParams p))
      else Some p)"

text \<open>A pointer: \<open>null\<close> clears it, an object fills what it points to.\<close>

definition get_ptr :: "(string \<times> jtext \<Rightarrow> 'a \<Rightarrow> 'a option) \<Rightarrow> 'a \<Rightarrow> jtext \<Rightarrow> 'a option \<Rightarrow> 'a option option" where
  "get_ptr f z j old = (if j = JNull then Some None
     else map_option Some (get_struct f j (case old of None \<Rightarrow> z | Some x \<Rightarrow> x)))"

definition set_encryption_field :: "string \<times> jtext \<Rightarrow> encryptionMeta \<Rightarrow> encryptionMeta option" where
  "set_encryption_field kv p =
     (let k = fold_name (fst kv); j = snd kv in
      if k = ''policy'' then map_option (\<lambda>x. p\<lparr>emPolicy := x\<rparr>) (get_struct set_policy_field j (emPolicy p))
      else if k = ''read_mode'' then map_option (\<lambda>x. p\<lparr>emReadMode := x\<rparr>) (get_str j (emReadMode p))
      else if k = ''epoch'' then map_option (\<lambda>x. p\<lparr>emEpoch := x\<rparr>) (get_uint 64 j (emEpoch p))
      else if k = ''kdf'' then map_option (\<lambda>x. p\<lparr>emKDF := x\<rparr>) (get_ptr set_kdf_field empty_kdf j (emKDF p))
      else if k = ''key_check'' then map_option (\<lambda>x. p\<lparr>emKeyCheck := x\<rparr>) (get_str j (emKeyCheck p))
      else if k = ''current_key_id'' then map_option (\<lambda>x. p\<lparr>emCurrentKeyID := x\<rparr>) (get_str j (emCurrentKeyID p))
      else Some p)"

definition set_meta_field :: "string \<times> jtext \<Rightarrow> collectionMeta \<Rightarrow> collectionMeta option" where
  "set_meta_field kv m =
     (let k = fold_name (fst kv); j = snd kv in
      if k = ''id_counter'' then map_option (\<lambda>x. m\<lparr>cmIDCounter := x\<rparr>) (get_uint 64 j (cmIDCounter m))
      else if k = ''created_at'' then map_option (\<lambda>x. m\<lparr>cmCreatedAt := x\<rparr>) (get_time j (cmCreatedAt m))
      else if k = ''default_ttl_seconds'' then
        map_option (\<lambda>x. m\<lparr>cmDefaultTTLSeconds := x\<rparr>) (get_int64 j (cmDefaultTTLSeconds m))
      else if k = ''encryption'' then
        map_option (\<lambda>x. m\<lparr>cmEncryption := x\<rparr>) (get_ptr set_encryption_field empty_encryption j (cmEncryption m))
      else Some m)"

datatype meta_err = MetaMissing | MetaUnparseable

definition loadMeta :: "disk \<Rightarrow> string \<Rightarrow> meta_err + collectionMeta" where
  "loadMeta d p = (case map_of d p of
     None \<Rightarrow> Inl MetaMissing
   | Some b \<Rightarrow> (case Option.bind (parse_json b) (\<lambda>j. get_struct set_meta_field j
         \<lparr>cmIDCounter = 0, cmCreatedAt = zero_time, cmDefaultTTLSeconds = 0, cmEncryption = None\<rparr>) of
       None \<Rightarrow> Inl MetaUnparseable
     | Some m \<Rightarrow> Inr m))"

section \<open>Evidence of encryption\<close>

definition maxEpoch :: "Index \<Rightarrow> nat" where
  "maxEpoch idx = fold (\<lambda>(_, e) m. max (IEpoch e) m) (ientries idx) 0"

definition sentinelPath :: "string \<Rightarrow> string" where
  "sentinelPath dir = dir @ ''/encryption.sentinel''"

definition sentinelExists :: "disk \<Rightarrow> string \<Rightarrow> bool" where
  "sentinelExists d dir \<longleftrightarrow> map_of d (sentinelPath dir) \<noteq> None"

definition encryptionMarkerOnDisk :: string where
  "encryptionMarkerOnDisk = CHR 0x5C # ''u0000scrivaenc:''"

definition fileContains :: "disk \<Rightarrow> string \<Rightarrow> string \<Rightarrow> bool" where
  "fileContains d p pat = (case map_of d p of None \<Rightarrow> False | Some b \<Rightarrow> contains_sub pat b)"

definition segmentsHoldEnvelope :: "disk \<Rightarrow> segment list \<Rightarrow> bool" where
  "segmentsHoldEnvelope d segs = list_ex (\<lambda>s. fileContains d (segpath s) encryptionMarkerOnDisk) segs"

datatype evidence = EvidenceIndexEpoch | EvidenceSentinel | EvidenceSegmentMarker

datatype meta_check = MetaOK collectionMeta | MetaRegenerate | MetaRefused evidence

text \<open>\<open>preserveCorruptMeta\<close>: a copy of the unparseable file under a name with the time.\<close>

definition preserveCorruptMeta :: "collection \<Rightarrow> collection" where
  "preserveCorruptMeta c = (case map_of (files c) (metaPath (cdir c)) of
     None \<Rightarrow> c
   | Some b \<Rightarrow> (case wall_now c of (t, c) \<Rightarrow>
       snd (writeFileAtomic (cdir c @ ''/meta.json.corrupt-'' @ (if t < 0 then CHR ''-'' # show_nat (nat (- t)) else show_nat (nat t))) b c)))"

definition checkEncryptionMeta :: "collection \<Rightarrow> meta_check \<times> collection" where
  "checkEncryptionMeta c =
     (let lm = loadMeta (files c) (metaPath (cdir c)); maxEp = maxEpoch (index c); sent = sentinelExists (files c) (cdir c);
          fail = (\<lambda>ev. (MetaRefused ev, if lm = Inl MetaUnparseable then preserveCorruptMeta c else c))
      in case lm of
        Inr m \<Rightarrow>
          if cmEncryption m = None \<and> maxEp > 0 then fail EvidenceIndexEpoch
          else if cmEncryption m = None \<and> sent then fail EvidenceSentinel
          else if (case cmEncryption m of None \<Rightarrow> False | Some e \<Rightarrow> emEpoch e < maxEp) then fail EvidenceIndexEpoch
          else (MetaOK m, c)
      | Inl _ \<Rightarrow>
          if maxEp > 0 then fail EvidenceIndexEpoch
          else if sent then fail EvidenceSentinel
          else if segmentsHoldEnvelope (files c) (all_segs c) then fail EvidenceSegmentMarker
          else (MetaRegenerate, c))"

end
