(* ===== verification/VerifyColl.thy ===== *)
theory VerifyColl
  imports Verify Manifest MetaFile
begin

text \<open>
  Integrity checks of a collection: of an open one against its in-memory indexes, of a directory against
  its persisted files (\<open>engine/verify.go\<close>, \<open>engine/verify_checks.go\<close>), and the gate that opening passes
  before it rebuilds an index (\<open>engine/integrity_policy.go\<close>).
\<close>

section \<open>The files of a directory\<close>

definition read_dir :: "disk \<Rightarrow> string \<Rightarrow> string list" where
  "read_dir d dir = map (drop (length dir + 1)) (List.filter (glob_match dir [] []) (om_keys d))"

definition has_prefix :: "string \<Rightarrow> string \<Rightarrow> bool" where
  "has_prefix p s \<longleftrightarrow> take (length p) s = p"

definition has_suffix :: "string \<Rightarrow> string \<Rightarrow> bool" where
  "has_suffix p s \<longleftrightarrow> length p \<le> length s \<and> drop (length s - length p) s = p"

record dir_scan =
  dsSegs :: "vseg list"
  dsTemps :: "(string, nat) omap"
  dsSink :: findingSink

definition seg_loc :: "string \<Rightarrow> Location" where
  "seg_loc name = no_location\<lparr>lcSegment := name\<rparr>"

definition disk_vseg :: "disk \<Rightarrow> string \<Rightarrow> string \<Rightarrow> vseg" where
  "disk_vseg d p name = (let n = length (content d p) in
     \<lparr>vsSeg = openSealedSegment p n, vsPath = p, vsName = name, vsNum = or_zero (segmentNum name), vsSize = n\<rparr>)"

definition list_one ::
  "disk \<Rightarrow> string \<Rightarrow> bool \<Rightarrow> string list \<Rightarrow> nat \<Rightarrow> (string, string) omap \<Rightarrow> string \<Rightarrow> dir_scan \<Rightarrow> dir_scan" where
  "list_one d dir online held heldMax pending name st =
     (let info = (\<lambda>code st. st\<lparr>dsSink := sink_add SeverityInfo code (seg_loc name) (dsSink st)\<rparr>) in
      if has_prefix ''seg_'' name \<and> has_suffix ''.ndjson'' name then
        (let num = segmentNum name; st = (if num = None then info ''orphan-segment-file'' st else st) in
         if online then
           (if name \<notin> set held \<and> (case num of None \<Rightarrow> False | Some n \<Rightarrow> n \<le> heldMax)
            then info ''orphan-segment-file'' st else st)
         else st\<lparr>dsSegs := dsSegs st @ [disk_vseg d (Join dir name) name]\<rparr>)
      else if has_prefix ''seg_'' name then info ''orphan-segment-file'' st
      else if has_prefix ''.compact_'' name then
        (if map_of pending name \<noteq> None
         then st\<lparr>dsTemps := om_ins name (length (content d (Join dir name))) (dsTemps st)\<rparr>
         else info ''leftover-temp-file'' st)
      else if has_suffix ''.tmp'' name \<and> \<not> online then info ''leftover-temp-file'' st
      else st)"

text \<open>The layout that rolling the manifest forward will produce.\<close>

definition applyManifestView ::
  "disk \<Rightarrow> string \<Rightarrow> (string, string) omap \<Rightarrow> string list \<Rightarrow> (string, nat) omap \<Rightarrow> vseg list \<Rightarrow> vseg list" where
  "applyManifestView d dir pending removed temps segs =
     (let replaced = om_of (List.map_filter (\<lambda>(tmp, final).
            if map_of temps tmp = None then None else Some (final, disk_vseg d (Join dir tmp) final)) pending);
          kept = List.filter (\<lambda>s. vsName s \<notin> set removed) segs;
          out = map (\<lambda>s. case map_of replaced (vsName s) of None \<Rightarrow> s | Some r \<Rightarrow> r) kept
      in out @ map snd (List.filter (\<lambda>(name, _). name \<notin> vsName ` set kept) replaced))"

definition listDirFindings :: "disk \<Rightarrow> string \<Rightarrow> verifyInput \<Rightarrow> findingSink \<Rightarrow> bool \<Rightarrow> verifyInput \<times> findingSink" where
  "listDirFindings d dir inp sink online =
     (let (manifest, sink) = (case map_of d (compactManifestPath dir) of
            None \<Rightarrow> (None, sink)
          | Some b \<Rightarrow> (case parse_manifest b of
              None \<Rightarrow> (None, sink_add SeverityDataCorruption ''compaction-manifest-corrupt'' no_location sink)
            | Some m \<Rightarrow> (Some m, sink_add SeverityRepairableIndex ''compaction-manifest-pending'' no_location sink)));
          pending = (case manifest of None \<Rightarrow> [] | Some m \<Rightarrow> om_of (map (\<lambda>(s, t). (Base s, Base t)) (mRenames m)));
          removed = (case manifest of None \<Rightarrow> [] | Some m \<Rightarrow> map Base (mRemovals m));
          held = map vsName (viSegs inp);
          heldMax = fold (\<lambda>s m. max (vsNum s) m) (viSegs inp) 0;
          st = fold (list_one d dir online held heldMax pending) (read_dir d dir)
                 \<lparr>dsSegs = viSegs inp, dsTemps = [], dsSink = sink\<rparr>;
          segs = (if manifest \<noteq> None \<and> \<not> online then applyManifestView d dir pending removed (dsTemps st) (dsSegs st)
                  else dsSegs st)
      in (inp\<lparr>viSegs := sort_key (\<lambda>s. (vsNum s, vsName s)) segs\<rparr>, dsSink st))"

section \<open>The persisted files\<close>

definition sidx_field_of :: "string \<Rightarrow> string" where
  "sidx_field_of p = (let b = Base p in take (length b - 10) (drop 5 b))"

definition view_of :: "SecondaryIndex \<Rightarrow> sidxView" where
  "view_of s = \<lparr>svField = sfield s, svUnique = unique s, svBuckets = map (\<lambda>(k, b). (k, om_keys b)) (buckets s),
     svCov = scoverage s, svCovKnown = scoverageKnown s\<rparr>"

definition load_sidx_view :: "disk \<Rightarrow> string \<Rightarrow> sidxView list \<times> findingSink \<Rightarrow> sidxView list \<times> findingSink" where
  "load_sidx_view d p st = (case st of (vs, sink) \<Rightarrow>
     (let f = sidx_field_of p in
      case LoadSidx (map_of d p) (newSecondaryIndex f False) of
        (False, _) \<Rightarrow> (vs, sink_add SeverityRepairableIndex ''sidx-unreadable'' (no_location\<lparr>lcField := f\<rparr>) sink)
      | (True, s) \<Rightarrow> (vs @ [view_of s], sink)))"

definition loadPersisted :: "disk \<Rightarrow> verifyInput \<Rightarrow> findingSink \<Rightarrow> verifyInput \<times> findingSink" where
  "loadPersisted d inp sink =
     (let total = sum_list (map vsSize (viSegs inp)); p = Join (viDir inp) ''index.json'';
          (inp, sink) = (case LoadIndex p (map_of d p) newIndex of
            Inr idx \<Rightarrow> (inp\<lparr>viHasIndex := True, viIndex := ientries idx, viIndexCov := coverage idx,
              viIndexCovKnown := coverageKnown idx\<rparr>, sink)
          | Inl err \<Rightarrow>
              if map_of d p = None then
                (inp, if total > 0 then sink_add SeverityRepairableIndex ''index-missing'' no_location sink else sink)
              else (inp, sink_add SeverityRepairableIndex ''index-unreadable'' no_location sink));
          (views, sink) = fold (load_sidx_view d) (List.filter (glob_match (viDir inp) ''sidx_'' ''.json'') (om_keys d))
            (viSidx inp, sink);
          inp = inp\<lparr>viSidx := views\<rparr>
      in case loadMeta d (metaPath (viDir inp)) of
        Inr m \<Rightarrow> (inp\<lparr>viIdCounter := cmIDCounter m, viIdCounterKnown := True\<rparr>,
          if cmEncryption m = None \<and> sentinelExists d (viDir inp)
          then sink_add SeverityDataCorruption ''encryption-meta-lost'' no_location sink else sink)
      | Inl err \<Rightarrow> (inp,
          if sentinelExists d (viDir inp) then sink_add SeverityDataCorruption ''encryption-meta-lost'' no_location sink
          else if err = MetaMissing then sink_add SeverityInfo ''meta-missing'' no_location sink
          else sink_add SeverityRepairableIndex ''meta-unreadable'' no_location sink))"

section \<open>Verification\<close>

record VerifyOptions =
  voFull :: bool
  voMax :: nat
  voNow :: int

definition new_input :: "string \<Rightarrow> string \<Rightarrow> VerifyOptions \<Rightarrow> verifyInput" where
  "new_input name dir opts = \<lparr>viName = name, viDir = dir, viFull = voFull opts, viNow = voNow opts, viMax = voMax opts,
     viPersisted = False, viSegs = [], viHasIndex = False, viIndex = [], viIndexCov = [], viIndexCovKnown = False,
     viSidx = [], viIdCounter = 0, viIdCounterKnown = False, viIdCounterLive = False\<rparr>"

definition verifyOnline :: "VerifyOptions \<Rightarrow> collection \<Rightarrow> CollectionReport" where
  "verifyOnline opts c =
     (let inp = (new_input (cname c) (cdir c) opts)\<lparr>viSegs := map vseg_of (all_segs c), viHasIndex := True,
            viIndex := ientries (index c), viSidx := map (\<lambda>(f, s). (view_of s)\<lparr>svField := f, svCov := [], svCovKnown := False\<rparr>) (sidxMap c),
            viIdCounter := idSeq c, viIdCounterKnown := True, viIdCounterLive := True\<rparr>;
          (inp, sink) = listDirFindings (files c) (cdir c) inp (newFindingSink (cname c) (voMax opts)) True;
          (stats, sink) = runChecks (files c) inp sink
      in report_of inp stats sink)"

definition verifyOffline :: "disk \<Rightarrow> string \<Rightarrow> string \<Rightarrow> VerifyOptions \<Rightarrow> CollectionReport" where
  "verifyOffline d dir name opts =
     (let inp = (new_input name dir opts)\<lparr>viPersisted := True\<rparr>;
          (inp, sink) = listDirFindings d dir inp (newFindingSink name (voMax opts)) False;
          (inp, sink) = loadPersisted d inp sink;
          (stats, sink) = runChecks d inp sink
      in report_of inp stats sink)"

section \<open>The gate of an open\<close>

datatype IntegrityPolicy = PolicyFail | PolicyReport | PolicyRebuildIndexOnly

text \<open>What the gate found the first time it was asked: a refusal, or whether rebuilds skip damage.\<close>

record gate =
  gPolicy :: IntegrityPolicy
  gRan :: bool
  gFailed :: bool
  gTolerant :: bool
  gReport :: "CollectionReport option"

definition new_gate :: "IntegrityPolicy \<Rightarrow> gate" where
  "new_gate p = \<lparr>gPolicy = p, gRan = False, gFailed = False, gTolerant = False, gReport = None\<rparr>"

definition gate_report :: "disk \<Rightarrow> string \<Rightarrow> string \<Rightarrow> int \<Rightarrow> segment list \<Rightarrow> CollectionReport" where
  "gate_report d name dir t segs =
     (let inp = (new_input name dir \<lparr>voFull = True, voMax = DefaultMaxFindingsPerCode, voNow = t\<rparr>)
            \<lparr>viSegs := map vseg_of segs\<rparr>;
          (stats, sink) = runChecks d inp (newFindingSink name DefaultMaxFindingsPerCode)
      in report_of inp stats sink)"

definition integrityGate :: "gate \<Rightarrow> collection \<Rightarrow> (bool + bool) \<times> gate \<times> collection" where
  "integrityGate g c =
     (if gRan g then (if gFailed g then Inl True else Inr (gTolerant g), g, c)
      else case wall_now c of (t, c) \<Rightarrow>
        (let rep = gate_report (files c) (cname c) (cdir c) t (all_segs c);
             blocking = blockingFindings rep;
             tolerant = (blocking \<and> gPolicy g = PolicyReport);
             failed = (blocking \<and> gPolicy g \<noteq> PolicyReport);
             g = g\<lparr>gRan := True, gFailed := failed, gTolerant := tolerant, gReport := Some rep\<rparr>
         in (if failed then Inl True else Inr tolerant, g, c)))"

end
