(* ===== verification/Recovery.thy ===== *)
theory Recovery
  imports VerifyColl
begin

text \<open>
  Opening a collection: \<open>load\<close> of \<open>engine/collection.go\<close> and the reconciliation of the persisted indexes
  with the segments in \<open>engine/index_recovery.go\<close>.  The random sample of the spot check is an argument,
  a sequence of numbers reduced modulo the length of the list sampled from.
\<close>

section \<open>Trusting persisted coverage\<close>

text \<open>The prefix checksums computed during one open, by path and size.\<close>

type_synonym coverageMemo = "(string \<times> nat, string) omap"

definition memo_sum :: "disk \<Rightarrow> segment \<Rightarrow> nat \<Rightarrow> coverageMemo \<Rightarrow> string option \<times> coverageMemo" where
  "memo_sum d s n memo = (case map_of memo (segpath s, n) of
     Some h \<Rightarrow> (Some h, memo)
   | None \<Rightarrow> (case Option.bind (map_of d (segpath s)) (\<lambda>b. prefixChecksum b n) of
       None \<Rightarrow> (None, memo)
     | Some h \<Rightarrow> (Some h, om_ins (segpath s, n) h memo)))"

definition memo_matches :: "disk \<Rightarrow> segment \<Rightarrow> SegmentCoverage \<Rightarrow> coverageMemo \<Rightarrow> bool \<times> coverageMemo" where
  "memo_matches d s cv memo =
     (if CovChecksum cv = [] then (False, memo)
      else case memo_sum d s (CovSize cv) memo of (h, memo) \<Rightarrow> (h = Some (CovChecksum cv), memo))"

definition hasCommittedStamped :: "disk \<Rightarrow> segment \<Rightarrow> nat \<Rightarrow> decisions \<Rightarrow> bool" where
  "hasCommittedStamped d s n dec =
     list_ex (\<lambda>(off, e, tx). (case tx of None \<Rightarrow> False | Some st \<Rightarrow> stT st \<noteq> [] \<and> entryVisible tx dec))
       (takeWhile (\<lambda>(off, _). off < n) (fst (ScanStampedFromOffset d s 0)))"

definition find_seg :: "segment list \<Rightarrow> string \<Rightarrow> segment option" where
  "find_seg segs name = List.find (\<lambda>s. Base (segpath s) = name) (rev segs)"

text \<open>The first loop of \<open>planReplayFor\<close>: the covered segments exist once each and are long enough.\<close>

record plan_state =
  psCovered :: "string list"
  psMax :: nat
  psLast :: "(segment \<times> nat) option"

fun plan_covered :: "segment list \<Rightarrow> SegmentCoverage list \<Rightarrow> plan_state \<Rightarrow> plan_state option" where
  "plan_covered segs [] ps = Some ps"
| "plan_covered segs (cv # cvs) ps = (case find_seg segs (CovSegment cv) of
     None \<Rightarrow> None
   | Some s \<Rightarrow>
       if CovSegment cv \<in> set (psCovered ps) then None
       else (case segmentNum (CovSegment cv) of
         None \<Rightarrow> None
       | Some n \<Rightarrow>
           if segsize s < CovSize cv then None
           else plan_covered segs cvs
             (let ps = ps\<lparr>psCovered := CovSegment cv # psCovered ps\<rparr> in
              if n \<ge> psMax ps then ps\<lparr>psMax := n, psLast := Some (s, CovSize cv)\<rparr> else ps)))"

text \<open>The second loop: the decisions the file was written under, growth, and the fingerprints.\<close>

definition xtx_current :: "disk \<Rightarrow> decisions \<Rightarrow> string \<Rightarrow> segment \<Rightarrow> SegmentCoverage \<Rightarrow> bool" where
  "xtx_current d dec epoch s cv =
     (if XTxApplied cv \<noteq> [] then
        list_all (\<lambda>tx. dec tx = Some ''commit'' \<or> dec tx = Some ''retire-commit'') (XTxApplied cv)
        \<and> \<not> (epoch \<noteq> [] \<and> XTxEpoch cv \<noteq> [] \<and> XTxEpoch cv \<noteq> epoch)
      else \<not> hasCommittedStamped d s (CovSize cv) dec)"

fun plan_check :: "disk \<Rightarrow> segment list \<Rightarrow> decisions \<Rightarrow> string \<Rightarrow> string option \<Rightarrow> SegmentCoverage list \<Rightarrow> coverageMemo
    \<Rightarrow> bool \<times> coverageMemo" where
  "plan_check d segs dec epoch lastp [] memo = (True, memo)"
| "plan_check d segs dec epoch lastp (cv # cvs) memo = (case find_seg segs (CovSegment cv) of
     None \<Rightarrow> (False, memo)
   | Some s \<Rightarrow>
       if \<not> xtx_current d dec epoch s cv then (False, memo)
       else if segsize s > CovSize cv \<and> lastp \<noteq> Some (segpath s) then (False, memo)
       else (case memo_matches d s cv memo of
         (False, memo) \<Rightarrow> (False, memo)
       | (True, memo) \<Rightarrow> plan_check d segs dec epoch lastp cvs memo))"

text \<open>The third loop: segments the file does not list are replayed whole when they are newer.\<close>

fun plan_rest :: "string list \<Rightarrow> nat \<Rightarrow> segment list \<Rightarrow> (segment \<times> nat) list option" where
  "plan_rest covered m [] = Some []"
| "plan_rest covered m (s # ss) =
     (if Base (segpath s) \<in> set covered then plan_rest covered m ss
      else case segmentNum (Base (segpath s)) of
        None \<Rightarrow> None
      | Some n \<Rightarrow>
          if n \<le> m then None
          else map_option (\<lambda>plan. if segsize s > 0 then (s, 0) # plan else plan) (plan_rest covered m ss))"

definition planReplayFor :: "disk \<Rightarrow> segment list \<Rightarrow> bool \<Rightarrow> SegmentCoverage list \<Rightarrow> nat \<Rightarrow> decisions \<Rightarrow> string \<Rightarrow> coverageMemo
    \<Rightarrow> (segment \<times> nat) list option \<times> coverageMemo" where
  "planReplayFor d segs known cov nEntries dec epoch memo =
     (if \<not> known then (None, memo)
      else if cov = [] \<and> nEntries > 0 then (None, memo)
      else case plan_covered segs cov \<lparr>psCovered = [], psMax = 0, psLast = None\<rparr> of
        None \<Rightarrow> (None, memo)
      | Some ps \<Rightarrow>
          (case plan_check d segs dec epoch (map_option (segpath \<circ> fst) (psLast ps)) cov memo of
             (False, memo) \<Rightarrow> (None, memo)
           | (True, memo) \<Rightarrow>
               (map_option (\<lambda>plan. (case psLast ps of
                    Some (s, n) \<Rightarrow> if segsize s > n then [(s, n)] else []
                  | None \<Rightarrow> []) @ plan) (plan_rest (psCovered ps) (psMax ps) segs), memo)))"

section \<open>The primary index\<close>

fun apply_plan :: "disk \<Rightarrow> decisions \<Rightarrow> (segment \<times> nat) list \<Rightarrow> locs \<Rightarrow> locs option" where
  "apply_plan d dec [] m = Some m"
| "apply_plan d dec ((s, from) # plan) m = (case applyEntries d dec s from m of
     (m, None) \<Rightarrow> apply_plan d dec plan m
   | (_, Some _) \<Rightarrow> None)"

definition sample_ids :: "(nat \<Rightarrow> nat) \<Rightarrow> nat list \<Rightarrow> nat list" where
  "sample_ids rnd ids =
     (let ds = rev ids; rest = drop spotCheckNewest ds in
      take spotCheckNewest ds
      @ (if rest = [] then [] else map (\<lambda>i. rest ! (rnd i mod length rest)) [0..<spotCheckRandom]))"

definition spotCheck :: "disk \<Rightarrow> (nat \<Rightarrow> nat) \<Rightarrow> segment list \<Rightarrow> locs \<Rightarrow> bool" where
  "spotCheck d rnd segs m = list_all (\<lambda>i. case map_of m i of
     None \<Rightarrow> True
   | Some ie \<Rightarrow> (case List.find (\<lambda>s. segpath s = SegmentPath ie) (rev segs) of
       None \<Rightarrow> False
     | Some s \<Rightarrow> recordStartsWithID d s (Offset ie) i)) (sample_ids rnd (om_keys m))"

definition rebuildTolerant :: "disk \<Rightarrow> decisions \<Rightarrow> segment list \<Rightarrow> Index \<Rightarrow> seg_err + Index" where
  "rebuildTolerant d dec segs idx =
     map_sum id (\<lambda>m. idx\<lparr>ientries := m\<rparr>)
       (foldl (\<lambda>res s. case res of
            Inl err \<Rightarrow> Inl err
          | Inr m \<Rightarrow> (case scanSegmentTolerantLimit d (segpath s) (Some (segsize s)) of
              Inl err \<Rightarrow> Inl err
            | Inr rep \<Rightarrow> Inr (fold (\<lambda>se m. if entryVisible (svTx se) dec
                then applyOne m (segpath s) (svOffset se) (svEntry se) else m) (rpEntries rep) m)))
          (Inr []) (sortSegments segs))"

datatype load_err =
    LoadCompaction manifest_err
  | LoadStat string
  | LoadActive seg_err
  | ErrXTxRecoveryRequired
  | OpenIntegrityError
  | LoadRebuild seg_err
  | LoadSecondary string seg_err
  | EncryptionMetaIntegrityError evidence

text \<open>What one open carries besides the collection: the gate and the memo.\<close>

record open_state =
  oGate :: gate
  oMemo :: coverageMemo

definition rebuild_index :: "open_state \<Rightarrow> collection \<Rightarrow> (load_err + (bool \<times> bool)) \<times> open_state \<times> collection" where
  "rebuild_index op c = (case integrityGate (oGate op) c of
     (Inl _, g, c) \<Rightarrow> (Inl OpenIntegrityError, op\<lparr>oGate := g\<rparr>, c)
   | (Inr tolerant, g, c) \<Rightarrow>
       (case (if tolerant then rebuildTolerant (files c) (decs c) (all_segs c) (index c)
              else Rebuild (files c) (decs c) (all_segs c) (index c)) of
          Inl err \<Rightarrow> (Inl (LoadRebuild err), op\<lparr>oGate := g\<rparr>, c)
        | Inr idx \<Rightarrow> (Inr (True, True), op\<lparr>oGate := g\<rparr>, c\<lparr>index := idx\<rparr>)))"

text \<open>The flags of the result: the index differs from the file, and it was rebuilt.\<close>

definition recoverIndex ::
  "(nat \<Rightarrow> nat) \<Rightarrow> bool \<Rightarrow> open_state \<Rightarrow> collection \<Rightarrow> (load_err + (bool \<times> bool)) \<times> open_state \<times> collection" where
  "recoverIndex rnd forceRebuild op c =
     (if forceRebuild then rebuild_index op c
      else case LoadIndex (indexPath c) (map_of (files c) (indexPath c)) (index c) of
        Inl _ \<Rightarrow> rebuild_index op c
      | Inr idx \<Rightarrow>
          (let c = c\<lparr>index := idx\<rparr>; segs = all_segs c in
           case planReplayFor (files c) segs (coverageKnown idx) (coverage idx) (length (ientries idx)) (decs c) (cepoch c)
               (oMemo op) of
             (None, memo) \<Rightarrow> rebuild_index (op\<lparr>oMemo := memo\<rparr>) c
           | (Some plan, memo) \<Rightarrow>
               (case apply_plan (files c) (decs c) plan (ientries idx) of
                  None \<Rightarrow> rebuild_index (op\<lparr>oMemo := memo\<rparr>) c
                | Some m \<Rightarrow>
                    (let idx = (if plan = [] then idx else noteExpiringLocked (idx\<lparr>ientries := m\<rparr>));
                         c = c\<lparr>index := idx\<rparr>
                     in if \<not> segmentsValid idx (om_of (map (\<lambda>s. (segpath s, segsize s)) segs))
                            \<or> \<not> spotCheck (files c) rnd segs (ientries idx)
                        then rebuild_index (op\<lparr>oMemo := memo\<rparr>) c
                        else (Inr (plan \<noteq> [], False), op\<lparr>oMemo := memo\<rparr>, c)))))"

section \<open>Secondary indexes\<close>

definition scanEntries_tolerant :: "disk \<Rightarrow> decisions \<Rightarrow> segment \<Rightarrow> seg_err + entry list" where
  "scanEntries_tolerant d dec sg = (case scanSegmentTolerantLimit d (segpath sg) (Some (segsize sg)) of
     Inl err \<Rightarrow> Inl err
   | Inr rep \<Rightarrow> Inr (visible_entries dec (map (\<lambda>se. (svOffset se, svEntry se, svTx se)) (rpEntries rep))))"

fun latest_tolerant :: "disk \<Rightarrow> decisions \<Rightarrow> segment list \<Rightarrow> (nat, gmap option option) omap \<Rightarrow>
   seg_err + (nat, gmap option option) omap" where
  "latest_tolerant d dec [] m = Inr m"
| "latest_tolerant d dec (sg # sgs) m = (case scanEntries_tolerant d dec sg of
     Inl err \<Rightarrow> Inl err
   | Inr es \<Rightarrow> latest_tolerant d dec sgs (fold latest_step es m))"

definition sidx_rebuild_with :: "bool \<Rightarrow> disk \<Rightarrow> decisions \<Rightarrow> segment list \<Rightarrow> SecondaryIndex \<Rightarrow> seg_err + SecondaryIndex" where
  "sidx_rebuild_with tolerant d dec sgs s =
     (if tolerant then map_sum id (sidx_install s) (latest_tolerant d dec sgs []) else sidx_rebuild d dec sgs s)"

fun replay_plan :: "disk \<Rightarrow> decisions \<Rightarrow> (segment \<times> nat) list \<Rightarrow> SecondaryIndex \<Rightarrow> SecondaryIndex \<times> bool" where
  "replay_plan d dec [] s = (s, True)"
| "replay_plan d dec ((sg, from) # plan) s = (case sidx_replay d dec sg from s of
     (s, None) \<Rightarrow> replay_plan d dec plan s
   | (s, Some _) \<Rightarrow> (s, False))"

definition recoverSecondary :: "SecondaryIndex \<Rightarrow> string \<Rightarrow> bool \<Rightarrow> open_state \<Rightarrow> collection \<Rightarrow>
    (seg_err + (bool \<times> bool \<times> SecondaryIndex)) \<times> open_state" where
  "recoverSecondary s p force op c =
     (let rebuild = (\<lambda>s. map_sum id (\<lambda>s. (True, True, s))
            (sidx_rebuild_with (gTolerant (oGate op)) (files c) (decs c) (all_segs c) s))
      in if force then (rebuild s, op)
         else case LoadSidx (map_of (files c) p) s of
           (False, s) \<Rightarrow> (rebuild s, op)
         | (True, s) \<Rightarrow>
             (case planReplayFor (files c) (all_segs c) (scoverageKnown s) (scoverage s) (length (buckets s)) (decs c) (cepoch c)
                 (oMemo op) of
                (None, memo) \<Rightarrow> (rebuild s, op\<lparr>oMemo := memo\<rparr>)
              | (Some plan, memo) \<Rightarrow>
                  (case replay_plan (files c) (decs c) plan s of
                     (s, True) \<Rightarrow> (Inr (plan \<noteq> [], False, s), op\<lparr>oMemo := memo\<rparr>)
                   | (s, False) \<Rightarrow> (rebuild s, op\<lparr>oMemo := memo\<rparr>))))"

text \<open>One file \<open>sidx_<field>.json\<close>: a strict scan that fails asks the gate whether to salvage.\<close>

definition load_secondary :: "string \<Rightarrow> bool \<Rightarrow> open_state \<Rightarrow> collection \<Rightarrow> load_err option \<times> open_state \<times> collection" where
  "load_secondary p swapRecovered op c =
     (let f = sidx_field_of p; fresh = newSecondaryIndex f False;
          finish = (\<lambda>r op c. case r of
             Inl err \<Rightarrow> (Some (LoadSecondary f err), op, c)
           | Inr (changed, rebuilt, s) \<Rightarrow>
               (let c = (if changed \<and> rebuilt then snd (persistSecondary s p (decs c) (cepoch c) c) else c)
                in (None, op, c\<lparr>sidxMap := om_ins f s (sidxMap c)\<rparr>)))
      in case recoverSecondary fresh p swapRecovered op c of
        (Inr r, op) \<Rightarrow> finish (Inr r) op c
      | (Inl err, op) \<Rightarrow> (case integrityGate (oGate op) c of
          (Inl _, g, c) \<Rightarrow> (Some OpenIntegrityError, op\<lparr>oGate := g\<rparr>, c)
        | (Inr tolerant, g, c) \<Rightarrow>
            if tolerant then (case recoverSecondary fresh p True (op\<lparr>oGate := g\<rparr>) c of (r, op) \<Rightarrow> finish r op c)
            else finish (Inl err) (op\<lparr>oGate := g\<rparr>) c))"

fun load_secondaries :: "string list \<Rightarrow> bool \<Rightarrow> open_state \<Rightarrow> collection \<Rightarrow> load_err option \<times> open_state \<times> collection" where
  "load_secondaries [] sw op c = (None, op, c)"
| "load_secondaries (p # ps) sw op c = (case load_secondary p sw op c of
     (Some err, op, c) \<Rightarrow> (Some err, op, c)
   | (None, op, c) \<Rightarrow> load_secondaries ps sw op c)"

section \<open>Identifiers, clock and meta file\<close>

definition visible_scan :: "disk \<Rightarrow> decisions \<Rightarrow> segment \<Rightarrow> entry list" where
  "visible_scan d dec s = visible_entries dec (fst (ScanStampedFromOffset d s 0))"

definition max_id_ts :: "entry list \<Rightarrow> nat \<times> int \<Rightarrow> nat \<times> int" where
  "max_id_ts es m = fold (\<lambda>e (i, t). (max (ID e) i, max (i64 (Ts e)) t)) es m"

fun tail_max :: "disk \<Rightarrow> decisions \<Rightarrow> segment list \<Rightarrow> nat \<times> int" where
  "tail_max d dec [] = (0, 0)"
| "tail_max d dec (s # ss) = (case max_id_ts (visible_scan d dec s) (0, 0) of (i, t) \<Rightarrow>
     if i > 0 \<or> t > 0 then (i, t) else tail_max d dec ss)"

definition tailMaxIDAndTs :: "collection \<Rightarrow> nat \<times> int" where
  "tailMaxIDAndTs c = tail_max (files c) (decs c) (rev (all_segs c))"

definition seedSealedCoverage :: "coverageMemo \<Rightarrow> collection \<Rightarrow> collection" where
  "seedSealedCoverage memo c = fold (\<lambda>s c. case map_of memo (segpath s, segsize s) of
     None \<Rightarrow> c
   | Some h \<Rightarrow>
       (let base = Base (segpath s);
            cv = (case List.find (\<lambda>cv. CovSegment cv = base) (rev (coverage (index c))) of
               Some ecv \<Rightarrow> if CovSize ecv = segsize s \<and> CovChecksum ecv = h then Some ecv else None
             | None \<Rightarrow> None);
            cv = (case cv of
               Some ecv \<Rightarrow> ecv
             | None \<Rightarrow> (case captureCoverage (files c) (decs c) (cepoch c) s of
                 Inr cv \<Rightarrow> cv
               | Inl _ \<Rightarrow> empty_cov\<lparr>CovSegment := base, CovSize := segsize s, CovChecksum := h\<rparr>))
        in c\<lparr>sealedCov := om_ins (segpath s) cv (sealedCov c)\<rparr>)) (all_segs c) c"

definition restore_counter :: "collection \<Rightarrow> load_err option \<times> collection" where
  "restore_counter c = (case checkEncryptionMeta c of
     (MetaRefused ev, c) \<Rightarrow> (Some (EncryptionMetaIntegrityError ev), c)
   | (MetaOK m, c) \<Rightarrow>
       (let c = applyPersistedDefaultTTL (cmDefaultTTLSeconds m) (c\<lparr>idSeq := cmIDCounter m, createdAt := cmCreatedAt m\<rparr>);
            (amax, maxTs) = tailMaxIDAndTs c
        in (None, c\<lparr>idSeq := max amax (idSeq c), clockFloor := max maxTs (clockFloor c)\<rparr>))
   | (MetaRegenerate, c) \<Rightarrow>
       (let (maxID, maxTs) = max_id_ts (concat (map (visible_scan (files c) (decs c)) (all_segs c)))
              (fold max (om_keys (ientries (index c))) 0, 0);
            c = c\<lparr>idSeq := maxID, clockFloor := max maxTs (clockFloor c)\<rparr>
        in case wall_now c of (t, c) \<Rightarrow> (None, snd (writeMeta (c\<lparr>createdAt := t\<rparr>)))))"

section \<open>Loading\<close>

fun stat_sealed :: "string list \<Rightarrow> collection \<Rightarrow> (string + segment list) \<times> collection" where
  "stat_sealed [] c = (Inr [], c)"
| "stat_sealed (p # ps) c = (case sys_next c of (r, c) \<Rightarrow>
     if \<not> sr_ok r then (Inl p, c)
     else case stat_sealed ps c of
       (Inl q, c) \<Rightarrow> (Inl q, c)
     | (Inr ss, c) \<Rightarrow> (Inr (openSealedSegment p (length (content (files c) p)) # ss), c))"

definition segment_paths :: "collection \<Rightarrow> string list" where
  "segment_paths c = sort_key (\<lambda>p. (or_zero (segmentNum p), p)) (List.filter (glob_match (cdir c) ''seg_'' ''.ndjson'') (om_keys (files c)))"

definition open_segments :: "collection \<Rightarrow> load_err option \<times> collection" where
  "open_segments c =
     (let paths = segment_paths c;
          act = (if paths = [] then segmentPath c 1 else last paths)
      in case stat_sealed (butlast paths) c of
        (Inl p, c) \<Rightarrow> (Some (LoadStat p), c)
      | (Inr ss, c) \<Rightarrow> (case open_active act c of
          (Inl err, c) \<Rightarrow> (Some (LoadActive err), c)
        | (Inr s, c) \<Rightarrow> (None, c\<lparr>sealedSegs := sealedSegs c @ ss, active := s\<rparr>)))"

definition has_stamped :: "disk \<Rightarrow> segment \<Rightarrow> bool" where
  "has_stamped d s = list_ex (\<lambda>(_, _, tx). case tx of None \<Rightarrow> False | Some st \<Rightarrow> stT st \<noteq> []) (fst (ScanStampedFromOffset d s 0))"

definition max_seg :: "segment list \<Rightarrow> nat" where
  "max_seg segs = fold (\<lambda>s m. max (or_zero (segmentNum (segpath s))) m) segs 0"

text \<open>\<open>standalone\<close>: the collection is opened without the decision table of a database.\<close>

definition load :: "(nat \<Rightarrow> nat) \<Rightarrow> bool \<Rightarrow> IntegrityPolicy \<Rightarrow> collection \<Rightarrow> (load_err + gate) \<times> collection" where
  "load rnd standalone policy c = (case recoverCompaction c of
     ((_, Some err), c) \<Rightarrow> (Inl (LoadCompaction err), c)
   | ((swapRecovered, None), c) \<Rightarrow> (case open_segments c of
       (Some err, c) \<Rightarrow> (Inl err, c)
     | (None, c) \<Rightarrow>
         if standalone \<and> list_ex (has_stamped (files c)) (all_segs c) then (Inl ErrXTxRecoveryRequired, c)
         else
           (let c = c\<lparr>segSeq := max_seg (all_segs c)\<rparr> in
            case recoverIndex rnd swapRecovered \<lparr>oGate = new_gate policy, oMemo = []\<rparr> c of
              (Inl err, op, c) \<Rightarrow> (Inl err, c)
            | (Inr (changed, rebuilt), op, c) \<Rightarrow>
                (let c = (if changed \<and> rebuilt then
                       (case Snapshot (files c) (decs c) (cepoch c) (all_segs c) (index c) of
                          Inl _ \<Rightarrow> c
                        | Inr snap \<Rightarrow> snd (writeFileAtomic (indexPath c) (Persist (indexPath c) snap) c))
                     else c);
                     ps = List.filter (glob_match (cdir c) ''sidx_'' ''.json'') (om_keys (files c))
                 in case load_secondaries ps swapRecovered op c of
                   (Some err, op, c) \<Rightarrow> (Inl err, c)
                 | (None, op, c) \<Rightarrow>
                     (case restore_counter (seedSealedCoverage (oMemo op) c) of
                        (Some err, c) \<Rightarrow> (Inl err, c)
                      | (None, c) \<Rightarrow> (Inr (oGate op), c))))))"

end
