(* ===== verification/RecoveryInv.thy ===== *)
theory RecoveryInv
  imports Recovery CollectionInv
begin

text \<open>
  What opening a collection recovers.  Files on disk that hold records, with an index file that is absent,
  unreadable or an honest snapshot of earlier records, give back a collection that stores exactly the
  versions these records describe.
\<close>

section \<open>Names\<close>

lemma base_name_append: "CHR ''/'' \<notin> set b \<Longrightarrow> base_name (a @ CHR ''/'' # b) = b"
  by (simp add: base_name_def takeWhile_append2 takeWhile_eq_all_conv takeWhile_append)

lemma split_slash_ne [simp]: "split_slash p \<noteq> []"
  by (induction p) (auto split: list.splits)

lemma split_slash_free: "CHR ''/'' \<notin> set b \<Longrightarrow> split_slash b = [b]"
  by (induction b) auto

lemma split_slash_append: "split_slash (a @ CHR ''/'' # b) = split_slash a @ split_slash b"
proof (induction a)
  case (Cons x a)
  then show ?case by (cases "split_slash a") (auto simp: split: list.splits)
qed simp

lemma Base_append:
  assumes "CHR ''/'' \<notin> set b" "b \<noteq> []"
  shows "Base (a @ CHR ''/'' # b) = b"
proof -
  have "split_slash (a @ CHR ''/'' # b) = split_slash a @ [b]"
    using assms by (simp add: split_slash_append split_slash_free)
  moreover have "last (x # xs) = b" if "split_slash a @ [b] = x # xs" for x xs
    using arg_cong [OF that, of last] by simp
  ultimately show ?thesis using assms(2) by (auto simp: Base_def split: list.splits)
qed

definition seg_name :: "nat \<Rightarrow> string" where
  "seg_name n = ''seg_'' @ seg_digits n @ ''.ndjson''"

lemma seg_name_props: "CHR ''/'' \<notin> set (seg_name n)" "seg_name n \<noteq> []"
  using seg_digits [of n] by (auto simp: seg_name_def list_all_iff is_digit_def)

lemma segmentPath_name: "segmentPath c n = cdir c @ CHR ''/'' # seg_name n"
  by (simp add: segmentPath_eq seg_name_def)

lemma base_segmentPath [simp]: "base_name (segmentPath c n) = seg_name n" "Base (segmentPath c n) = seg_name n"
  by (simp_all add: segmentPath_name base_name_append Base_append seg_name_props)

lemma base_seg_name [simp]: "base_name (seg_name n) = seg_name n"
proof -
  have tw: "takeWhile (\<lambda>c. c \<noteq> CHR ''/'') (rev (seg_name n)) = rev (seg_name n)"
    using seg_name_props [of n] by (auto simp: takeWhile_eq_all_conv)
  show ?thesis unfolding base_name_def tw by simp
qed

lemma seg_digits_ne: "seg_digits n \<noteq> []"
  using length_pad_nat [of 6 n] by (auto simp: seg_digits_def simp del: length_pad_nat)

lemma segmentNum_name [simp]: "n < 2 ^ 64 \<Longrightarrow> segmentNum (seg_name n) = Some n"
proof -
  assume n: "n < 2 ^ 64"
  have d: "list_all is_digit (seg_digits n)" by (rule seg_digits)
  have "takeWhile is_digit (seg_digits n @ ''.ndjson'') = seg_digits n"
    "dropWhile is_digit (seg_digits n @ ''.ndjson'') = ''.ndjson''"
    using d by (simp_all add: takeWhile_append2 list_all_iff is_digit_def dropWhile_append2)
  moreover have "drop 4 (seg_name n) = seg_digits n @ ''.ndjson''" "take 4 (seg_name n) = ''seg_''"
    by (simp_all add: seg_name_def)
  ultimately show ?thesis
    using n seg_digits_ne [of n] by (simp add: segmentNum_def Let_def read_seg_digits)
qed

lemma segmentNum_path [simp]: "n < 2 ^ 64 \<Longrightarrow> segmentNum (segmentPath c n) = Some n"
  using segmentNum_name [of n] by (simp add: segmentNum_def)

lemma seg_name_inj [simp]: "seg_name m = seg_name n \<longleftrightarrow> m = n"
proof
  assume "seg_name m = seg_name n"
  then have "seg_digits m = seg_digits n" by (simp add: seg_name_def)
  then show "m = n" by (metis read_seg_digits)
qed simp

text \<open>A list with distinct keys has one sorted order.\<close>

lemma sort_key_unique:
  assumes "set xs = set ys" "distinct xs" "sorted_wrt (\<lambda>x y. f x < (f y :: 'a :: linorder)) ys"
  shows "sort_key f xs = ys"
proof -
  have "sorted_wrt (<) (map f ys)" using assms(3) by (simp add: sorted_wrt_map)
  then have d: "distinct (map f ys)" "sorted (map f ys)" by (simp_all add: strict_sorted_iff)
  have inj: "inj_on f (set ys)" using d(1) by (simp add: distinct_map)
  have "map f (sort_key f xs) = map f ys"
    using d assms(1,2) inj by (intro sorted_distinct_set_unique) (simp_all add: distinct_map)
  then show ?thesis using inj assms(1) by (intro map_inj_on [of f]) simp_all
qed

section \<open>Leftovers of a compaction\<close>

abbreviation temp_glob :: "string \<Rightarrow> string \<Rightarrow> bool" where
  "temp_glob dir \<equiv> glob_match dir ''.compact_'' []"

lemma temp_not_seg: "temp_glob dir p \<Longrightarrow> \<not> seg_glob dir p"
  by (cases "drop (length dir + 1) p") (simp_all add: glob_match_def Let_def)

lemma remove_files_frame:
  assumes "om_ok (files c)" "remove_files ps c = (err, c')"
  shows "\<exists>k d. c' = c\<lparr>calls := k, files := d\<rparr> \<and> om_ok d \<and> (\<forall>q. q \<notin> set ps \<longrightarrow> map_of d q = map_of (files c) q)"
  using assms
proof (induction ps arbitrary: c)
  case Nil
  then show ?case by (intro exI [of _ "calls c"] exI [of _ "files c"]) auto
next
  case (Cons p ps)
  obtain e1 c1 where r: "remove_file p c = (e1, c1)" by (rule prod.exhaust)
  have c1: "\<exists>k d. c1 = c\<lparr>calls := k, files := d\<rparr> \<and> om_ok d \<and> (\<forall>q. q \<noteq> p \<longrightarrow> map_of d q = map_of (files c) q)"
  proof (cases "map_of (files c) p")
    case None
    then have "c1 = c\<lparr>calls := calls c, files := files c\<rparr>" using r by (simp add: remove_file_def)
    then show ?thesis using Cons.prems(1) by blast
  next
    case (Some b)
    then have "c1 = c\<lparr>calls := Suc (calls c), files := (if sr_ok (sys c (calls c)) then om_del p (files c) else files c)\<rparr>"
      using r by (simp add: remove_file_def sys_next_def split: if_splits)
    then show ?thesis using Cons.prems(1)
      by (intro exI [of _ "Suc (calls c)"] exI [of _ "if sr_ok (sys c (calls c)) then om_del p (files c) else files c"])
        (auto simp: omap_simps)
  qed
  then obtain k d where d: "c1 = c\<lparr>calls := k, files := d\<rparr>" "om_ok d" "\<forall>q. q \<noteq> p \<longrightarrow> map_of d q = map_of (files c) q"
    by blast
  show ?case
  proof (cases e1)
    case None
    then have "remove_files ps c1 = (err, c')" using Cons.prems(2) r by simp
    moreover have "om_ok (files c1)" using d by simp
    ultimately obtain k' d' where d': "c' = c1\<lparr>calls := k', files := d'\<rparr>" "om_ok d'"
      "\<forall>q. q \<notin> set ps \<longrightarrow> map_of d' q = map_of (files c1) q"
      using Cons.IH [of c1] by blast
    have "c' = c\<lparr>calls := k', files := d'\<rparr>" using d'(1) d(1) by simp
    moreover have "map_of d' q = map_of (files c) q" if "q \<notin> set (p # ps)" for q
      using that d'(3) d(1,3) by simp
    ultimately show ?thesis using d'(2) by blast
  next
    case (Some e)
    then have "c' = c1" using Cons.prems(2) r by simp
    moreover have "map_of d q = map_of (files c) q" if "q \<notin> set (p # ps)" for q using that d(3) by simp
    ultimately show ?thesis using d(1,2) by blast
  qed
qed

lemma disk_holds_files:
  assumes "disk_holds c ns rss t" "om_ok (files c')" "cdir c' = cdir c"
    "\<And>p. seg_glob (cdir c) p \<Longrightarrow> map_of (files c') p = map_of (files c) p"
  shows "disk_holds c' ns rss t"
proof -
  have "segmentPath c' = segmentPath c" using assms(3) by (simp add: segmentPath_def fun_eq_iff)
  moreover have "map_of (files c') (segmentPath c n) = map_of (files c) (segmentPath c n)" for n
    using assms(4) glob_segmentPath by blast
  moreover have "p \<in> segmentPath c ` set ns" if "seg_glob (cdir c) p" "map_of (files c') p \<noteq> None" for p
    using assms(1) that assms(4) [of p] by (simp add: disk_holds_def)
  ultimately show ?thesis using assms(1-3) by (simp add: disk_holds_def)
qed

lemma discard_frame:
  assumes "om_ok (files c)" "map_of (files c) (compactManifestPath (cdir c)) = None" "recoverCompaction c = ((sw, err), c')"
  obtains k d where "c' = c\<lparr>calls := k, files := d\<rparr>" "\<not> sw" "om_ok d"
    "\<And>q. \<not> temp_glob (cdir c) q \<Longrightarrow> map_of d q = map_of (files c) q"
proof -
  let ?ps = "List.filter (temp_glob (cdir c)) (om_keys (files c))"
  have "remove_files ?ps c = (err, c')" "\<not> sw"
    using assms(2,3) by (simp_all add: recoverCompaction_def discardCompactTemps_def split: prod.splits)
  from remove_files_frame [OF assms(1) this(1)] this(2) show thesis by (auto intro: that)
qed

section \<open>Opening the segments\<close>

lemma segment_paths_disk:
  assumes "disk_holds c ns rss t"
  shows "segment_paths c = map (segmentPath c) ns"
  unfolding segment_paths_def
proof (rule sort_key_unique)
  have d: "om_ok (files c)" "sorted_wrt (<) ns" "\<forall>n\<in>set ns. n < 2 ^ 64" using assms by (simp_all add: disk_holds_def)
  show "distinct (List.filter (seg_glob (cdir c)) (om_keys (files c)))" using om_ok_distinct [OF d(1)] by simp
  have "map_of (files c) (segmentPath c n) \<noteq> None" if "n \<in> set ns" for n
  proof -
    have "map_of (files c) (segmentPath c n) \<in> set (map (\<lambda>n. map_of (files c) (segmentPath c n)) ns)" using that by simp
    then have "map_of (files c) (segmentPath c n) \<in> set (map Some (map (file_of rec_line) (butlast rss) @ [file_of rec_line (last rss) @ t]))"
      using assms by (simp only: disk_holds_def)
    then show ?thesis by auto
  qed
  moreover have "p \<in> segmentPath c ` set ns" if "seg_glob (cdir c) p" "p \<in> set (om_keys (files c))" for p
    using assms that by (auto simp: disk_holds_def map_of_eq_None_iff)
  ultimately show "set (List.filter (seg_glob (cdir c)) (om_keys (files c))) = set (map (segmentPath c) ns)"
    using glob_segmentPath [of c] by (auto simp: map_of_eq_None_iff)
  have "(or_zero (segmentNum (segmentPath c m)), segmentPath c m) < (or_zero (segmentNum (segmentPath c n)), segmentPath c n)"
    if "m \<in> set ns" "n \<in> set ns" "m < n" for m n
    using that d(3) by (simp add: or_zero_def less_prod_simp)
  then show "sorted_wrt (\<lambda>x y. (or_zero (segmentNum x), x) < (or_zero (segmentNum y), y)) (map (segmentPath c) ns)"
    unfolding sorted_wrt_map using d(2) by (rule sorted_wrt_mono_rel)
qed

lemma stat_sealed_frame:
  assumes "stat_sealed ps c = (r, c')"
  shows "(\<exists>k. c' = c\<lparr>calls := k\<rparr>)
    \<and> (\<forall>ss. r = Inr ss \<longrightarrow> ss = map (\<lambda>p. openSealedSegment p (length (content (files c) p))) ps)"
  using assms
proof (induction ps arbitrary: c r)
  case Nil
  then have "c' = c\<lparr>calls := calls c\<rparr>" "r = Inr []" by auto
  then show ?case by blast
next
  case (Cons p ps)
  let ?c = "c\<lparr>calls := Suc (calls c)\<rparr>"
  obtain r1 c1 where r: "stat_sealed ps ?c = (r1, c1)" by (rule prod.exhaust)
  have eq: "stat_sealed (p # ps) c = (if sr_ok (sys c (calls c)) then (case r1 of Inl q \<Rightarrow> Inl q
      | Inr ss \<Rightarrow> Inr (openSealedSegment p (length (content (files c1) p)) # ss), c1) else (Inl p, ?c))"
    by (cases r1) (simp_all add: sys_next_def r)
  show ?case
  proof (cases "sr_ok (sys c (calls c))")
    case True
    then have c': "c' = c1" using Cons.prems eq by simp
    from Cons.IH [of ?c r1] r c' obtain k where k: "c1 = ?c\<lparr>calls := k\<rparr>"
      "\<forall>ss. r1 = Inr ss \<longrightarrow> ss = map (\<lambda>p. openSealedSegment p (length (content (files c) p))) ps" by auto
    have "c' = c\<lparr>calls := k\<rparr>" using k(1) c' by simp
    moreover have "ss = map (\<lambda>p. openSealedSegment p (length (content (files c) p))) (p # ps)" if "r = Inr ss" for ss
      using Cons.prems eq True that k by (cases r1) auto
    ultimately show ?thesis by blast
  next
    case False
    then have "c' = c\<lparr>calls := Suc (calls c)\<rparr>" "r = Inl p" using Cons.prems eq by auto
    then show ?thesis by blast
  qed
qed

lemma recover_records:
  assumes "list_all rec_ok rs" "NL \<notin> set t" "recoverPartialLine tr (file_of rec_line rs @ t) = Inr x"
  shows "x = (length (file_of rec_line rs), file_of rec_line rs)"
proof -
  have "\<forall>l\<in>set (map rec_line rs). NL \<notin> set l" using assms(1) rec_line_props(2) by (auto simp: list_all_iff)
  then have "split_nl (file_of rec_line rs @ t) = (map rec_line rs, t)"
    using split_join_nl [of "map rec_line rs" t] assms(2) by (simp add: file_of_def line_simps)
  then have "recoverPartialLine True (file_of rec_line rs @ t) = Inr (length (file_of rec_line rs), file_of rec_line rs)"
    by (simp add: recoverPartialLine_spec file_of_def)
  moreover have "recoverPartialLine tr s = Inr x \<Longrightarrow> recoverPartialLine True s = Inr x" for s
    by (cases tr) (simp_all add: recoverPartialLine_def split: if_splits option.splits)
  ultimately show ?thesis using assms(3) by simp
qed
lemma fold_max_ge: "a \<le> fold max ns (a :: nat)" "n \<in> set ns \<Longrightarrow> n \<le> fold max ns a"
  by (induction ns arbitrary: a) (auto intro: order_trans [OF max.cobounded1] order_trans [OF max.cobounded2])

lemma fold_max_less: "(a :: nat) < b \<Longrightarrow> \<forall>n\<in>set ns. n < b \<Longrightarrow> fold max ns a < b"
  by (induction ns arbitrary: a) auto

text \<open>The segments a disk holds: sealed ones with their records, then the active one, its torn tail cut.\<close>

lemma disk_holds_snoc:
  assumes "disk_holds c ns rss t"
  obtains ns' n rss' rs where "ns = ns' @ [n]" "rss = rss' @ [rs]" "length ns' = length rss'"
    "map (\<lambda>n. map_of (files c) (segmentPath c n)) ns' = map (\<lambda>rs. Some (file_of rec_line rs)) rss'"
    "map_of (files c) (segmentPath c n) = Some (file_of rec_line rs @ t)"
proof -
  obtain rss' rs where r: "rss = rss' @ [rs]" using assms by (cases rss rule: rev_cases) (auto simp: disk_holds_def)
  have m: "map (\<lambda>n. map_of (files c) (segmentPath c n)) ns
      = map (\<lambda>rs. Some (file_of rec_line rs)) rss' @ [Some (file_of rec_line rs @ t)]"
    using assms by (simp add: disk_holds_def r comp_def)
  then obtain ns' n where n: "ns = ns' @ [n]" by (cases ns rule: rev_cases) auto
  then have "map (\<lambda>n. map_of (files c) (segmentPath c n)) ns' = map (\<lambda>rs. Some (file_of rec_line rs)) rss'"
    "map_of (files c) (segmentPath c n) = Some (file_of rec_line rs @ t)" using m by simp_all
  moreover have "length ns' = length rss'" using arg_cong [OF calculation(1), of length] by simp
  ultimately show thesis using n r that by blast
qed

definition opened_segs :: "collection \<Rightarrow> nat list \<Rightarrow> segrec list list \<Rightarrow> (segment \<times> segrec list) list" where
  "opened_segs c ns rss =
     map (\<lambda>(n, rs). (openSealedSegment (segmentPath c n) (length (file_of rec_line rs)), rs)) (zip ns rss)"

lemma map_eq_nth: "map f xs = map g ys \<longleftrightarrow> length xs = length ys \<and> (\<forall>(x, y)\<in>set (zip xs ys). f x = g y)"
  proof -
  have "map f xs = map g ys \<longleftrightarrow> list_all2 (\<lambda>x y. f x = g y) xs ys"
    by (simp add: list.rel_eq [symmetric] list_all2_map1 list_all2_map2)
  then show ?thesis by (simp add: list_all2_iff)
qed

definition opened :: "collection \<Rightarrow> nat list \<Rightarrow> segrec list list \<Rightarrow> nat \<Rightarrow> collection" where
  "opened c ns rss k = c\<lparr>calls := k,
     files := om_ins (segmentPath c (last ns)) (file_of rec_line (last rss)) (files c),
     sealedSegs := map fst (opened_segs c (butlast ns) (butlast rss)),
     active := \<lparr>segpath = segmentPath c (last ns), segsize = length (file_of rec_line (last rss)), sealed = False,
       hasfile = True, poisoned = False\<rparr>,
     segSeq := fold max ns 0\<rparr>"

lemma opened_simps [simp]:
  "segmentPath (opened c ns rss k) = segmentPath c" "cdir (opened c ns rss k) = cdir c" "decs (opened c ns rss k) = decs c"
  "index (opened c ns rss k) = index c" "sidxMap (opened c ns rss k) = sidxMap c" "cepoch (opened c ns rss k) = cepoch c"
  by (simp_all add: opened_def segmentPath_def fun_eq_iff)

lemma opened_names:
  assumes "ns = ns' @ [n]" "length ns' = length (butlast rss)"
  shows "map segpath (all_segs (opened c ns rss k)) = map (segmentPath c) ns"
proof -
  have "map (segpath \<circ> fst) (opened_segs c ns' (butlast rss)) = map (segmentPath c) (map fst (zip ns' (butlast rss)))"
    by (simp add: opened_segs_def case_prod_unfold comp_def openSealedSegment_def)
  then show ?thesis using assms by (simp add: opened_def all_segs_def)
qed

lemma open_segments_opened:
  assumes d: "disk_holds c ns rss t" and s: "sealedSegs c = []" and o: "open_segments c = (None, c1)"
  obtains k where "c1\<lparr>segSeq := max_seg (all_segs c1)\<rparr> = opened c ns rss k"
proof -
  obtain ns' n rss' rs where n: "ns = ns' @ [n]" "rss = rss' @ [rs]" "length ns' = length rss'"
    "map (\<lambda>n. map_of (files c) (segmentPath c n)) ns' = map (\<lambda>rs. Some (file_of rec_line rs)) rss'"
    "map_of (files c) (segmentPath c n) = Some (file_of rec_line rs @ t)"
    by (rule disk_holds_snoc [OF d])
  let ?p = "segmentPath c n" and ?srs = "opened_segs c ns' rss'"
  have paths: "segment_paths c = map (segmentPath c) ns' @ [?p]" using segment_paths_disk [OF d] n(1) by simp
  obtain r c0 where st: "stat_sealed (map (segmentPath c) ns') c = (r, c0)" by (rule prod.exhaust)
  obtain k0 where k0: "c0 = c\<lparr>calls := k0\<rparr>" using stat_sealed_frame [OF st] by blast
  obtain ss where ss: "r = Inr ss" using o st by (cases r) (simp_all add: open_segments_def paths)
  have "ss = map (\<lambda>p. openSealedSegment p (length (content (files c) p))) (map (segmentPath c) ns')"
    using stat_sealed_frame [OF st] ss by blast
  also have "\<dots> = map fst ?srs"
    using n(3,4) by (auto simp: opened_segs_def map_eq_nth content_def list_eq_iff_nth_eq set_zip)
  finally have ss': "ss = map fst ?srs" .
  obtain a c3 where oa: "open_active ?p c0 = (Inr a, c3)" and c1: "c1 = c3\<lparr>sealedSegs := ss, active := a\<rparr>"
    using o st ss s k0 by (cases "open_active ?p c0"; cases "fst (open_active ?p c0)")
      (auto simp: open_segments_def paths open_active_def sys_next_def split: sum.splits prod.splits)
  obtain x where x: "openActiveSegmentWith (sr_ok (sys c k0)) (sr_ok (sys c (Suc k0))) (files c) ?p = Inr x"
    "c3 = c\<lparr>calls := Suc (Suc k0), files := fst x\<rparr>" "a = snd x"
    using oa by (auto simp: open_active_def sys_next_def k0 split: sum.splits prod.splits)
  have "x = (om_ins ?p (file_of rec_line rs) (files c),
      \<lparr>segpath = ?p, segsize = length (file_of rec_line rs), sealed = False, hasfile = True, poisoned = False\<rparr>)"
    using x(1) recover_records [of rs t] d n(2,5)
    by (auto simp: disk_holds_def openActiveSegmentWith_def content_def split: if_splits sum.splits prod.splits)
  then have "c1\<lparr>segSeq := fold max ns 0\<rparr> = opened c ns rss (Suc (Suc k0))"
    using c1 x(2,3) ss' n by (simp add: opened_def)
  moreover have "max_seg (all_segs c1) = fold max ns 0"
  proof -
    have a: "all_segs c1 = all_segs (opened c ns rss (Suc (Suc k0)))"
      using arg_cong [OF calculation, of all_segs] by (simp add: all_segs_def)
    have "max_seg (all_segs c1) = fold max (map (or_zero \<circ> segmentNum) (map segpath (all_segs c1))) 0"
      by (simp add: max_seg_def fold_map comp_def)
    also have "map (or_zero \<circ> segmentNum) (map segpath (all_segs c1)) = ns"
      using d n unfolding a by (subst opened_names [of _ ns' n]) (auto simp: disk_holds_def or_zero_def intro!: map_idI)
    finally show ?thesis .
  qed
  ultimately show thesis by (intro that) simp
qed

lemma opened_layout:
  assumes d: "disk_holds c ns rss t"
  shows "segs_ok (opened c ns rss k) (opened_segs c (butlast ns) (butlast rss)) (last rss)" "paths_ok (opened c ns rss k)"
    "\<not> seg_glob (cdir c) p \<Longrightarrow> map_of (files (opened c ns rss k)) p = map_of (files c) p"
proof -
  have dh: "om_ok (files c)" "sorted_wrt (<) ns" "\<forall>n\<in>set ns. n < 2 ^ 64" "list_all (list_all rec_ok) rss"
    "\<forall>p. seg_glob (cdir c) p \<and> map_of (files c) p \<noteq> None \<longrightarrow> p \<in> segmentPath c ` set ns"
    using d by (simp_all add: disk_holds_def)
  obtain ns' n rss' rs where n: "ns = ns' @ [n]" "rss = rss' @ [rs]" "length ns' = length rss'"
    "map (\<lambda>n. map_of (files c) (segmentPath c n)) ns' = map (\<lambda>rs. Some (file_of rec_line rs)) rss'"
    by (rule disk_holds_snoc [OF d])
  have lt: "m < n" if "m \<in> set ns'" for m using dh(2) n(1) that by (simp add: sorted_wrt_append)
  have "map_of (files c) (segmentPath c m) = Some (file_of rec_line rs') \<and> m \<noteq> n \<and> list_all rec_ok rs'"
    if "(m, rs') \<in> set (zip ns' rss')" for m rs'
    using that n(4) lt set_zip_leftD [OF that] set_zip_rightD [OF that] dh(4) n(2)
    by (auto simp: map_eq_nth list_all_iff)
  then show "segs_ok (opened c ns rss k) (opened_segs c (butlast ns) (butlast rss)) (last rss)"
    using dh(1,4) n by (auto simp: segs_ok_def segs_hold_def seg_holds_def opened_segs_def openSealedSegment_def omap_simps opened_def)
  have names: "map segpath (all_segs (opened c ns rss k)) = map (segmentPath c) ns" using n by (intro opened_names) simp_all
  have "p \<in> segpath ` set (all_segs (opened c ns rss k))" if "seg_glob (cdir c) p" "map_of (files (opened c ns rss k)) p \<noteq> None" for p
  proof -
    have "p \<in> segmentPath c ` set ns" using that dh(1,5) n(1) by (auto simp: opened_def omap_simps split: if_splits)
    also have "\<dots> = segpath ` set (all_segs (opened c ns rss k))" using arg_cong [OF names, of set] by simp
    finally show ?thesis .
  qed
  moreover have "segSeq (opened c ns rss k) = fold max ns 0" by (simp add: opened_def)
  moreover have "\<forall>m\<in>set ns. m \<le> fold max ns 0" "fold max ns 0 < (2 :: nat) ^ 64"
    using dh(3) fold_max_ge(2) [of _ ns 0] fold_max_less [of 0 "2 ^ 64" ns] by simp_all
  ultimately show "paths_ok (opened c ns rss k)" using dh(2) names unfolding paths_ok_def by (metis opened_simps(1,2))
  show "map_of (files (opened c ns rss k)) p = map_of (files c) p" if "\<not> seg_glob (cdir c) p"
    using that glob_segmentPath [of c n] dh(1) n(1) by (auto simp: opened_def omap_simps)
qed

section \<open>Rebuilding the primary index\<close>

lemma sort_all_segs:
  assumes "paths_ok c"
  shows "sortSegments (all_segs c) = all_segs c"
proof -
  obtain ns where ns: "sorted_wrt (<) ns" "\<forall>n\<in>set ns. n \<le> segSeq c" "map segpath (all_segs c) = map (segmentPath c) ns" "segSeq c < 2 ^ 64"
    using assms by (auto simp: paths_ok_def)
  have "sorted_wrt (\<lambda>p q. (case segmentNum p of Some n \<Rightarrow> (False, n, p) | None \<Rightarrow> (True, 0, p))
      < (case segmentNum q of Some n \<Rightarrow> (False, n, q) | None \<Rightarrow> (True, 0, q))) (map (segmentPath c) ns)"
    unfolding sorted_wrt_map
  proof (rule sorted_wrt_mono_rel [OF _ ns(1)])
    fix m n
    assume "m \<in> set ns" "n \<in> set ns" "m < n"
    moreover have "m < 2 ^ 64" "n < 2 ^ 64" using calculation ns(2,4) by force+
    ultimately show "(case segmentNum (segmentPath c m) of Some n \<Rightarrow> (False, n, segmentPath c m) | None \<Rightarrow> (True, 0, segmentPath c m))
      < (case segmentNum (segmentPath c n) of Some k \<Rightarrow> (False, k, segmentPath c n) | None \<Rightarrow> (True, 0, segmentPath c n))"
      by (simp add: less_prod_simp)
  qed
  then have s: "sorted_wrt (\<lambda>x y. segment_key x < segment_key y) (all_segs c)"
    unfolding ns(3) [symmetric] sorted_wrt_map segment_key_def .
  have "distinct (map (segmentPath c) ns)" using ns(1) by (simp add: distinct_map inj_on_def strict_sorted_iff)
  then have "distinct (all_segs c)" unfolding ns(3) [symmetric] by (simp add: distinct_map)
  then show ?thesis unfolding sortSegments_def by (intro sort_key_unique) (simp_all add: s)
qed

text \<open>All the segments of a laid-out collection with their records.\<close>

abbreviation seg_recs :: "collection \<Rightarrow> (segment \<times> segrec list) list \<Rightarrow> segrec list \<Rightarrow> (segment \<times> segrec list) list" where
  "seg_recs c srs rs \<equiv> srs @ [(active c, rs)]"

lemma seg_recs_hold:
  assumes "segs_ok c srs rs"
  shows "segs_hold (files c) (seg_recs c srs rs)" "map fst (seg_recs c srs rs) = all_segs c"
    "(s, rs') \<in> set (seg_recs c srs rs) \<Longrightarrow> segsize s = length (file_of rec_line rs')"
  using assms by (auto simp: segs_ok_def segs_hold_def seg_holds_def all_segs_def)

lemma seg_recs_all: "(s, r) \<in> set (seg_recs c srs rs) \<Longrightarrow> list_all P (all_recs srs rs) \<Longrightarrow> list_all P r"
  by (force simp: list_all_iff)

lemma Rebuild_exact:
  assumes "segs_ok c srs rs" "paths_ok c"
  shows "Rebuild (files c) (decs c) (all_segs c) idx
    = Inr (noteExpiringLocked (idx\<lparr>ientries := replay_all (decs c) (seg_recs c srs rs) []\<rparr>))"
  using replay_segments_recs [OF seg_recs_hold(1) [OF assms(1)], of "decs c" "[]"] seg_recs_hold(2) [OF assms(1)]
  by (simp add: Rebuild_def sort_all_segs [OF assms(2)])

lemma ientries_note [simp]: "ientries (noteExpiringLocked idx) = ientries idx"
  by (simp add: noteExpiringLocked_def)

lemma salvage_fold:
  "fold (\<lambda>se m. if entryVisible (svTx se) dec then applyOne m p (svOffset se) (svEntry se) else m) (salvage_recs off rs) m
    = replay_recs dec p off rs m"
  by (induction rs arbitrary: off m) (simp_all add: salvaged_def apply_scanned_def split: prod.splits)

lemma rebuildTolerant_exact:
  assumes s: "segs_ok c srs rs" and p: "paths_ok c" and op: "list_all rec_op_ok (all_recs srs rs)"
  shows "rebuildTolerant (files c) (decs c) (all_segs c) idx = Inr (idx\<lparr>ientries := replay_all (decs c) (seg_recs c srs rs) []\<rparr>)"
proof -
  let ?step = "\<lambda>res s. case res of Inl err \<Rightarrow> Inl err
    | Inr m \<Rightarrow> (case scanSegmentTolerantLimit (files c) (segpath s) (Some (segsize s)) of
        Inl err \<Rightarrow> Inl err
      | Inr rep \<Rightarrow> Inr (fold (\<lambda>se m. if entryVisible (svTx se) (decs c)
          then applyOne m (segpath s) (svOffset se) (svEntry se) else m) (rpEntries rep) m))"
  have "foldl ?step (Inr m) (map fst xs) = Inr (replay_all (decs c) xs m)"
    if "set xs \<subseteq> set (seg_recs c srs rs)" for xs m
    using that
  proof (induction xs arbitrary: m)
    case (Cons x xs)
    obtain t r where x: "x = (t, r)" by force
    have "(t, r) \<in> set (seg_recs c srs rs)" using Cons.prems by (simp add: x)
    then have "list_all rec_ok r" "map_of (files c) (segpath t) = Some (file_of rec_line r)" "segsize t = length (file_of rec_line r)"
      "list_all rec_op_ok r"
      using seg_recs_hold(1,3) [OF s] seg_recs_all [OF _ op] by (auto simp: segs_hold_def)
    then have "scanSegmentTolerantLimit (files c) (segpath t) (Some (segsize t))
        = Inr \<lparr>rpPath = segpath t, rpSize = length (file_of rec_line r), rpEntries = salvage_recs 0 r, rpBad = []\<rparr>"
      by (intro salvage_file [where b = "file_of rec_line r"]) simp_all
    then show ?case using Cons by (simp add: x salvage_fold)
  qed simp
  from this [OF subset_refl, of "[]"] have "foldl ?step (Inr []) (all_segs c) = Inr (replay_all (decs c) (seg_recs c srs rs) [])"
    unfolding seg_recs_hold(2) [OF s] .
  then show ?thesis unfolding rebuildTolerant_def sort_all_segs [OF p] by simp
qed

section \<open>Rebuilding a secondary index\<close>

definition latest_ok :: "(nat, gmap option option) omap \<Rightarrow> stored \<Rightarrow> bool" where
  "latest_ok m V \<longleftrightarrow> om_ok m \<and> (\<forall>i. (case map_of m i of None \<Rightarrow> None | Some r \<Rightarrow> r) = map_option (Data \<circ> fst) (V i))"

definition stored_ok :: "stored \<Rightarrow> bool" where
  "stored_ok V \<longleftrightarrow> (\<forall>i e r. V i = Some (e, r) \<longrightarrow> data_ok (Data e))"

lemma view_data_ok: "rec_ok r \<Longrightarrow> data_ok (Data (fst (rec_view r)))"
  by (cases r) (simp_all add: rec_ok_def rec_view_def entry_ok_def stamped_ok_def entry_of_stamped_def)

lemma stored_ok_of: "list_all rec_ok rs \<Longrightarrow> stored_ok V \<Longrightarrow> stored_ok (stored_of dec rs V)"
proof (induction rs arbitrary: V)
  case (Cons r rs)
  have "stored_ok (store_step dec (rec_view r) V)"
    using Cons.prems view_data_ok [of r] by (cases "rec_view r") (auto simp: stored_ok_def store_step_def)
  then show ?case using Cons by simp
qed simp

lemma latest_step_ok: "latest_ok m V \<Longrightarrow> latest_ok (if entryVisible tx dec then latest_step e m else m) (store_step dec (e, tx) V)"
  by (auto simp: latest_ok_def latest_step_def store_step_def omap_simps)

lemma latest_recs:
  "latest_ok m V \<Longrightarrow> latest_ok (fold latest_step (visible_entries dec (layout rec_line rec_view off rs)) m) (stored_of dec rs V)"
proof (induction rs arbitrary: off m V)
  case (Cons r rs)
  obtain e tx where v: "rec_view r = (e, tx)" by force
  from Cons.IH [OF latest_step_ok [OF Cons.prems, of tx dec e]] show ?case
    by (cases "entryVisible tx dec") (simp_all add: v visible_entries_def)
qed (simp add: visible_entries_def)

lemma scan_latest_recs:
  assumes "segs_hold d xs" "latest_ok m V"
  shows "\<exists>m'. scan_latest d dec (map fst xs) m = Inr m' \<and> latest_ok m' (stored_of dec (concat (map snd xs)) V)"
  using assms
proof (induction xs arbitrary: m V)
  case (Cons x xs)
  obtain s rs where x: "x = (s, rs)" by force
  have h: "list_all rec_ok rs" "map_of d (segpath s) = Some ([] @ file_of rec_line rs)"
    using Cons.prems(1) by (simp_all add: x segs_hold_def)
  have "scanEntries d dec s = Inr (visible_entries dec (layout rec_line rec_view 0 rs))"
    using seg.scan_from [OF h] by (simp add: scanEntries_def)
  then show ?case using Cons.IH [OF _ latest_recs [OF Cons.prems(2)]] Cons.prems(1) by (simp add: x segs_hold_def)
qed simp

lemma latest_tolerant_recs:
  assumes "segs_hold d xs" "\<forall>(s, rs)\<in>set xs. segsize s = length (file_of rec_line rs) \<and> list_all rec_op_ok rs" "latest_ok m V"
  shows "\<exists>m'. latest_tolerant d dec (map fst xs) m = Inr m' \<and> latest_ok m' (stored_of dec (concat (map snd xs)) V)"
  using assms
proof (induction xs arbitrary: m V)
  case (Cons x xs)
  obtain s rs where x: "x = (s, rs)" by force
  have "scanSegmentTolerantLimit d (segpath s) (Some (segsize s))
      = Inr \<lparr>rpPath = segpath s, rpSize = length (file_of rec_line rs), rpEntries = salvage_recs 0 rs, rpBad = []\<rparr>"
    using Cons.prems(1,2) by (intro salvage_file [where b = "file_of rec_line rs"]) (simp_all add: x segs_hold_def)
  then have "scanEntries_tolerant d dec s = Inr (visible_entries dec (layout rec_line rec_view 0 rs))"
    by (simp add: scanEntries_tolerant_def salvage_recs_layout)
  then show ?case using Cons.IH [OF _ _ latest_recs [OF Cons.prems(3)]] Cons.prems(1,2) by (simp add: x segs_hold_def)
qed simp

lemma install_exact:
  assumes "latest_ok m V" "stored_ok V"
  shows "sidx_ok (sidx_install s m) (field_view s V)" "sfield (sidx_install s m) = sfield s"
    "unique (sidx_install s m) = unique s"
proof -
  have "latest_view s m = field_view s V"
  proof
    fix i
    show "latest_view s m i = field_view s V i"
      using assms(1) by (cases "map_of m i"; cases "V i") (auto simp: latest_ok_def latest_view_def field_view_def rec_value_def
        dest!: spec [of _ i])
  qed
  moreover have "gval_ok v" if m: "(rid, r) \<in> set m" and v: "rec_value s r = Some v" for rid r v
  proof -
    have om: "om_ok m" using assms(1) by (simp add: latest_ok_def)
    then have "map_of m rid = Some r" using m om_ok_distinct [OF om] by simp
    then have "r = map_option (Data \<circ> fst) (V rid)" using assms(1) by (auto simp: latest_ok_def dest: spec [of _ rid])
    then obtain e k where "V rid = Some (e, k)" "r = Some (Data e)" using v by (cases "V rid") (auto simp: rec_value_def)
    then have "data_ok (Data e)" "field_of (sfield s) (Data e) = Some v"
      using assms(2) v by (auto simp: stored_ok_def rec_value_def split: option.splits if_splits)
    then show ?thesis by (rule data_field_ok)
  qed
  ultimately show "sidx_ok (sidx_install s m) (field_view s V)"
    using sidx_install_ok [of m s] assms(1) by (simp add: latest_ok_def)
  show "sfield (sidx_install s m) = sfield s" "unique (sidx_install s m) = unique s"
    by (simp_all add: sidx_install_def split: prod.splits)
qed

lemma rebuild_sidx_exact:
  assumes s: "segs_ok c srs rs" and op: "list_all rec_op_ok (all_recs srs rs)"
    and V: "V = stored_of (decs c) (all_recs srs rs) Map.empty"
  shows "\<exists>t. sidx_rebuild_with tol (files c) (decs c) (all_segs c) s0 = Inr t \<and> sfield t = sfield s0 \<and> unique t = unique s0
    \<and> sidx_ok t (field_view t V)"
proof -
  note h = seg_recs_hold [OF s]
  have e: "latest_ok [] Map.empty" by (simp add: latest_ok_def)
  have V': "V = stored_of (decs c) (concat (map snd (seg_recs c srs rs))) Map.empty" by (simp add: V)
  have "list_all rec_ok (all_recs srs rs)" using h(1) by (auto simp: segs_hold_def list_all_iff)
  then have ok: "stored_ok V" unfolding V by (intro stored_ok_of) (simp_all add: stored_ok_def)
  have "\<exists>m. sidx_rebuild_with tol (files c) (decs c) (all_segs c) s0 = Inr (sidx_install s0 m) \<and> latest_ok m V"
  proof (cases tol)
    case True
    have "\<forall>(s, rs')\<in>set (seg_recs c srs rs). segsize s = length (file_of rec_line rs') \<and> list_all rec_op_ok rs'"
      using h(3) seg_recs_all [OF _ op, of _ _ c] by blast
    then obtain m where "latest_tolerant (files c) (decs c) (all_segs c) [] = Inr m" "latest_ok m V"
      using latest_tolerant_recs [OF h(1) _ e, of "decs c"] unfolding V' h(2) [symmetric] by auto
    then show ?thesis using True by (intro exI [of _ m]) (simp add: sidx_rebuild_with_def)
  next
    case False
    moreover obtain m where "scan_latest (files c) (decs c) (all_segs c) [] = Inr m" "latest_ok m V"
      using scan_latest_recs [OF h(1) e, of "decs c"] unfolding V' h(2) [symmetric] by auto
    ultimately show ?thesis by (intro exI [of _ m]) (simp add: sidx_rebuild_with_def sidx_rebuild_def)
  qed
  then show ?thesis using install_exact [OF _ ok, of _ s0] field_view_cong by metis
qed

end
