(* ===== verification/RecoveryPlan.thy ===== *)
theory RecoveryPlan
  imports RecoveryInv
begin

text \<open>
  When a persisted index is trusted.  A snapshot is honest when it describes records that its segments
  held when it was written and its fingerprints identify their bytes.  The replay planned for an honest
  snapshot brings it to exactly what a rebuild from all segments would give.
\<close>

section \<open>Trusting a snapshot\<close>

text \<open>Files that begin alike hold records that read alike.\<close>

lemma nl_split_eq: "NL \<notin> set a \<Longrightarrow> NL \<notin> set b \<Longrightarrow> a @ NL # u = b @ NL # v \<longleftrightarrow> a = b \<and> u = v"
proof (induction a arbitrary: b)
  case Nil
  then show ?case by (cases b) auto
next
  case (Cons x a)
  then show ?case by (cases b) auto
qed

lemma prefix_records:
  assumes "list_all rec_ok rs" "list_all rec_ok r" "file_of rec_line r = file_of rec_line rs @ v"
  obtains a b where "r = a @ b" "map rec_line a = map rec_line rs" "map rec_view a = map rec_view rs" "file_of rec_line b = v"
  using assms
proof (induction rs arbitrary: r thesis)
  case Nil
  show ?case by (rule Nil.prems(1) [of "[]" r]) (use Nil.prems(4) in simp_all)
next
  case (Cons x rs)
  obtain y r' where r: "r = y # r'" using Cons.prems(4) by (cases r) auto
  have ok: "rec_ok x" "rec_ok y" using Cons.prems(2,3) by (simp_all add: r)
  have eq: "rec_line y = rec_line x" "file_of rec_line r' = file_of rec_line rs @ v"
    using Cons.prems(4) nl_split_eq [OF rec_line_props(2) [OF ok(2)] rec_line_props(2) [OF ok(1)]] by (simp_all add: r)
  then have "rec_view y = rec_view x" using rec_line_props(5) [OF ok(1)] rec_line_props(5) [OF ok(2)] by simp
  moreover obtain a b where "r' = a @ b" "map rec_line a = map rec_line rs" "map rec_view a = map rec_view rs" "file_of rec_line b = v"
    using Cons.IH [OF _ _ _ eq(2)] Cons.prems(2,3) by (auto simp: r)
  ultimately show ?case using Cons.prems(1) [of "y # a" b] eq(1) by (simp add: r)
qed

lemma layout_cong:
  "map rec_line a = map rec_line b \<Longrightarrow> map rec_view a = map rec_view b \<Longrightarrow> layout rec_line rec_view off a = layout rec_line rec_view off b"
proof (induction a arbitrary: b off)
  case (Cons x a)
  obtain y b' where b: "b = y # b'" using Cons.prems(1) by (cases b) simp_all
  have "layout rec_line rec_view o' a = layout rec_line rec_view o' b'" for o'
    by (rule Cons.IH) (use Cons.prems in \<open>simp_all add: b\<close>)
  then show ?case using Cons.prems by (simp add: b)
qed simp

lemma file_cong: "map rec_line a = map rec_line b \<Longrightarrow> file_of rec_line a = file_of rec_line b"
  by (simp add: file_of_def)

lemma stored_cong: "map rec_view a = map rec_view b \<Longrightarrow> stored_of dec a V = stored_of dec b V"
proof -
  assume v: "map rec_view a = map rec_view b"
  have "stored_of dec r V = fold (store_step dec) (map rec_view r) V" for r by (simp add: stored_of_def fold_map comp_def)
  then show ?thesis using v by simp
qed

text \<open>The three loops that decide whether a snapshot is trusted.\<close>

lemma find_seg_Some: "find_seg segs nm = Some s \<Longrightarrow> s \<in> set segs \<and> Base (segpath s) = nm"
proof -
  assume "find_seg segs nm = Some s"
  then obtain i where "i < length (rev segs)" "Base (segpath (rev segs ! i)) = nm" "s = rev segs ! i"
    by (auto simp: find_seg_def find_Some_iff)
  then show ?thesis using nth_mem [of i "rev segs"] by simp
qed

lemma plan_covered_Cons:
  assumes "plan_covered segs (cv # cov) ps = Some ps'"
  obtains s n ps1 where "find_seg segs (CovSegment cv) = Some s" "segmentNum (CovSegment cv) = Some n" "CovSize cv \<le> segsize s"
    "CovSegment cv \<notin> set (psCovered ps)" "plan_covered segs cov ps1 = Some ps'" "psCovered ps1 = CovSegment cv # psCovered ps"
    "psMax ps1 = max n (psMax ps)" "psLast ps1 = (if n \<ge> psMax ps then Some (s, CovSize cv) else psLast ps)"
proof -
  obtain s where s: "find_seg segs (CovSegment cv) = Some s" using assms by (cases "find_seg segs (CovSegment cv)") simp_all
  obtain n where n: "segmentNum (CovSegment cv) = Some n"
    using assms s by (cases "segmentNum (CovSegment cv)") (simp_all split: if_splits)
  let ?ps = "ps\<lparr>psCovered := CovSegment cv # psCovered ps, psMax := max n (psMax ps),
    psLast := if n \<ge> psMax ps then Some (s, CovSize cv) else psLast ps\<rparr>"
  have "(let ps = ps\<lparr>psCovered := CovSegment cv # psCovered ps\<rparr> in
      if n \<ge> psMax ps then ps\<lparr>psMax := n, psLast := Some (s, CovSize cv)\<rparr> else ps) = ?ps"
    by (cases ps) (simp add: Let_def max_def)
  then have "CovSegment cv \<notin> set (psCovered ps) \<and> CovSize cv \<le> segsize s \<and> plan_covered segs cov ?ps = Some ps'"
    using assms s n by (simp split: if_splits)
  then show thesis using s n by (intro that [of s n ?ps]) simp_all
qed

lemma plan_covered_names:
  "plan_covered segs cov ps = Some ps' \<Longrightarrow> set (psCovered ps') = CovSegment ` set cov \<union> set (psCovered ps)
    \<and> distinct (map CovSegment cov) \<and> CovSegment ` set cov \<inter> set (psCovered ps) = {}"
proof (induction cov arbitrary: ps)
  case (Cons cv cov)
  show ?case by (rule plan_covered_Cons [OF Cons.prems], drule Cons.IH) auto
qed simp

lemma plan_covered_segs:
  "plan_covered segs cov ps = Some ps' \<Longrightarrow> psMax ps \<le> psMax ps' \<and>
    (\<forall>cv\<in>set cov. \<exists>s n. find_seg segs (CovSegment cv) = Some s \<and> segmentNum (CovSegment cv) = Some n \<and> CovSize cv \<le> segsize s
       \<and> n \<le> psMax ps')"
proof (induction cov arbitrary: ps)
  case (Cons cv cov)
  show ?case by (rule plan_covered_Cons [OF Cons.prems], drule Cons.IH) auto
qed simp

text \<open>The newest covered segment.\<close>

definition last_of :: "segment list \<Rightarrow> SegmentCoverage list \<Rightarrow> plan_state \<Rightarrow> bool" where
  "last_of segs cov ps \<longleftrightarrow> (\<exists>cv\<in>set cov. \<exists>s. find_seg segs (CovSegment cv) = Some s
     \<and> segmentNum (CovSegment cv) = Some (psMax ps) \<and> psLast ps = Some (s, CovSize cv))"

lemma plan_covered_last:
  "plan_covered segs cov ps = Some ps' \<Longrightarrow> last_of segs cov0 ps \<or> psMax ps = 0 \<and> psLast ps = None \<Longrightarrow>
    cov0 \<noteq> [] \<or> cov \<noteq> [] \<Longrightarrow> last_of segs cov0 ps \<or> cov \<noteq> [] \<Longrightarrow> last_of segs (cov0 @ cov) ps'"
proof (induction cov arbitrary: ps cov0)
  case (Cons cv cov)
  obtain s n ps1 where c: "find_seg segs (CovSegment cv) = Some s" "segmentNum (CovSegment cv) = Some n"
    "plan_covered segs cov ps1 = Some ps'" "psMax ps1 = max n (psMax ps)"
    "psLast ps1 = (if n \<ge> psMax ps then Some (s, CovSize cv) else psLast ps)"
    by (rule plan_covered_Cons [OF Cons.prems(1)]) blast
  have "last_of segs (cov0 @ [cv]) ps1"
  proof (cases "n \<ge> psMax ps")
    case True
    then show ?thesis using c by (auto simp: last_of_def max_def)
  next
    case False
    then have "last_of segs cov0 ps" using Cons.prems(2) by auto
    then show ?thesis using c False by (auto simp: last_of_def max_def)
  qed
  from Cons.IH [OF c(3), of "cov0 @ [cv]"] this show ?case by simp
qed simp

text \<open>The memo only holds fingerprints of segment files as they are.\<close>

definition memo_ok :: "string \<Rightarrow> disk \<Rightarrow> coverageMemo \<Rightarrow> bool" where
  "memo_ok dir d memo \<longleftrightarrow> om_ok memo \<and> (\<forall>p n h. map_of memo (p, n) = Some h \<longrightarrow>
     seg_glob dir p \<and> Option.bind (map_of d p) (\<lambda>b. prefixChecksum b n) = Some h)"

lemma memo_matches_spec:
  assumes "memo_ok dir d memo" "seg_glob dir (segpath s)" "memo_matches d s cv memo = (r, memo')"
  shows "memo_ok dir d memo'" "r \<Longrightarrow> Option.bind (map_of d (segpath s)) (\<lambda>b. prefixChecksum b (CovSize cv)) = Some (CovChecksum cv)"
  using assms by (auto simp: memo_matches_def memo_sum_def memo_ok_def omap_simps split: if_splits option.splits)

lemma plan_check_spec:
  assumes "memo_ok dir d memo" "\<forall>s\<in>set segs. seg_glob dir (segpath s)" "plan_check d segs dec epoch lastp cov memo = (r, memo')"
  shows "memo_ok dir d memo' \<and> (r \<longrightarrow> (\<forall>cv\<in>set cov. \<exists>s. find_seg segs (CovSegment cv) = Some s
      \<and> (CovSize cv < segsize s \<longrightarrow> lastp = Some (segpath s))
      \<and> Option.bind (map_of d (segpath s)) (\<lambda>b. prefixChecksum b (CovSize cv)) = Some (CovChecksum cv)))"
  using assms
proof (induction cov arbitrary: memo)
  case (Cons cv cov)
  show ?case
  proof (cases "find_seg segs (CovSegment cv)")
    case None
    then show ?thesis using Cons.prems by simp
  next
    case (Some s)
    obtain r1 memo1 where m: "memo_matches d s cv memo = (r1, memo1)" by force
    have "seg_glob dir (segpath s)" using find_seg_Some [OF Some] Cons.prems(2) by blast
    note ok = memo_matches_spec [OF Cons.prems(1) this m]
    show ?thesis
    proof (cases "xtx_current d dec epoch s cv \<and> \<not> (segsize s > CovSize cv \<and> lastp \<noteq> Some (segpath s)) \<and> r1")
      case True
      then have "plan_check d segs dec epoch lastp cov memo1 = (r, memo')" using Cons.prems(3) Some m by auto
      from Cons.IH [OF ok(1) Cons.prems(2) this] ok(2) True Some show ?thesis by auto
    next
      case False
      then show ?thesis using Cons.prems ok(1) Some m by (auto split: if_splits bool.splits)
    qed
  qed
qed simp

lemma plan_rest_spec:
  "plan_rest covered m segs = Some rest \<Longrightarrow>
   (\<forall>s\<in>set segs. Base (segpath s) \<notin> set covered \<longrightarrow> (\<exists>n. segmentNum (Base (segpath s)) = Some n \<and> m < n))
   \<and> rest = map (\<lambda>s. (s, 0)) (List.filter (\<lambda>s. Base (segpath s) \<notin> set covered \<and> segsize s > 0) segs)"
  by (induction segs arbitrary: rest) (auto split: if_splits option.splits)


section \<open>Honest snapshots\<close>

text \<open>
  The coverage describes the records \<open>ys\<close>, by segment number, and the fingerprint of each covered file is that
  of no other content than these records.
\<close>

definition snapshot_of :: "disk \<Rightarrow> (nat \<Rightarrow> string) \<Rightarrow> SegmentCoverage list \<Rightarrow> (nat \<times> segrec list) list \<Rightarrow> bool" where
  "snapshot_of d path cov ys \<longleftrightarrow> sorted_wrt (<) (map fst ys)
     \<and> CovSegment ` set cov = seg_name ` fst ` set ys
     \<and> (\<forall>(n, rs)\<in>set ys. n < 2 ^ 64 \<and> list_all rec_ok rs)
     \<and> (\<forall>cv\<in>set cov. \<forall>(n, rs)\<in>set ys. CovSegment cv = seg_name n \<longrightarrow> CovSize cv = length (file_of rec_line rs)
          \<and> (\<forall>b. map_of d (path n) = Some b \<and> prefixChecksum b (CovSize cv) = Some (CovChecksum cv)
               \<longrightarrow> take (CovSize cv) b = file_of rec_line rs))"

text \<open>What is left to replay: segments with the records the snapshot has and those it lacks.\<close>

type_synonym todo = "(segment \<times> segrec list \<times> segrec list) list"

definition plan_of :: "todo \<Rightarrow> (segment \<times> nat) list" where
  "plan_of td = map (\<lambda>(s, a, b). (s, length (file_of rec_line a))) (List.filter (\<lambda>(s, a, b). b \<noteq> []) td)"

definition todo_holds :: "disk \<Rightarrow> todo \<Rightarrow> bool" where
  "todo_holds d td \<longleftrightarrow> (\<forall>(s, a, b)\<in>set td. list_all rec_ok b \<and> map_of d (segpath s) = Some (file_of rec_line a @ file_of rec_line b))"

definition todo_replay :: "decisions \<Rightarrow> todo \<Rightarrow> locs \<Rightarrow> locs" where
  "todo_replay dec td m = fold (\<lambda>(s, a, b). replay_recs dec (segpath s) (length (file_of rec_line a)) b) td m"

abbreviation todo_recs :: "todo \<Rightarrow> segrec list" where
  "todo_recs td \<equiv> concat (map (snd \<circ> snd) td)"

lemma apply_plan_todo: "todo_holds d td \<Longrightarrow> apply_plan d dec (plan_of td) m = Some (todo_replay dec td m)"
proof (induction td arbitrary: m)
  case (Cons x td)
  obtain s a b where x: "x = (s, a, b)" by (cases x)
  have "applyEntries d dec s (length (file_of rec_line a)) m = (replay_recs dec (segpath s) (length (file_of rec_line a)) b m, None)"
    using Cons.prems by (intro applyEntries_file) (simp_all add: x todo_holds_def)
  moreover have "todo_holds d td" using Cons.prems by (simp add: todo_holds_def)
  ultimately show ?case using Cons.IH by (cases "b = []") (simp_all add: x plan_of_def todo_replay_def)
qed (simp add: plan_of_def todo_replay_def)

text \<open>Segments that hold records reading alike replay alike.\<close>

definition same_recs :: "(segment \<times> segrec list) list \<Rightarrow> (segment \<times> segrec list) list \<Rightarrow> bool" where
  "same_recs = list_all2 (\<lambda>(s, r) (s', r'). segpath s = segpath s' \<and> map rec_line r = map rec_line r' \<and> map rec_view r = map rec_view r')"

lemma same_recs_replay: "same_recs xs ys \<Longrightarrow> replay_all dec xs m = replay_all dec ys m"
  unfolding same_recs_def
proof (induction arbitrary: m rule: list_all2_induct)
  case (Cons x xs y ys)
  obtain s r s' r' where xy: "x = (s, r)" "y = (s', r')" by force
  have "replay_recs dec (segpath s) 0 r m = replay_recs dec (segpath s') 0 r' m"
    using Cons.hyps(1) layout_cong [of r r'] by (simp add: xy replay_recs_def)
  then show ?case using Cons.IH by (simp add: xy)
qed simp

lemma same_recs_stored: "same_recs xs ys \<Longrightarrow> stored_of dec (concat (map snd xs)) V = stored_of dec (concat (map snd ys)) V"
  unfolding same_recs_def
proof (induction arbitrary: V rule: list_all2_induct)
  case (Cons x xs y ys)
  have "map rec_view (snd x) = map rec_view (snd y)" using Cons.hyps(1) by (simp add: case_prod_unfold)
  from stored_cong [OF this] Cons.IH show ?case by simp
qed simp


section \<open>A trusted plan is complete\<close>

lemma file_of_Nil_iff [simp]: "file_of rec_line r = [] \<longleftrightarrow> r = []"
  by (cases r) simp_all

lemma split_at: "sorted_wrt (\<lambda>x y. f x < (f y :: nat)) xs \<Longrightarrow> List.filter (\<lambda>x. f x \<le> m) xs @ List.filter (\<lambda>x. m < f x) xs = xs"
proof (induction xs)
  case (Cons x xs)
  show ?case
  proof (cases "f x \<le> m")
    case False
    then have "\<forall>y\<in>set xs. m < f y" using Cons.prems by auto
    then have "List.filter (\<lambda>x. f x \<le> m) xs = []" "List.filter (\<lambda>x. m < f x) xs = xs"
      by (auto simp: filter_empty_conv filter_id_conv)
    then show ?thesis using False by simp
  qed (use Cons in simp)
qed simp

lemma planReplayFor_Some:
  assumes "planReplayFor d segs known cov k dec epoch memo = (Some plan, memo')"
  obtains ps rest where "known" "plan_covered segs cov \<lparr>psCovered = [], psMax = 0, psLast = None\<rparr> = Some ps"
    "plan_check d segs dec epoch (map_option (segpath \<circ> fst) (psLast ps)) cov memo = (True, memo')"
    "plan_rest (psCovered ps) (psMax ps) segs = Some rest"
    "plan = (case psLast ps of Some (s, n) \<Rightarrow> if segsize s > n then [(s, n)] else [] | None \<Rightarrow> []) @ rest"
  using assms by (auto simp: planReplayFor_def split: if_splits option.splits prod.splits bool.splits)

text \<open>The segments of one collection, by number.\<close>

definition numbered :: "collection \<Rightarrow> disk \<Rightarrow> nat list \<Rightarrow> (segment \<times> segrec list) list \<Rightarrow> bool" where
  "numbered c d ns xs \<longleftrightarrow> sorted_wrt (<) ns \<and> (\<forall>n\<in>set ns. n < 2 ^ 64) \<and> map (segpath \<circ> fst) xs = map (segmentPath c) ns
     \<and> segs_hold d xs \<and> (\<forall>(s, r)\<in>set xs. segsize s = length (file_of rec_line r))"

definition seg_no :: "segment \<times> segrec list \<Rightarrow> nat" where
  "seg_no x = or_zero (segmentNum (segpath (fst x)))"

lemma numbered_no:
  assumes "numbered c d ns xs"
  shows "map seg_no xs = ns" "x \<in> set xs \<Longrightarrow> segpath (fst x) = segmentPath c (seg_no x) \<and> seg_no x < 2 ^ 64"
    "sorted_wrt (\<lambda>x y. seg_no x < seg_no y) xs"
    "x \<in> set xs \<Longrightarrow> y \<in> set xs \<Longrightarrow> segpath (fst x) = segpath (fst y) \<Longrightarrow> x = y"
proof -
  have n: "sorted_wrt (<) ns" "\<forall>n\<in>set ns. n < 2 ^ 64" "map (segpath \<circ> fst) xs = map (segmentPath c) ns"
    using assms by (simp_all add: numbered_def)
  have "map seg_no xs = map (or_zero \<circ> segmentNum) (map (segpath \<circ> fst) xs)" by (simp add: seg_no_def)
  also have "\<dots> = map (or_zero \<circ> segmentNum) (map (segmentPath c) ns)" by (simp only: n(3))
  also have "\<dots> = ns" using n(2) by (auto simp: or_zero_def intro!: map_idI)
  finally show no: "map seg_no xs = ns" .
  then show sorted: "sorted_wrt (\<lambda>x y. seg_no x < seg_no y) xs" using n(1) by (auto simp: sorted_wrt_map [symmetric])
  show path: "segpath (fst x) = segmentPath c (seg_no x) \<and> seg_no x < 2 ^ 64" if x: "x \<in> set xs" for x
  proof -
    have "segpath (fst x) \<in> segmentPath c ` set ns" using x arg_cong [OF n(3), of set] by auto
    then show ?thesis using n(2) by (auto simp: seg_no_def or_zero_def)
  qed
  have "distinct (map seg_no xs)" using n(1) no by (simp add: strict_sorted_iff)
  then show "x = y" if "x \<in> set xs" "y \<in> set xs" "segpath (fst x) = segpath (fst y)"
    using that by (auto simp: distinct_map inj_on_def seg_no_def)
qed

lemma snapshot_ofD:
  assumes "snapshot_of d path cov ys" "(k, rs) \<in> set ys"
  shows "seg_name k \<in> CovSegment ` set cov" "list_all rec_ok rs" "k < 2 ^ 64"
    "cv \<in> set cov \<Longrightarrow> CovSegment cv = seg_name k \<Longrightarrow> CovSize cv = length (file_of rec_line rs)"
    "cv \<in> set cov \<Longrightarrow> CovSegment cv = seg_name k \<Longrightarrow> map_of d (path k) = Some b \<Longrightarrow>
      prefixChecksum b (CovSize cv) = Some (CovChecksum cv) \<Longrightarrow> take (CovSize cv) b = file_of rec_line rs"
proof -
  show "seg_name k \<in> CovSegment ` set cov" "list_all rec_ok rs" "k < 2 ^ 64"
    using assms by (auto simp: snapshot_of_def intro!: imageI rev_image_eqI [of "(k, rs)"])
  have all: "\<forall>cv\<in>set cov. CovSegment cv = seg_name k \<longrightarrow> CovSize cv = length (file_of rec_line rs)
      \<and> (\<forall>b. map_of d (path k) = Some b \<and> prefixChecksum b (CovSize cv) = Some (CovChecksum cv)
           \<longrightarrow> take (CovSize cv) b = file_of rec_line rs)"
    using assms unfolding snapshot_of_def by fast
  show "CovSize cv = length (file_of rec_line rs)" if "cv \<in> set cov" "CovSegment cv = seg_name k" using that all by blast
  show "take (CovSize cv) b = file_of rec_line rs" if "cv \<in> set cov" "CovSegment cv = seg_name k" "map_of d (path k) = Some b"
    "prefixChecksum b (CovSize cv) = Some (CovChecksum cv)" using that all by blast
qed

lemma covered_item:
  assumes n: "numbered c d ns xs" and y: "snapshot_of d (segmentPath c) cov ys"
    and chk: "\<forall>cv\<in>set cov. \<exists>s. find_seg (map fst xs) (CovSegment cv) = Some s
      \<and> (CovSize cv < segsize s \<longrightarrow> lastp = Some (segpath s))
      \<and> Option.bind (map_of d (segpath s)) (\<lambda>b. prefixChecksum b (CovSize cv)) = Some (CovChecksum cv)"
    and m: "(k, rs) \<in> set ys" and x: "(s, r) \<in> set xs" "segpath s = segmentPath c k"
  obtains a b where "r = a @ b" "map rec_line a = map rec_line rs" "map rec_view a = map rec_view rs"
    "b = [] \<or> lastp = Some (segpath s)"
proof -
  note k = snapshot_ofD [OF y m]
  obtain cv where cv: "cv \<in> set cov" "CovSegment cv = seg_name k" using k(1) by auto
  then obtain s' where s': "find_seg (map fst xs) (seg_name k) = Some s'" "CovSize cv < segsize s' \<longrightarrow> lastp = Some (segpath s')"
    "Option.bind (map_of d (segpath s')) (\<lambda>b. prefixChecksum b (CovSize cv)) = Some (CovChecksum cv)" using chk by force
  have "s' = s"
  proof -
    obtain r' where r': "(s', r') \<in> set xs" "Base (segpath s') = seg_name k" using find_seg_Some [OF s'(1)] by auto
    have "segpath s' = segmentPath c (seg_no (s', r'))" using numbered_no(2) [OF n r'(1)] by simp
    then have "segpath s' = segpath s" using r'(2) x(2) by simp
    then show ?thesis using numbered_no(4) [OF n r'(1) x(1)] by simp
  qed
  have r: "map_of d (segpath s) = Some (file_of rec_line r)" "list_all rec_ok r" "segsize s = length (file_of rec_line r)"
    using n x(1) by (auto simp: numbered_def segs_hold_def)
  have sz: "CovSize cv = length (file_of rec_line rs)" "take (CovSize cv) (file_of rec_line r) = file_of rec_line rs"
    using k(4,5) [OF cv] s'(3) r(1) x(2) \<open>s' = s\<close> by simp_all
  then have "file_of rec_line r = file_of rec_line rs @ drop (CovSize cv) (file_of rec_line r)" by (metis append_take_drop_id)
  then obtain a b where ab: "r = a @ b" "map rec_line a = map rec_line rs" "map rec_view a = map rec_view rs"
    "file_of rec_line b = drop (CovSize cv) (file_of rec_line r)"
    by (rule prefix_records [OF k(2) r(2)])
  have "b = [] \<or> CovSize cv < segsize s" using ab(4) r(3) by (cases "b = []") (auto simp flip: file_of_Nil_iff)
  then show thesis using that [OF ab(1-3)] s'(2) \<open>s' = s\<close> by auto
qed

abbreviation snap_segs :: "collection \<Rightarrow> (nat \<times> segrec list) list \<Rightarrow> (segment \<times> segrec list) list" where
  "snap_segs c ys \<equiv> map (\<lambda>(n, rs). (openSealedSegment (segmentPath c n) 0, rs)) ys"

definition completes :: "collection \<Rightarrow> disk \<Rightarrow> decisions \<Rightarrow> (segment \<times> segrec list) list \<Rightarrow> (nat \<times> segrec list) list \<Rightarrow> todo \<Rightarrow> bool" where
  "completes c d dec xs ys td \<longleftrightarrow> todo_holds d td
     \<and> replay_all dec xs [] = todo_replay dec td (replay_all dec (snap_segs c ys) [])
     \<and> (\<forall>V. stored_of dec (concat (map snd xs)) V = stored_of dec (todo_recs td) (stored_of dec (concat (map snd ys)) V))"

lemma todo_whole:
  "todo_replay dec (map (\<lambda>(t, r). (t, [], r)) xs) m = replay_all dec xs m"
  "todo_recs (map (\<lambda>(t, r). (t, [], r)) xs) = concat (map snd xs)"
  "segs_hold d xs \<Longrightarrow> todo_holds d (map (\<lambda>(t, r). (t, [], r)) xs)"
proof -
  show "todo_replay dec (map (\<lambda>(t, r). (t, [], r)) xs) m = replay_all dec xs m"
    by (induction xs arbitrary: m) (auto simp: todo_replay_def)
  show "todo_recs (map (\<lambda>(t, r). (t, [], r)) xs) = concat (map snd xs)"
    by (simp add: comp_def case_prod_unfold)
  show "segs_hold d xs \<Longrightarrow> todo_holds d (map (\<lambda>(t, r). (t, [], r)) xs)"
    by (auto simp: segs_hold_def todo_holds_def)
qed

lemma completes_last:
  assumes "segs_hold d (A @ (s, a @ b) # B)" "same_recs A (snap_segs c ys')" "segpath s = segmentPath c k"
    "map rec_line a = map rec_line rs" "map rec_view a = map rec_view rs"
  shows "completes c d dec (A @ (s, a @ b) # B) (ys' @ [(k, rs)]) ((s, a, b) # map (\<lambda>(t, r). (t, [], r)) B)"
proof -
  let ?td = "map (\<lambda>(t, r). (t, [], r)) B"
  have same: "same_recs (A @ [(s, a)]) (snap_segs c (ys' @ [(k, rs)]))"
    using assms(2-5) by (simp add: same_recs_def list_all2_appendI openSealedSegment_def)
  have "segs_hold d B" "list_all rec_ok b" "map_of d (segpath s) = Some (file_of rec_line a @ file_of rec_line b)"
    using assms(1) by (auto simp: segs_hold_def)
  then have 1: "todo_holds d ((s, a, b) # ?td)" using todo_whole(3) [of d B] by (simp add: todo_holds_def)
  have "replay_all dec (A @ (s, a @ b) # B) [] = todo_replay dec ((s, a, b) # ?td) (replay_all dec (A @ [(s, a)]) [])"
    using todo_whole(1) [of dec B] by (simp add: replay_all_append replay_recs_append todo_replay_def)
  then have 2: "replay_all dec (A @ (s, a @ b) # B) []
      = todo_replay dec ((s, a, b) # ?td) (replay_all dec (snap_segs c (ys' @ [(k, rs)])) [])"
    by (simp only: same_recs_replay [OF same])
  have "concat (map snd (snap_segs c (ys' @ [(k, rs)]))) = concat (map snd (ys' @ [(k, rs)]))" by (simp add: comp_def case_prod_unfold)
  then have "stored_of dec (concat (map snd (A @ [(s, a)]))) V = stored_of dec (concat (map snd (ys' @ [(k, rs)]))) V" for V
    using same_recs_stored [OF same, of dec V] by (simp only:)
  then have 3: "stored_of dec (concat (map snd (A @ (s, a @ b) # B))) V
      = stored_of dec (todo_recs ((s, a, b) # ?td)) (stored_of dec (concat (map snd (ys' @ [(k, rs)]))) V)" for V
    using todo_whole(2) [of B] by simp
  show ?thesis unfolding completes_def using 1 2 3 by blast
qed

lemma last_covered:
  assumes n: "numbered c d ns xs" and y: "snapshot_of d (segmentPath c) cov ys" and l: "last_of (map fst xs) cov ps"
    and le: "\<forall>k\<in>fst ` set ys. k \<le> psMax ps"
  obtains ys' rs s r where "ys = ys' @ [(psMax ps, rs)]" "(s, r) \<in> set xs" "segpath s = segmentPath c (psMax ps)"
    "psLast ps = Some (s, length (file_of rec_line rs))"
proof -
  obtain cv s where cv: "cv \<in> set cov" "find_seg (map fst xs) (CovSegment cv) = Some s"
    "segmentNum (CovSegment cv) = Some (psMax ps)" "psLast ps = Some (s, CovSize cv)"
    using l by (auto simp: last_of_def)
  obtain r where r: "(s, r) \<in> set xs" "Base (segpath s) = CovSegment cv" using find_seg_Some [OF cv(2)] by auto
  have "CovSegment cv \<in> seg_name ` fst ` set ys" using y cv(1) by (auto simp: snapshot_of_def)
  then obtain k rs where k: "(k, rs) \<in> set ys" "CovSegment cv = seg_name k" by auto
  note kd = snapshot_ofD [OF y k(1)]
  have k': "k = psMax ps" using cv(3) kd(3) by (simp add: k(2))
  obtain ys' z where z: "ys = ys' @ [z]" using k(1) by (cases ys rule: rev_cases) auto
  have "z = (k, rs)"
  proof (rule ccontr)
    assume "z \<noteq> (k, rs)"
    then have "(k, rs) \<in> set ys'" using k(1) z by auto
    then have "k < fst z" using y z by (force simp: snapshot_of_def sorted_wrt_append)
    moreover have "fst z \<le> psMax ps" using le z by simp
    ultimately show False using k' by simp
  qed
  moreover have "segpath s = segmentPath c k" using numbered_no(2) [OF n r(1)] r(2) k(2) by simp
  moreover have "CovSize cv = length (file_of rec_line rs)" by (rule kd(4) [OF cv(1) k(2)])
  ultimately show thesis using that [of ys' rs s r] z r(1) cv(4) k' by simp
qed

lemma plan_rest_whole:
  assumes n: "numbered c d ns xs" and x: "xs = A @ B" and A: "\<forall>x\<in>set A. Base (segpath (fst x)) \<in> covered"
    and B: "\<forall>x\<in>set B. Base (segpath (fst x)) \<notin> covered"
  shows "map (\<lambda>s. (s, 0)) (List.filter (\<lambda>s. Base (segpath s) \<notin> covered \<and> segsize s > 0) (map fst xs))
    = plan_of (map (\<lambda>(t, r). (t, [], r)) B)"
proof -
  have "\<forall>x\<in>set B. 0 < segsize (fst x) \<longleftrightarrow> snd x \<noteq> []" using n x by (auto simp: numbered_def case_prod_unfold)
  then have "List.filter (\<lambda>s. Base (segpath s) \<notin> covered \<and> segsize s > 0) (map fst B) = map fst (List.filter (\<lambda>(t, r). r \<noteq> []) B)"
    using B by (induction B) auto
  moreover have "List.filter (\<lambda>s. Base (segpath s) \<notin> covered \<and> segsize s > 0) (map fst A) = []"
    using A by (auto simp: filter_empty_conv)
  ultimately show ?thesis by (simp add: x plan_of_def filter_map comp_def case_prod_unfold)
qed

lemma same_recs_covered:
  assumes n: "numbered c d ns (A @ xs')" and no: "map seg_no A = map fst ys'"
    and item: "\<And>k rs s r. (k, rs) \<in> set ys' \<Longrightarrow> (s, r) \<in> set A \<Longrightarrow> segpath s = segmentPath c k \<Longrightarrow>
      map rec_line r = map rec_line rs \<and> map rec_view r = map rec_view rs"
  shows "same_recs A (snap_segs c ys')"
proof -
  have l: "length A = length ys'" using arg_cong [OF no, of length] by simp
  have "segpath s = segmentPath c k \<and> map rec_line r = map rec_line rs \<and> map rec_view r = map rec_view rs"
    if "((s, r), (k, rs)) \<in> set (zip A ys')" for s r k rs
  proof -
    have "(s, r) \<in> set A" "(k, rs) \<in> set ys'" using set_zip_leftD [OF that] set_zip_rightD [OF that] by simp_all
    moreover have "seg_no (s, r) = k" using no that by (auto simp: map_eq_nth)
    ultimately show ?thesis using item numbered_no(2) [OF n, of "(s, r)"] by auto
  qed
  then have "list_all2 (\<lambda>(s, r) (k, rs). segpath s = segmentPath c k \<and> map rec_line r = map rec_line rs \<and> map rec_view r = map rec_view rs) A ys'"
    using l by (simp add: list_all2_iff) blast
  then show ?thesis unfolding same_recs_def list_all2_map2
    by (rule list_all2_mono) (simp add: openSealedSegment_def split: prod.splits)
qed

lemma covered_le:
  assumes n: "numbered c d ns xs" and y: "snapshot_of d (segmentPath c) cov ys"
    and p: "plan_covered (map fst xs) cov ps0 = Some ps" and k: "k \<in> fst ` set ys"
  shows "k \<le> psMax ps" "k \<in> set ns"
proof -
  obtain rs where rs: "(k, rs) \<in> set ys" using k by auto
  obtain cv where cv: "cv \<in> set cov" "CovSegment cv = seg_name k" using snapshot_ofD(1) [OF y rs] by auto
  have b: "k < 2 ^ 64" by (rule snapshot_ofD(3) [OF y rs])
  obtain s where s: "find_seg (map fst xs) (seg_name k) = Some s" "k \<le> psMax ps"
    using plan_covered_segs [OF p] cv b by auto
  obtain r where r: "(s, r) \<in> set xs" "Base (segpath s) = seg_name k" using find_seg_Some [OF s(1)] by auto
  have "seg_no (s, r) = k" using numbered_no(2) [OF n r(1)] r(2) by simp
  then have "k \<in> set (map seg_no xs)" using imageI [OF r(1), of seg_no] by simp
  then show "k \<le> psMax ps" "k \<in> set ns" using s(2) numbered_no(1) [OF n] by simp_all
qed

lemma plan_split:
  assumes n: "numbered c d ns xs" and y: "sorted_wrt (<) (map fst ys)"
    and le: "\<And>k. k \<in> fst ` set ys \<Longrightarrow> k \<le> m \<and> k \<in> set ns"
    and rest: "plan_rest covered m (map fst xs) = Some rest" "set covered = seg_name ` fst ` set ys"
  obtains A B where "xs = A @ B" "map seg_no A = map fst ys" "rest = plan_of (map (\<lambda>(t, r). (t, [], r)) B)"
proof -
  note R = plan_rest_spec [OF rest(1), unfolded rest(2)]
  have gt: "m < seg_no x" if "x \<in> set xs" "seg_no x \<notin> fst ` set ys" for x
  proof -
    have x: "segpath (fst x) = segmentPath c (seg_no x)" "seg_no x < 2 ^ 64" using numbered_no(2) [OF n that(1)] by simp_all
    moreover have "seg_name (seg_no x) \<notin> seg_name ` fst ` set ys" using that(2) by (auto simp: image_iff)
    moreover have "fst x \<in> set (map fst xs)" using that(1) by simp
    ultimately have "\<exists>k. segmentNum (seg_name (seg_no x)) = Some k \<and> m < k" using R by (metis base_segmentPath(2))
    then show ?thesis using x(2) by simp
  qed
  let ?A = "List.filter (\<lambda>x. seg_no x \<le> m) xs" and ?B = "List.filter (\<lambda>x. m < seg_no x) xs"
  have x: "xs = ?A @ ?B" using split_at [OF numbered_no(3) [OF n]] by simp
  have mem: "seg_no x \<in> fst ` set ys \<longleftrightarrow> seg_no x \<le> m" if "x \<in> set xs" for x using le gt [OF that] by force
  have "set (map seg_no ?A) = fst ` set ys"
  proof
    show "set (map seg_no ?A) \<subseteq> fst ` set ys" using mem by auto
    show "fst ` set ys \<subseteq> set (map seg_no ?A)"
    proof
      fix k
      assume k: "k \<in> fst ` set ys"
      then obtain x where "x \<in> set xs" "seg_no x = k" using le [OF k] numbered_no(1) [OF n] by auto
      then show "k \<in> set (map seg_no ?A)" using le [OF k] by auto
    qed
  qed
  moreover have "sorted_wrt (<) (map seg_no ?A)"
    using numbered_no(3) [OF n] by (simp add: sorted_wrt_map sorted_wrt_filter)
  ultimately have A: "map seg_no ?A = map fst ys"
    using y by (intro sorted_distinct_set_unique) (simp_all add: strict_sorted_iff)
  have base: "Base (segpath (fst x)) \<in> seg_name ` fst ` set ys \<longleftrightarrow> seg_no x \<le> m" if "x \<in> set xs" for x
    using numbered_no(2) [OF n that] mem [OF that] by (auto simp: image_iff)
  have "rest = plan_of (map (\<lambda>(t, r). (t, [], r)) ?B)"
    unfolding R [THEN conjunct2] by (rule plan_rest_whole [OF n x]) (use base in auto)
  then show thesis using that x A by blast
qed

text \<open>A trusted snapshot together with its plan describes exactly the records of all segments.\<close>

theorem plan_sound:
  assumes n: "numbered c d ns xs" and y: "snapshot_of d (segmentPath c) cov ys" and m: "memo_ok (cdir c) d memo"
    and p: "planReplayFor d (map fst xs) known cov k dec epoch memo = (Some plan, memo')"
  shows "\<exists>td. plan = plan_of td \<and> completes c d dec xs ys td"
proof -
  obtain ps rest where P: "plan_covered (map fst xs) cov \<lparr>psCovered = [], psMax = 0, psLast = None\<rparr> = Some ps"
    "plan_check d (map fst xs) dec epoch (map_option (segpath \<circ> fst) (psLast ps)) cov memo = (True, memo')"
    "plan_rest (psCovered ps) (psMax ps) (map fst xs) = Some rest"
    "plan = (case psLast ps of Some (s, n) \<Rightarrow> if segsize s > n then [(s, n)] else [] | None \<Rightarrow> []) @ rest"
    by (rule planReplayFor_Some [OF p])
  have cov: "CovSegment ` set cov = seg_name ` fst ` set ys" "sorted_wrt (<) (map fst ys)" using y by (simp_all add: snapshot_of_def)
  have glob: "\<forall>s\<in>set (map fst xs). seg_glob (cdir c) (segpath s)"
    using numbered_no(2) [OF n] glob_segmentPath by auto
  note chk = plan_check_spec [OF m glob P(2), THEN conjunct2, THEN mp, OF TrueI]
  note le = covered_le [OF n y P(1)]
  have names: "set (psCovered ps) = seg_name ` fst ` set ys" using plan_covered_names [OF P(1)] cov(1) by simp
  obtain A B where AB: "xs = A @ B" "map seg_no A = map fst ys" "rest = plan_of (map (\<lambda>(t, r). (t, [], r)) B)"
    using plan_split [OF n cov(2) _ P(3) names] le by blast
  have h: "segs_hold d xs" using n by (simp add: numbered_def)
  show ?thesis
  proof (cases "cov = []")
    case True
    then have ys: "ys = []" "psLast ps = None" "A = []" using cov(1) P(1) AB(2) by auto
    then have "plan = plan_of (map (\<lambda>(t, r). (t, [], r)) xs)" using P(4) AB by simp
    moreover have "completes c d dec xs ys (map (\<lambda>(t, r). (t, [], r)) xs)"
      using todo_whole(1) [of dec xs] todo_whole(2) [of xs] todo_whole(3) [OF h] by (simp add: completes_def ys)
    ultimately show ?thesis by blast
  next
    case False
    then have "last_of (map fst xs) cov ps" using plan_covered_last [OF P(1), of "[]"] by simp
    then obtain ys' rs s r where L: "ys = ys' @ [(psMax ps, rs)]" "(s, r) \<in> set xs" "segpath s = segmentPath c (psMax ps)"
      "psLast ps = Some (s, length (file_of rec_line rs))" using last_covered [OF n y] le(1) by blast
    note item = covered_item [OF n y chk]
    obtain A' z where A': "A = A' @ [z]" using AB(2) L(1) by (cases A rule: rev_cases) auto
    have "seg_no z = psMax ps" "z \<in> set xs" using AB(1,2) L(1) A' by simp_all
    then have z: "z = (s, r)" using numbered_no(2) [OF n, of z] numbered_no(4) [OF n, of z "(s, r)"] L(2,3) by simp
    obtain a b where ab: "r = a @ b" "map rec_line a = map rec_line rs" "map rec_view a = map rec_view rs"
      by (rule item [of "psMax ps" rs s r]) (use L in auto)
    have "map rec_line r' = map rec_line rs' \<and> map rec_view r' = map rec_view rs'"
      if m: "(j, rs') \<in> set ys'" "(s', r') \<in> set A'" "segpath s' = segmentPath c j" for j rs' s' r'
    proof -
      have j: "j < psMax ps" using cov(2) m(1) L(1) by (force simp: sorted_wrt_append)
      obtain a' b' where "r' = a' @ b'" "map rec_line a' = map rec_line rs'" "map rec_view a' = map rec_view rs'"
        "b' = [] \<or> map_option (segpath \<circ> fst) (psLast ps) = Some (segpath s')"
        by (rule item [of j rs' s' r']) (use m L(1) AB(1) A' in auto)
      moreover have "map_option (segpath \<circ> fst) (psLast ps) \<noteq> Some (segpath s')" using j L(3,4) m(3) by simp
      ultimately show ?thesis by auto
    qed
    then have "same_recs A' (snap_segs c ys')"
      using same_recs_covered [of c d ns A' "z # B" ys'] n AB(1,2) A' L(1) by simp
    then have "completes c d dec xs ys ((s, a, b) # map (\<lambda>(t, r). (t, [], r)) B)"
      using completes_last [of d A' s a b B c ys' "psMax ps" rs dec] ab L(1,3) h AB(1) A' z by simp
    moreover have sz: "segsize s = length (file_of rec_line a) + length (file_of rec_line b)"
      using n L(2) by (auto simp: numbered_def case_prod_unfold ab(1))
    moreover have "plan = plan_of ((s, a, b) # map (\<lambda>(t, r). (t, [], r)) B)"
      using P(4) L(4) AB(3) sz by (simp add: plan_of_def file_cong [OF ab(2)])
    ultimately show ?thesis by blast
  qed
qed

end
