(* ===== verification/RecoveryLoad.thy ===== *)
theory RecoveryLoad
  imports RecoveryPlan CollectionApi
begin

text \<open>
  Opening a collection gives back what its segment files describe, whatever the persisted indexes are:
  missing, damaged, out of date or current.
\<close>

section \<open>The primary index\<close>

lemma layout_numbered:
  assumes s: "segs_ok c srs rs" and p: "paths_ok c"
  obtains ns where "numbered c (files c) ns (seg_recs c srs rs)"
proof -
  obtain ns where ns: "sorted_wrt (<) ns" "\<forall>n\<in>set ns. n \<le> segSeq c" "map segpath (all_segs c) = map (segmentPath c) ns"
    "segSeq c < 2 ^ 64" using p by (auto simp: paths_ok_def)
  have "map (segpath \<circ> fst) (seg_recs c srs rs) = map (segmentPath c) ns"
    using ns(3) unfolding seg_recs_hold(2) [OF s, symmetric] by (simp add: comp_def)
  moreover have "\<forall>n\<in>set ns. n < 2 ^ 64" using ns(2,4) by force
  moreover have "\<forall>(s, r)\<in>set (seg_recs c srs rs). segsize s = length (file_of rec_line r)"
    using seg_recs_hold(3) [OF s] by blast
  ultimately show thesis using that ns(1) seg_recs_hold(1) [OF s] by (simp add: numbered_def)
qed

lemma numbered_glob: "numbered c d ns xs \<Longrightarrow> \<forall>s\<in>set (map fst xs). seg_glob (cdir c) (segpath s)"
  using numbered_no(2) glob_segmentPath by fastforce

lemma planReplayFor_memo:
  assumes "memo_ok dir d memo" "\<forall>s\<in>set segs. seg_glob dir (segpath s)" "planReplayFor d segs known cov k dec epoch memo = (r, memo')"
  shows "memo_ok dir d memo'"
  using assms plan_check_spec [OF assms(1,2)]
  by (auto simp: planReplayFor_def split: if_splits option.splits prod.splits bool.splits)

text \<open>An index file is honest: it is unusable, or a snapshot of records its segments held.\<close>

definition honest_index :: "collection \<Rightarrow> bool" where
  "honest_index c \<longleftrightarrow> (\<forall>idx. LoadIndex (indexPath c) (map_of (files c) (indexPath c)) (index c) = Inr idx \<and> coverageKnown idx \<longrightarrow>
     (\<exists>ys. snapshot_of (files c) (segmentPath c) (coverage idx) ys \<and> ientries idx = replay_all (decs c) (snap_segs c ys) []))"

lemma integrityGate_frame:
  assumes "integrityGate g c = (r, g', c')"
  shows "\<exists>k. c' = c\<lparr>ticks := k\<rparr>"
proof (cases "gRan g")
  case True
  then have "c' = c\<lparr>ticks := ticks c\<rparr>" using assms by (simp add: integrityGate_def split: if_splits)
  then show ?thesis by blast
next
  case False
  then have "c' = c\<lparr>ticks := Suc (ticks c)\<rparr>" using assms by (simp add: integrityGate_def wall_now_def Let_def split: if_splits)
  then show ?thesis by blast
qed

lemma rebuild_index_frame:
  assumes s: "segs_ok c srs rs" and p: "paths_ok c" and op: "list_all rec_op_ok (all_recs srs rs)"
    and r: "rebuild_index st c = (Inr x, st', c')"
  shows "\<exists>k idx. c' = c\<lparr>ticks := k, index := idx\<rparr> \<and> ientries idx = replay_all (decs c) (seg_recs c srs rs) []" "oMemo st' = oMemo st"
proof -
  obtain q g c1 where g: "integrityGate (oGate st) c = (q, g, c1)" by (cases "integrityGate (oGate st) c")
  obtain k where k: "c1 = c\<lparr>ticks := k\<rparr>" using integrityGate_frame [OF g] by blast
  obtain tol where q: "q = Inr tol" using r g by (cases q) (simp_all add: rebuild_index_def)
  have s1: "segs_ok c1 srs rs" "paths_ok c1" using s p by (simp_all add: k segs_ok_def paths_ok_def coll_simps)
  have "\<exists>idx. (if tol then rebuildTolerant (files c1) (decs c1) (all_segs c1) (index c1) else Rebuild (files c1) (decs c1) (all_segs c1) (index c1))
      = Inr idx \<and> ientries idx = replay_all (decs c1) (seg_recs c1 srs rs) []"
    using rebuildTolerant_exact [OF s1 op] Rebuild_exact [OF s1] by (cases tol) simp_all
  then obtain idx where idx: "(if tol then rebuildTolerant (files c1) (decs c1) (all_segs c1) (index c1) else Rebuild (files c1) (decs c1) (all_segs c1) (index c1))
      = Inr idx" "ientries idx = replay_all (decs c1) (seg_recs c1 srs rs) []" by blast
  have "st' = st\<lparr>oGate := g\<rparr>" "c' = c1\<lparr>index := idx\<rparr>" using r g q idx(1) by (simp_all add: rebuild_index_def)
  then show "\<exists>k idx. c' = c\<lparr>ticks := k, index := idx\<rparr> \<and> ientries idx = replay_all (decs c) (seg_recs c srs rs) []" "oMemo st' = oMemo st"
    using idx(2) by (auto simp: k intro!: exI [of _ k] exI [of _ idx])
qed

lemma trusted_index:
  assumes s: "segs_ok c srs rs" and n: "numbered c (files c) ns (seg_recs c srs rs)" and h: "honest_index c"
    and m: "memo_ok (cdir c) (files c) memo" and l: "LoadIndex (indexPath c) (map_of (files c) (indexPath c)) (index c) = Inr idx"
    and p: "planReplayFor (files c) (all_segs c) (coverageKnown idx) (coverage idx) k (decs c) ep memo = (Some plan, memo')"
  shows "apply_plan (files c) (decs c) plan (ientries idx) = Some (replay_all (decs c) (seg_recs c srs rs) [])"
proof -
  have "coverageKnown idx" using planReplayFor_Some [OF p] by blast
  then obtain ys where ys: "snapshot_of (files c) (segmentPath c) (coverage idx) ys"
    "ientries idx = replay_all (decs c) (snap_segs c ys) []" using h l by (auto simp: honest_index_def)
  obtain td where "plan = plan_of td" "completes c (files c) (decs c) (seg_recs c srs rs) ys td"
    using plan_sound [OF n ys(1) m p [folded seg_recs_hold(2) [OF s]]] by blast
  then show ?thesis using apply_plan_todo [of "files c" td] by (simp add: ys(2) completes_def)
qed

lemma recoverIndex_exact:
  assumes s: "segs_ok c srs rs" and p: "paths_ok c" and op: "list_all rec_op_ok (all_recs srs rs)" and h: "honest_index c"
    and m: "memo_ok (cdir c) (files c) (oMemo st)" and r: "recoverIndex rnd force st c = (Inr x, st', c')"
  shows "(\<exists>k idx. c' = c\<lparr>ticks := k, index := idx\<rparr> \<and> ientries idx = replay_all (decs c) (seg_recs c srs rs) [])
    \<and> memo_ok (cdir c) (files c) (oMemo st')"
proof -
  obtain ns where n: "numbered c (files c) ns (seg_recs c srs rs)" by (rule layout_numbered [OF s p])
  have re: ?thesis if a: "rebuild_index st1 (c\<lparr>index := idx\<rparr>) = (Inr x, st', c')" and b: "memo_ok (cdir c) (files c) (oMemo st1)" for st1 idx
  proof -
    have s': "segs_ok (c\<lparr>index := idx\<rparr>) srs rs" "paths_ok (c\<lparr>index := idx\<rparr>)" using s p by (simp_all add: segs_ok_def paths_ok_def coll_simps)
    obtain k idx' where "c' = c\<lparr>index := idx, ticks := k, index := idx'\<rparr>" "ientries idx' = replay_all (decs c) (seg_recs c srs rs) []"
      using rebuild_index_frame(1) [OF s' op a] by auto
    then show ?thesis using rebuild_index_frame(2) [OF s' op a] b by (auto intro!: exI [of _ k] exI [of _ idx'])
  qed
  have keep: "c\<lparr>index := index c\<rparr> = c" by simp
  show ?thesis
  proof (cases "force")
    case True
    then show ?thesis using re [of st "index c"] r m by (simp add: recoverIndex_def)
  next
    case nf: False
    show ?thesis
    proof (cases "LoadIndex (indexPath c) (map_of (files c) (indexPath c)) (index c)")
      case (Inl e)
      then show ?thesis using re [of st "index c"] r m nf by (simp add: recoverIndex_def)
    next
      case (Inr idx)
      let ?c = "c\<lparr>index := idx\<rparr>"
      obtain pl memo where pl: "planReplayFor (files c) (all_segs c) (coverageKnown idx) (coverage idx) (length (ientries idx)) (decs c) (cepoch c)
               (oMemo st) = (pl, memo)" by (rule prod.exhaust)
      have memo: "memo_ok (cdir c) (files c) memo"
        using planReplayFor_memo [OF m _ pl] numbered_glob [OF n] unfolding seg_recs_hold(2) [OF s] by blast
      show ?thesis
      proof (cases pl)
        case None
        then show ?thesis using re [of "st\<lparr>oMemo := memo\<rparr>" idx] r nf Inr pl memo
          by (simp add: recoverIndex_def coll_simps Let_def)
      next
        case (Some plan)
        let ?m = "replay_all (decs c) (seg_recs c srs rs) []"
        note ap = trusted_index [OF s n h m Inr pl [unfolded Some]]
        let ?idx = "if plan = [] then idx else noteExpiringLocked (idx\<lparr>ientries := ?m\<rparr>)"
        have e: "ientries ?idx = ?m" using ap by (cases "plan = []") simp_all
        have c': "recoverIndex rnd force st c = (if \<not> segmentsValid ?idx (om_of (map (\<lambda>s. (segpath s, segsize s)) (all_segs c)))
                            \<or> \<not> spotCheck (files c) rnd (all_segs c) (ientries ?idx)
                        then rebuild_index (st\<lparr>oMemo := memo\<rparr>) (c\<lparr>index := ?idx\<rparr>)
                        else (Inr (plan \<noteq> [], False), st\<lparr>oMemo := memo\<rparr>, c\<lparr>index := ?idx\<rparr>))"
          using nf Inr pl Some ap by (simp add: recoverIndex_def coll_simps Let_def)
        show ?thesis
        proof (cases "\<not> segmentsValid ?idx (om_of (map (\<lambda>s. (segpath s, segsize s)) (all_segs c)))
                            \<or> \<not> spotCheck (files c) rnd (all_segs c) (ientries ?idx)")
          case True
          then show ?thesis using re [of "st\<lparr>oMemo := memo\<rparr>" ?idx] r memo unfolding c' by simp
        next
          case False
          then have "c\<lparr>index := ?idx\<rparr> = c'" "st\<lparr>oMemo := memo\<rparr> = st'" using r unfolding c' by simp_all
          then have "c' = c\<lparr>ticks := ticks c, index := ?idx\<rparr>" "oMemo st' = memo" by auto
          then show ?thesis using e memo by blast
        qed
      qed
    qed
  qed
qed

section \<open>Secondary indexes\<close>

lemma replay_entry_ok:
  assumes ok: "sidx_ok s (field_view s V)" and d: "data_ok (Data e)" and v: "entryVisible tx dec"
  shows "sfield (replay_entry e s) = sfield s" "unique (replay_entry e s) = unique s"
    "sidx_ok (replay_entry e s) (field_view s (store_step dec (e, tx) V))"
proof -
  show "sfield (replay_entry e s) = sfield s" "unique (replay_entry e s) = unique s"
    by (auto simp: replay_entry_def sidx_update_def sidx_remove_def sidx_enter_def sidx_leave_def Let_def split: option.splits)
  show "sidx_ok (replay_entry e s) (field_view s (store_step dec (e, tx) V))"
  proof (cases "field_of (sfield s) (Data e)")
    case None
    then show ?thesis using ok v sidx_remove_ok [OF ok, of "ID e"] by (simp add: replay_entry_def store_step_def rec_value_def)
  next
    case (Some w)
    then show ?thesis using ok v sidx_remove_ok [OF ok, of "ID e"] sidx_update_ok [OF ok data_field_ok [OF d Some], of "ID e"]
      by (simp add: replay_entry_def store_step_def rec_value_def)
  qed
qed

lemma replay_entries_ok:
  assumes "list_all rec_ok rs" "sidx_ok s (field_view s V)"
  shows "sidx_ok (fold replay_entry (visible_entries dec (layout rec_line rec_view off rs)) s) (field_view s (stored_of dec rs V))
    \<and> sfield (fold replay_entry (visible_entries dec (layout rec_line rec_view off rs)) s) = sfield s"
  using assms
proof (induction rs arbitrary: off s V)
  case (Cons r rs)
  obtain e tx where v: "rec_view r = (e, tx)" by force
  have d: "data_ok (Data e)" using view_data_ok [of r] Cons.prems(1) by (simp add: v)
  show ?case
  proof (cases "entryVisible tx dec")
    case True
    note n = replay_entry_ok [OF Cons.prems(2) d True]
    have "sidx_ok (replay_entry e s) (field_view (replay_entry e s) (store_step dec (e, tx) V))"
      using n(3) field_view_cong [OF n(1)] by simp
    from Cons.IH [OF _ this, of "off + length (rec_line r) + 1"] Cons.prems(1) field_view_cong [OF n(1)] n(1)
    show ?thesis by (simp add: v visible_entries_def True)
  next
    case False
    then show ?thesis using Cons.IH [OF _ Cons.prems(2), of "off + length (rec_line r) + 1"] Cons.prems(1)
      by (simp add: v visible_entries_def store_step_def)
  qed
qed (simp add: visible_entries_def)

lemma replay_plan_todo:
  assumes "todo_holds d td" "sidx_ok s (field_view s V)"
  shows "\<exists>t. replay_plan d dec (plan_of td) s = (t, True) \<and> sfield t = sfield s \<and> sidx_ok t (field_view s (stored_of dec (todo_recs td) V))"
  using assms
proof (induction td arbitrary: s V)
  case (Cons x td)
  obtain sg a b where x: "x = (sg, a, b)" by (cases x)
  let ?s = "fold replay_entry (visible_entries dec (layout rec_line rec_view (length (file_of rec_line a)) b)) s"
  have h: "list_all rec_ok b" "map_of d (segpath sg) = Some (file_of rec_line a @ file_of rec_line b)" "todo_holds d td"
    using Cons.prems(1) by (simp_all add: x todo_holds_def)
  note n = replay_entries_ok [OF h(1) Cons.prems(2), of dec "length (file_of rec_line a)"]
  have eq: "sidx_replay d dec sg (length (file_of rec_line a)) s = (?s, None)"
    using seg.scan_from [OF h(1,2)] by (simp add: sidx_replay_def)
  have f: "field_view ?s = field_view s" using n by (intro field_view_cong) simp
  have "\<exists>t. replay_plan d dec (plan_of td) ?s = (t, True) \<and> sfield t = sfield ?s \<and> sidx_ok t (field_view ?s (stored_of dec (todo_recs td) (stored_of dec b V)))"
    using n f by (intro Cons.IH [OF h(3)]) simp
  moreover have "?s = s" if "b = []" using that by (simp add: visible_entries_def)
  ultimately show ?case using eq n f by (cases "b = []") (auto simp: x plan_of_def comp_def)
qed (auto simp: plan_of_def)

definition honest_sidx :: "collection \<Rightarrow> string \<Rightarrow> bool" where
  "honest_sidx c p \<longleftrightarrow> (\<forall>s. LoadSidx (map_of (files c) p) (newSecondaryIndex (sidx_field_of p) False) = (True, s) \<and> scoverageKnown s \<longrightarrow>
     (\<exists>ys. snapshot_of (files c) (segmentPath c) (scoverage s) ys
        \<and> sidx_ok s (field_view s (stored_of (decs c) (concat (map snd ys)) Map.empty))))"

lemma LoadSidx_sfield: "sfield (snd (LoadSidx b s)) = sfield s"
  by (simp add: LoadSidx_def Let_def split: option.splits)

lemma recoverSecondary_exact:
  assumes s: "segs_ok c srs rs" and p: "paths_ok c" and op: "list_all rec_op_ok (all_recs srs rs)" and h: "honest_sidx c q"
    and m: "memo_ok (cdir c) (files c) (oMemo st)"
    and r: "recoverSecondary (newSecondaryIndex (sidx_field_of q) False) q force st c = (res, st')"
  shows "(\<exists>ch rb t. res = Inr (ch, rb, t) \<and> sfield t = sidx_field_of q
      \<and> sidx_ok t (field_view t (stored_of (decs c) (all_recs srs rs) Map.empty)))
    \<and> memo_ok (cdir c) (files c) (oMemo st') \<and> oGate st' = oGate st"
proof -
  let ?V = "stored_of (decs c) (all_recs srs rs) Map.empty" and ?new = "newSecondaryIndex (sidx_field_of q) False"
  obtain ns where n: "numbered c (files c) ns (seg_recs c srs rs)" by (rule layout_numbered [OF s p])
  let ?re = "\<lambda>u. map_sum id (\<lambda>u. (True, True, u)) (sidx_rebuild_with (gTolerant (oGate st)) (files c) (decs c) (all_segs c) u)"
  have re: "\<exists>ch rb t. ?re u = Inr (ch, rb, t) \<and> sfield t = sidx_field_of q \<and> sidx_ok t (field_view t ?V)" if "sfield u = sidx_field_of q" for u
    using rebuild_sidx_exact [OF s op refl, of "gTolerant (oGate st)" u] that by auto
  have new: "sfield ?new = sidx_field_of q" by (simp add: newSecondaryIndex_def)
  obtain b u where ld: "LoadSidx (map_of (files c) q) ?new = (b, u)" by (rule prod.exhaust)
  have uf: "sfield u = sidx_field_of q" using LoadSidx_sfield [of "map_of (files c) q" ?new] ld new by simp
  show ?thesis
  proof (cases "force \<or> \<not> b")
    case True
    then have "recoverSecondary ?new q force st c = (?re (if force then ?new else u), st)"
      using ld by (cases force) (simp_all add: recoverSecondary_def Let_def)
    then have "res = ?re (if force then ?new else u)" "st' = st" using r by simp_all
    then show ?thesis using re [of "if force then ?new else u"] m new uf by (simp split: if_splits)
  next
    case False
    obtain pl memo where pl: "planReplayFor (files c) (all_segs c) (scoverageKnown u) (scoverage u) (length (buckets u)) (decs c) (cepoch c)
        (oMemo st) = (pl, memo)" by (rule prod.exhaust)
    have memo: "memo_ok (cdir c) (files c) memo"
      using planReplayFor_memo [OF m _ pl] numbered_glob [OF n] unfolding seg_recs_hold(2) [OF s] by blast
    show ?thesis
    proof (cases pl)
      case None
      then have "res = ?re u" "st' = st\<lparr>oMemo := memo\<rparr>" using r ld pl False by (auto simp: recoverSecondary_def Let_def)
      then show ?thesis using re [OF uf] memo by simp
    next
      case (Some plan)
      have "scoverageKnown u" using planReplayFor_Some [OF pl [unfolded Some]] by blast
      then obtain ys where ys: "snapshot_of (files c) (segmentPath c) (scoverage u) ys"
        "sidx_ok u (field_view u (stored_of (decs c) (concat (map snd ys)) Map.empty))"
        using h ld False by (auto simp: honest_sidx_def)
      obtain td where td: "plan = plan_of td" "completes c (files c) (decs c) (seg_recs c srs rs) ys td"
        using plan_sound [OF n ys(1) m pl [unfolded Some, folded seg_recs_hold(2) [OF s]]] by blast
      have "?V = stored_of (decs c) (todo_recs td) (stored_of (decs c) (concat (map snd ys)) Map.empty)"
        using td(2) by (simp add: completes_def)
      then obtain t where t: "replay_plan (files c) (decs c) plan u = (t, True)" "sfield t = sfield u" "sidx_ok t (field_view u ?V)"
        using replay_plan_todo [of "files c" td u _ "decs c", OF _ ys(2)] td by (auto simp: completes_def)
      have "res = Inr (plan \<noteq> [], False, t)" "st' = st\<lparr>oMemo := memo\<rparr>" using r ld pl False Some t(1) by (auto simp: recoverSecondary_def Let_def)
      then show ?thesis using t(2,3) uf memo field_view_cong [OF t(2)] by auto
    qed
  qed
qed

text \<open>A write outside the segments changes nothing that recovery relies on.\<close>

abbreviation same_segments :: "string \<Rightarrow> disk \<Rightarrow> disk \<Rightarrow> bool" where
  "same_segments dir d d' \<equiv> \<forall>p. seg_glob dir p \<longrightarrow> map_of d' p = map_of d p"

lemma memo_ok_cong: "memo_ok dir d memo \<Longrightarrow> same_segments dir d d' \<Longrightarrow> memo_ok dir d' memo"
  by (auto simp: memo_ok_def)

lemma snapshot_of_cong: "same_segments (cdir c) d d' \<Longrightarrow> snapshot_of d' (segmentPath c) cov ys = snapshot_of d (segmentPath c) cov ys"
  using glob_segmentPath [of c] by (simp add: snapshot_of_def)

lemma honest_sidx_cong:
  assumes "honest_sidx c p" "same_segments (cdir c) (files c) (files c')" "map_of (files c') p = map_of (files c) p"
    "cdir c' = cdir c" "decs c' = decs c"
  shows "honest_sidx c' p"
proof -
  have "segmentPath c' = segmentPath c" using assms(4) by (simp add: segmentPath_def fun_eq_iff)
  then show ?thesis using assms(1) snapshot_of_cong [OF assms(2)] by (simp add: honest_sidx_def assms(3,5))
qed

definition laid :: "collection \<Rightarrow> (segment \<times> segrec list) list \<Rightarrow> segrec list \<Rightarrow> collection \<Rightarrow> bool" where
  "laid c0 srs rs c \<longleftrightarrow> segs_ok c srs rs \<and> paths_ok c \<and> decs c = decs c0 \<and> cdir c = cdir c0 \<and> index c = index c0 \<and> active c = active c0
     \<and> same_segments (cdir c0) (files c0) (files c)"

lemma laid_frame:
  "laid c0 srs rs (c\<lparr>sidxMap := sm\<rparr>) = laid c0 srs rs c" "laid c0 srs rs (c\<lparr>sealedCov := sc\<rparr>) = laid c0 srs rs c"
  "laid c0 srs rs (c\<lparr>ticks := k\<rparr>) = laid c0 srs rs c" "laid c0 srs rs (c\<lparr>idSeq := n\<rparr>) = laid c0 srs rs c"
  "laid c0 srs rs (c\<lparr>createdAt := x\<rparr>) = laid c0 srs rs c" "laid c0 srs rs (c\<lparr>clockFloor := z\<rparr>) = laid c0 srs rs c"
  "laid c0 srs rs (c\<lparr>explicitDefaultTTLSecs := y\<rparr>) = laid c0 srs rs c"
proof -
  have "segmentPath (c\<lparr>sealedCov := sc\<rparr>) = segmentPath c" "segmentPath (c\<lparr>createdAt := x\<rparr>) = segmentPath c"
    "segmentPath (c\<lparr>explicitDefaultTTLSecs := y\<rparr>) = segmentPath c"
    by (simp_all add: segmentPath_def fun_eq_iff)
  then show "laid c0 srs rs (c\<lparr>sidxMap := sm\<rparr>) = laid c0 srs rs c" "laid c0 srs rs (c\<lparr>sealedCov := sc\<rparr>) = laid c0 srs rs c"
    "laid c0 srs rs (c\<lparr>ticks := k\<rparr>) = laid c0 srs rs c" "laid c0 srs rs (c\<lparr>idSeq := n\<rparr>) = laid c0 srs rs c"
    "laid c0 srs rs (c\<lparr>createdAt := x\<rparr>) = laid c0 srs rs c" "laid c0 srs rs (c\<lparr>clockFloor := z\<rparr>) = laid c0 srs rs c"
    "laid c0 srs rs (c\<lparr>explicitDefaultTTLSecs := y\<rparr>) = laid c0 srs rs c"
    by (simp_all add: laid_def segs_ok_def paths_ok_def coll_simps all_segs_def)
qed

lemma laid_write:
  assumes l: "laid c0 srs rs c" and p: "\<not> seg_glob (cdir c0) p" and w: "writeFileAtomic p b c = (ok, c')"
  shows "laid c0 srs rs c'" "sidxMap c' = sidxMap c" "q \<noteq> p \<Longrightarrow> map_of (files c') q = map_of (files c) q"
    "cepoch c' = cepoch c" "idSeq c' = idSeq c"
proof -
  have c: "segs_ok c srs rs" "paths_ok c" "cdir c = cdir c0" and om: "om_ok (files c)"
    using l by (auto simp: laid_def segs_ok_def seg_holds_def)
  have c': "c' = (if sr_ok (sys c (calls c)) \<or> sr_done (sys c (calls c)) then c\<lparr>calls := Suc (calls c), files := om_ins p b (files c)\<rparr>
      else c\<lparr>calls := Suc (calls c)\<rparr>)" using w by (auto simp: writeFileAtomic_def sys_next_def split: if_splits)
  show "sidxMap c' = sidxMap c" "cepoch c' = cepoch c" "idSeq c' = idSeq c" by (simp_all add: c')
  show m: "map_of (files c') q = map_of (files c) q" if "q \<noteq> p" for q using that om by (simp add: c' omap_simps)
  have "segs_ok c' srs rs \<and> paths_ok c'"
  proof (cases "sr_ok (sys c (calls c)) \<or> sr_done (sys c (calls c))")
    case True
    then have f: "files c' = om_ins p b (files c) \<or> files c' = om_del p (files c)" by (simp add: c')
    show ?thesis using layout_other_file [OF c(1,2) _ f] p c(3) by (simp add: c')
  next
    case False
    then show ?thesis using c by (simp add: c' segs_ok_def paths_ok_def coll_simps)
  qed
  moreover have "decs c' = decs c" "cdir c' = cdir c" "index c' = index c" "active c' = active c" by (simp_all add: c')
  ultimately show "laid c0 srs rs c'" using l m p by (metis laid_def)
qed

lemma sidx_not_seg: "glob_match dir ''sidx_'' ''.json'' p \<Longrightarrow> \<not> seg_glob dir p"
  by (cases "drop (length dir + 1) p"; cases "tl (drop (length dir + 1) p)") (auto simp: glob_match_def Let_def)

lemma persistSecondary_laid:
  assumes l: "laid c0 srs rs c" and p: "\<not> seg_glob (cdir c0) p"
  shows "laid c0 srs rs (snd (persistSecondary s p dec ep c))" "sidxMap (snd (persistSecondary s p dec ep c)) = sidxMap c"
    "q \<noteq> p \<Longrightarrow> map_of (files (snd (persistSecondary s p dec ep c))) q = map_of (files c) q"
proof -
  have "snd (persistSecondary s p dec ep c) = c \<or> (\<exists>b. snd (persistSecondary s p dec ep c) = snd (writeFileAtomic p b c))"
    by (cases "capture_all (files c) dec ep (all_segs c)") (auto simp: persistSecondary_def case_prod_unfold)
  then show "laid c0 srs rs (snd (persistSecondary s p dec ep c))" "sidxMap (snd (persistSecondary s p dec ep c)) = sidxMap c"
    "q \<noteq> p \<Longrightarrow> map_of (files (snd (persistSecondary s p dec ep c))) q = map_of (files c) q"
    using laid_write [OF l p surjective_pairing] l by metis+
qed

lemma load_secondary_exact:
  assumes l: "laid c0 srs rs c" and op: "list_all rec_op_ok (all_recs srs rs)" and h: "honest_sidx c p"
    and m: "memo_ok (cdir c0) (files c0) (oMemo st)" and p: "\<not> seg_glob (cdir c0) p"
    and V: "V = stored_of (decs c0) (all_recs srs rs) Map.empty" and si: "sidxs_ok c V"
    and r: "load_secondary p sw st c = (e, st', c')"
  shows "e = None \<and> laid c0 srs rs c' \<and> sidxs_ok c' V \<and> memo_ok (cdir c0) (files c0) (oMemo st') \<and> oGate st' = oGate st
    \<and> (\<forall>q. q \<noteq> p \<longrightarrow> map_of (files c') q = map_of (files c) q)"
proof -
  have c: "segs_ok c srs rs" "paths_ok c" "decs c = decs c0" "cdir c = cdir c0" "same_segments (cdir c0) (files c0) (files c)"
    using l by (simp_all add: laid_def)
  obtain res st1 where rs: "recoverSecondary (newSecondaryIndex (sidx_field_of p) False) p sw st c = (res, st1)" by (rule prod.exhaust)
  have m': "memo_ok (cdir c) (files c) (oMemo st)" using memo_ok_cong [OF m c(5)] c(4) by simp
  obtain ch rb t where t: "res = Inr (ch, rb, t)" "sfield t = sidx_field_of p" "sidx_ok t (field_view t V)"
    "memo_ok (cdir c) (files c) (oMemo st1)" "oGate st1 = oGate st"
    using recoverSecondary_exact [OF c(1,2) op h m' rs] V c(3) by auto
  let ?c = "if ch \<and> rb then snd (persistSecondary t p (decs c) (cepoch c) c) else c"
  have "load_secondary p sw st c = (None, st1, ?c\<lparr>sidxMap := om_ins (sidx_field_of p) t (sidxMap ?c)\<rparr>)"
    using rs t(1) by (simp add: load_secondary_def Let_def)
  then have c': "e = None" "st' = st1" "c' = ?c\<lparr>sidxMap := om_ins (sidx_field_of p) t (sidxMap ?c)\<rparr>" using r by simp_all
  note w = persistSecondary_laid [OF l p]
  have l1: "laid c0 srs rs ?c" "sidxMap ?c = sidxMap c" "\<forall>q. q \<noteq> p \<longrightarrow> map_of (files ?c) q = map_of (files c) q"
    using l w by simp_all
  have l': "laid c0 srs rs c'" using l1(1) by (simp only: c'(3) laid_frame)
  have "memo_ok (cdir c0) (files c0) (oMemo st')" using memo_ok_cong [OF t(4), of "files c0"] c(4,5) c'(2) by simp
  moreover have "sidxs_ok c' V" using si t(2,3) by (simp add: c'(3) l1(2) sidxs_ok_def omap_simps)
  ultimately show ?thesis using c' l' l1(3) t(5) by simp
qed

lemma load_secondaries_exact:
  assumes "laid c0 srs rs c" "list_all rec_op_ok (all_recs srs rs)" "\<forall>p\<in>set ps. honest_sidx c p \<and> \<not> seg_glob (cdir c0) p" "distinct ps"
    "memo_ok (cdir c0) (files c0) (oMemo st)" "V = stored_of (decs c0) (all_recs srs rs) Map.empty" "sidxs_ok c V"
    "load_secondaries ps sw st c = (e, st', c')"
  shows "e = None \<and> laid c0 srs rs c' \<and> sidxs_ok c' V \<and> memo_ok (cdir c0) (files c0) (oMemo st') \<and> oGate st' = oGate st
    \<and> (\<forall>q. q \<notin> set ps \<longrightarrow> map_of (files c') q = map_of (files c) q)"
  using assms
proof (induction ps arbitrary: c st)
  case (Cons p ps)
  have p: "honest_sidx c p" "\<not> seg_glob (cdir c0) p" using Cons.prems(3) by simp_all
  obtain e1 st1 c1 where r: "load_secondary p sw st c = (e1, st1, c1)" by (cases "load_secondary p sw st c")
  note x = load_secondary_exact [OF Cons.prems(1,2) p(1) Cons.prems(5) p(2) Cons.prems(6,7) r]
  have c: "cdir c1 = cdir c" "decs c1 = decs c" "cdir c = cdir c0" "same_segments (cdir c) (files c) (files c1)"
    using x Cons.prems(1) by (auto simp: laid_def)
  have "\<forall>q\<in>set ps. honest_sidx c1 q \<and> \<not> seg_glob (cdir c0) q"
  proof
    fix q
    assume q: "q \<in> set ps"
    then have "map_of (files c1) q = map_of (files c) q" using x Cons.prems(4) by auto
    then show "honest_sidx c1 q \<and> \<not> seg_glob (cdir c0) q" using honest_sidx_cong [OF _ c(4) _ c(1,2)] q Cons.prems(3) by simp
  qed
  moreover have "load_secondaries ps sw st1 c1 = (e, st', c')" using Cons.prems(8) r x by simp
  ultimately show ?case using Cons.IH [of c1 st1] x Cons.prems(2,4,6) by simp
qed simp

section \<open>Identifiers\<close>

lemma max_id_ts_fold: "fst (max_id_ts es m) = fold max (map ID es) (fst m)"
proof -
  have "fst (fold (\<lambda>e (i, t). (max (ID e) i, max (i64 (Ts e)) t)) es m) = fold max (map ID es) (fst m)"
    by (induction es arbitrary: m) (auto simp: case_prod_unfold)
  then show ?thesis by (simp add: max_id_ts_def)
qed

text \<open>Every record counts: none is hidden by an undecided transaction.\<close>

definition all_visible :: "decisions \<Rightarrow> segrec list \<Rightarrow> bool" where
  "all_visible dec rs \<longleftrightarrow> list_all (\<lambda>r. entryVisible (snd (rec_view r)) dec) rs"

lemma visible_scan_recs:
  assumes "list_all rec_ok r" "map_of d (segpath s) = Some (file_of rec_line r)" "all_visible dec r"
  shows "map ID (visible_scan d dec s) = map (ID \<circ> fst \<circ> rec_view) r"
proof -
  have "ScanStampedFromOffset d s 0 = (layout rec_line rec_view 0 r, None)" using seg.scan_from [of r d s "[]"] assms(1,2) by simp
  moreover have "map ID (visible_entries dec (layout rec_line rec_view off r)) = map (ID \<circ> fst \<circ> rec_view) r" for off
    using assms(3) by (induction r arbitrary: off) (auto simp: visible_entries_def all_visible_def split: prod.splits)
  ultimately show ?thesis by (simp add: visible_scan_def)
qed

abbreviation rec_id :: "segrec \<Rightarrow> nat" where
  "rec_id r \<equiv> ID (fst (rec_view r))"

text \<open>The persisted counter bounds the ids of every segment that a record follows, as a rotation leaves it.\<close>

fun counter_covers :: "nat \<Rightarrow> segrec list list \<Rightarrow> bool" where
  "counter_covers k [] = True"
| "counter_covers k (rs # rss) = ((concat rss = [] \<or> (\<forall>r\<in>set rs. rec_id r \<le> k)) \<and> counter_covers k rss)"

lemma counter_covers_snoc:
  "counter_covers k (rss @ [rs]) \<Longrightarrow> counter_covers k rss \<and> (rs \<noteq> [] \<longrightarrow> (\<forall>r\<in>set (concat rss). rec_id r \<le> k))"
  by (induction rss) auto

lemma tail_max_bound:
  assumes "segs_hold d xs" "all_visible dec (concat (map snd xs))" "counter_covers k (map snd xs)" "r \<in> set (concat (map snd xs))"
  shows "rec_id r \<le> max k (fst (tail_max d dec (rev (map fst xs))))"
  using assms
proof (induction xs rule: rev_induct)
  case (snoc x xs)
  obtain s rs where x: "x = (s, rs)" by force
  note c = counter_covers_snoc [of k "map snd xs" rs]
  have v: "map ID (visible_scan d dec s) = map rec_id rs"
    using snoc.prems(1,2) visible_scan_recs [of rs d s dec] by (simp add: x segs_hold_def all_visible_def comp_def)
  obtain i t where m: "max_id_ts (visible_scan d dec s) (0, 0) = (i, t)" by force
  have i: "i = fold max (map rec_id rs) 0" using max_id_ts_fold [of "visible_scan d dec s" "(0, 0)"] v m by simp
  have le: "rec_id q \<le> i" if "q \<in> set rs" for q
    using fold_max_ge(2) [of "rec_id q" "map rec_id rs" 0] that i by simp
  have ih: "rec_id r \<le> max k (fst (tail_max d dec (rev (map fst xs))))" if "r \<in> set (concat (map snd xs))"
    using snoc.IH snoc.prems that c by (simp add: x segs_hold_def all_visible_def)
  show ?case
  proof (cases "i > 0 \<or> t > 0")
    case True
    have "rs \<noteq> []"
    proof
      assume "rs = []"
      then have "visible_scan d dec s = []" using v by simp
      then show False using m True by (simp add: max_id_ts_def)
    qed
    then have "rec_id r \<le> k \<or> rec_id r \<le> i" using snoc.prems(3,4) c le by (auto simp: x)
    then have "rec_id r \<le> max k i" by linarith
    then show ?thesis using True m by (simp add: x)
  next
    case False
    then have "tail_max d dec (rev (map fst (xs @ [x]))) = tail_max d dec (rev (map fst xs))" using m by (simp add: x)
    moreover have "r \<in> set rs \<or> r \<in> set (concat (map snd xs))" using snoc.prems(4) by (auto simp: x)
    ultimately show ?thesis using le [of r] ih False by auto
  qed
qed simp

lemma set_members_inv: "(\<And>kv x y. f kv x = Some y \<Longrightarrow> P x \<Longrightarrow> P y) \<Longrightarrow> set_members f kvs x = Some y \<Longrightarrow> P x \<Longrightarrow> P y"
  by (induction f kvs x rule: set_members.induct) (auto split: option.splits)

lemma get_uint_bound: "get_uint b j old = Some n \<Longrightarrow> old < 2 ^ b \<Longrightarrow> n < 2 ^ b"
  by (auto simp: get_uint_def split: json.splits numlit.splits option.splits if_splits)

lemma loadMeta_counter: "loadMeta d p = Inr m \<Longrightarrow> is_u64 (cmIDCounter m)"
proof -
  assume "loadMeta d p = Inr m"
  then obtain b j where j: "get_struct set_meta_field j \<lparr>cmIDCounter = 0, cmCreatedAt = zero_time, cmDefaultTTLSeconds = 0, cmEncryption = None\<rparr> = Some m"
    by (auto simp: loadMeta_def bind_eq_Some_conv split: option.splits)
  have "is_u64 (cmIDCounter y)" if "set_meta_field kv x = Some y" "is_u64 (cmIDCounter x)" for kv x y
    using that get_uint_bound [of 64 "snd kv" "cmIDCounter x"] by (auto simp: set_meta_field_def Let_def is_u64_def split: if_splits)
  from set_members_inv [where P = "\<lambda>x. is_u64 (cmIDCounter x)" and f = set_meta_field, OF this] j
  show ?thesis by (auto simp: get_struct_def is_u64_def split: json.splits)
qed

lemma checkEncryptionMeta_cases:
  assumes "checkEncryptionMeta c = (r, c1)"
  shows "(\<exists>m. r = MetaOK m \<and> c1 = c \<and> loadMeta (files c) (metaPath (cdir c)) = Inr m) \<or> r = MetaRegenerate \<and> c1 = c \<or> (\<exists>ev. r = MetaRefused ev)"
  using assms by (auto simp: checkEncryptionMeta_def Let_def split: sum.splits if_splits option.splits)

lemma rec_id_u64: "rec_ok r \<Longrightarrow> is_u64 (rec_id r)"
  by (cases r) (simp_all add: rec_ok_def rec_view_def entry_ok_def stamped_ok_def entry_of_stamped_def)

lemma max_ids_bound:
  assumes "segs_hold d xs" "all_visible dec (concat (map snd xs))"
  shows "fst (max_id_ts (concat (map (visible_scan d dec) (map fst xs))) m) = fold max (map rec_id (concat (map snd xs))) (fst m)"
proof -
  have "map ID (visible_scan d dec (fst x)) = map rec_id (snd x)" if "x \<in> set xs" for x
  proof -
    obtain s r where x: "x = (s, r)" by force
    have "list_all rec_ok r" "map_of d (segpath s) = Some (file_of rec_line r)" using assms(1) that by (auto simp: segs_hold_def x)
    moreover have "all_visible dec r" using assms(2) that by (force simp: all_visible_def list_all_iff x)
    ultimately show ?thesis using visible_scan_recs by (simp add: x comp_def)
  qed
  then have "map ID (concat (map (visible_scan d dec) (map fst xs))) = map rec_id (concat (map snd xs))"
    by (simp add: map_concat comp_def cong: map_cong)
  then show ?thesis by (simp only: max_id_ts_fold)
qed

lemma replay_keys:
  assumes "om_ok m"
  shows "set (om_keys (replay_recs dec p off rs m)) \<subseteq> set (om_keys m) \<union> rec_id ` set rs"
  using assms
proof (induction rs arbitrary: off m)
  case (Cons r rs)
  let ?m = "apply_scanned dec p (off, rec_view r) m"
  have "set (om_keys ?m) \<subseteq> insert (rec_id r) (set (om_keys m))"
  proof
    fix i
    assume "i \<in> set (om_keys ?m)"
    then have "map_of ?m i \<noteq> None" by (simp add: map_of_eq_None_iff)
    then have "i = rec_id r \<or> map_of m i \<noteq> None"
      using Cons.prems by (auto simp: apply_scanned_def applyOne_def Let_def omap_simps split: prod.splits if_splits)
    then show "i \<in> insert (rec_id r) (set (om_keys m))" by (auto simp: map_of_eq_None_iff)
  qed
  moreover have "set (om_keys (replay_recs dec p (off + length (rec_line r) + 1) rs ?m)) \<subseteq> set (om_keys ?m) \<union> rec_id ` set rs"
    using Cons.prems by (intro Cons.IH) simp
  ultimately show ?case unfolding replay_recs_simps list.set image_insert by blast
qed simp

lemma replay_all_keys:
  "om_ok m \<Longrightarrow> set (om_keys (replay_all dec xs m)) \<subseteq> set (om_keys m) \<union> rec_id ` set (concat (map snd xs))"
proof (induction xs arbitrary: m)
  case (Cons x xs)
  obtain s r where x: "x = (s, r)" by force
  let ?m = "replay_recs dec (segpath s) 0 r m"
  have "set (om_keys (replay_all dec xs ?m)) \<subseteq> set (om_keys ?m) \<union> rec_id ` set (concat (map snd xs))"
    using Cons.prems by (intro Cons.IH) simp
  moreover have "set (om_keys ?m) \<subseteq> set (om_keys m) \<union> rec_id ` set r" by (rule replay_keys [OF Cons.prems])
  moreover have "set (concat (map snd (x # xs))) = set r \<union> set (concat (map snd xs))" by (simp add: x)
  ultimately show ?case unfolding x replay_all.simps by blast
qed simp

lemma tail_max_u64:
  assumes "segs_hold d xs" "all_visible dec (concat (map snd xs))"
  shows "fst (tail_max d dec (rev (map fst xs))) < 2 ^ 64"
  using assms
proof (induction xs rule: rev_induct)
  case (snoc x xs)
  obtain s rs where x: "x = (s, rs)" by force
  have v: "map ID (visible_scan d dec s) = map rec_id rs" and ok: "list_all rec_ok rs"
    using snoc.prems visible_scan_recs [of rs d s dec] by (simp_all add: x segs_hold_def all_visible_def comp_def)
  obtain i t where m: "max_id_ts (visible_scan d dec s) (0, 0) = (i, t)" by force
  have "i = fold max (map rec_id rs) 0" using max_id_ts_fold [of "visible_scan d dec s" "(0, 0)"] v m by simp
  moreover have "\<forall>n\<in>set (map rec_id rs). n < 2 ^ 64" using ok rec_id_u64 by (auto simp: list_all_iff is_u64_def)
  ultimately have "i < 2 ^ 64" using fold_max_less [of 0 "2 ^ 64" "map rec_id rs"] by simp
  then show ?case using snoc m by (simp add: x segs_hold_def all_visible_def)
qed simp

lemma writeMeta_laid:
  assumes "laid c0 srs rs c"
  shows "laid c0 srs rs (snd (writeMeta c))" "sidxMap (snd (writeMeta c)) = sidxMap c" "idSeq (snd (writeMeta c)) = idSeq c"
proof -
  have p: "\<not> seg_glob (cdir c0) (metaPath (cdir c))" using assms by (simp add: laid_def)
  have w: "snd (writeMeta c) = c \<or> (\<exists>b. snd (writeMeta c) = snd (writeFileAtomic (metaPath (cdir c)) b c))"
    using persistMeta_eq [of "idSeq c" "createdAt c" "explicitDefaultTTLSecs c" c] by (simp only: writeMeta_def)
  have f: "laid c0 srs rs c1 \<and> sidxMap c1 = sidxMap c \<and> idSeq c1 = idSeq c" if "c1 = snd (writeFileAtomic (metaPath (cdir c)) b c)" for b c1
    using laid_write [OF assms p, of b "fst (writeFileAtomic (metaPath (cdir c)) b c)" c1] that by simp
  from w have "laid c0 srs rs (snd (writeMeta c)) \<and> sidxMap (snd (writeMeta c)) = sidxMap c \<and> idSeq (snd (writeMeta c)) = idSeq c"
  proof (elim disjE exE)
    assume "snd (writeMeta c) = c"
    then show ?thesis using assms by simp
  qed (rule f)
  then show "laid c0 srs rs (snd (writeMeta c))" "sidxMap (snd (writeMeta c)) = sidxMap c" "idSeq (snd (writeMeta c)) = idSeq c" by simp_all
qed

lemma restore_counter_regenerate:
  assumes l: "laid c0 srs rs c" and v: "all_visible (decs c0) (all_recs srs rs)"
    and i: "\<forall>i\<in>set (om_keys (ientries (index c0))). i < 2 ^ 64" and r: "restore_counter c = (None, c')"
    and m: "checkEncryptionMeta c = (MetaRegenerate, c)"
  shows "laid c0 srs rs c' \<and> sidxMap c' = sidxMap c \<and> ids_ok c' (all_recs srs rs)"
proof -
  have c: "segs_ok c srs rs" "decs c = decs c0" "index c = index c0" using l by (simp_all add: laid_def)
  note sh = seg_recs_hold [OF c(1)]
  have all: "concat (map snd (seg_recs c srs rs)) = all_recs srs rs" by simp
  have u: "\<forall>n\<in>set (map rec_id (all_recs srs rs)). n < 2 ^ 64"
    using sh(1) rec_id_u64 by (auto simp: segs_hold_def list_all_iff is_u64_def)
  let ?k = "fold max (om_keys (ientries (index c))) 0" and ?vs = "concat (map (visible_scan (files c) (decs c)) (all_segs c))"
  obtain n ts where n: "max_id_ts ?vs (?k, 0) = (n, ts)" by force
  let ?c = "c\<lparr>idSeq := n, clockFloor := max ts (clockFloor c), ticks := Suc (ticks c), createdAt := wall c (ticks c)\<rparr>"
  have c': "c' = snd (writeMeta ?c)" using r by (simp add: restore_counter_def m Let_def n wall_now_def)
  have "laid c0 srs rs ?c" using l by (simp only: laid_frame)
  note w = writeMeta_laid [OF this]
  have e: "n = fold max (map rec_id (all_recs srs rs)) ?k"
    using max_ids_bound [OF sh(1), of "decs c" "(?k, 0)"] v c(2) n unfolding sh(2) all by simp
  have "?k < 2 ^ 64" using fold_max_less [of 0 "2 ^ 64"] i c(3) by simp
  then have "n < 2 ^ 64" unfolding e by (rule fold_max_less [OF _ u])
  moreover have "rec_id q \<le> n" if "q \<in> set (all_recs srs rs)" for q
    unfolding e by (rule fold_max_ge(2)) (use that in \<open>simp only: set_map image_eqI\<close>)
  moreover have "idSeq c' = n" using w(3) by (simp add: c')
  ultimately have "ids_ok c' (all_recs srs rs)" by (simp only: ids_ok_def is_u64_def) blast
  then show ?thesis using w(1,2) by (simp add: c')
qed

lemma restore_counter_meta:
  assumes l: "laid c0 srs rs c" and v: "all_visible (decs c0) (all_recs srs rs)"
    and k: "counter_covers (cmIDCounter m) (map snd (seg_recs c srs rs))" and m: "loadMeta (files c) (metaPath (cdir c)) = Inr m"
    and ck: "checkEncryptionMeta c = (MetaOK m, c)" and r: "restore_counter c = (None, c')"
  shows "laid c0 srs rs c' \<and> sidxMap c' = sidxMap c \<and> ids_ok c' (all_recs srs rs)"
proof -
  have c: "segs_ok c srs rs" "decs c = decs c0" using l by (simp_all add: laid_def)
  note sh = seg_recs_hold [OF c(1)]
  have all: "concat (map snd (seg_recs c srs rs)) = all_recs srs rs" by simp
  let ?c = "applyPersistedDefaultTTL (cmDefaultTTLSeconds m) (c\<lparr>idSeq := cmIDCounter m, createdAt := cmCreatedAt m\<rparr>)"
  have "files ?c = files c" "decs ?c = decs c" "all_segs ?c = all_segs c"
    by (simp_all add: all_segs_def applyPersistedDefaultTTL_def)
  then have t: "tailMaxIDAndTs ?c = tailMaxIDAndTs c" by (simp add: tailMaxIDAndTs_def)
  obtain a ts where a: "tailMaxIDAndTs c = (a, ts)" by force
  have n: "idSeq ?c = cmIDCounter m" by (simp add: applyPersistedDefaultTTL_def)
  have c': "c' = ?c\<lparr>idSeq := max a (cmIDCounter m), clockFloor := max ts (clockFloor ?c)\<rparr>"
    using r by (simp add: restore_counter_def ck Let_def t a n)
  have "laid c0 srs rs ?c" using l by (simp add: applyPersistedDefaultTTL_def laid_frame)
  then have l': "laid c0 srs rs c'" unfolding c' by (simp only: laid_frame)
  have a': "a = fst (tail_max (files c) (decs c) (rev (map fst (seg_recs c srs rs))))"
    using a unfolding sh(2) by (simp add: tailMaxIDAndTs_def)
  have vis: "all_visible (decs c) (concat (map snd (seg_recs c srs rs)))" using v c(2) by (simp only: all)
  have b: "rec_id q \<le> max (cmIDCounter m) a" if "q \<in> set (all_recs srs rs)" for q
    unfolding a' by (rule tail_max_bound [OF sh(1) vis k]) (use that in \<open>simp only: all\<close>)
  have "a < 2 ^ 64" unfolding a' by (rule tail_max_u64 [OF sh(1) vis])
  then have "is_u64 (max a (cmIDCounter m))" using loadMeta_counter [OF m] by (simp add: is_u64_def)
  moreover have "idSeq c' = max a (cmIDCounter m)" by (simp add: c')
  ultimately have "ids_ok c' (all_recs srs rs)" using b by (simp only: ids_ok_def max.commute) blast
  moreover have "sidxMap c' = sidxMap c" by (simp add: c' applyPersistedDefaultTTL_def)
  ultimately show ?thesis using l' by blast
qed

lemma restore_counter_exact:
  assumes l: "laid c0 srs rs c" and v: "all_visible (decs c0) (all_recs srs rs)"
    and k: "\<And>m. loadMeta (files c) (metaPath (cdir c)) = Inr m \<Longrightarrow> counter_covers (cmIDCounter m) (map snd (seg_recs c srs rs))"
    and i: "\<forall>i\<in>set (om_keys (ientries (index c0))). i < 2 ^ 64" and r: "restore_counter c = (None, c')"
  shows "laid c0 srs rs c' \<and> sidxMap c' = sidxMap c \<and> ids_ok c' (all_recs srs rs)"
proof -
  obtain mc c1 where ck: "checkEncryptionMeta c = (mc, c1)" by (rule prod.exhaust)
  show ?thesis
    using checkEncryptionMeta_cases [OF ck]
  proof (elim disjE exE conjE)
    fix m
    assume m: "mc = MetaOK m" "c1 = c" "loadMeta (files c) (metaPath (cdir c)) = Inr m"
    show ?thesis by (rule restore_counter_meta [OF l v k [OF m(3)] m(3) _ r]) (use ck m in simp)
  next
    assume "mc = MetaRegenerate" "c1 = c"
    then show ?thesis by (intro restore_counter_regenerate [OF l v i r]) (use ck in simp)
  next
    fix ev
    assume "mc = MetaRefused ev"
    then show ?thesis using r ck by (simp add: restore_counter_def)
  qed
qed

section \<open>Loading\<close>

abbreviation sidx_glob :: "string \<Rightarrow> string \<Rightarrow> bool" where
  "sidx_glob dir \<equiv> glob_match dir ''sidx_'' ''.json''"

text \<open>
  A directory an open can recover: segment files with the records \<open>rss\<close>, no compaction under way, honest
  index files, and a counter that is not behind the sealed segments.
\<close>

definition recoverable :: "collection \<Rightarrow> nat list \<Rightarrow> segrec list list \<Rightarrow> string \<Rightarrow> bool" where
  "recoverable c ns rss t \<longleftrightarrow> disk_holds c ns rss t \<and> map_of (files c) (compactManifestPath (cdir c)) = None
     \<and> sealedSegs c = [] \<and> sidxMap c = [] \<and> honest_index c \<and> (\<forall>p. sidx_glob (cdir c) p \<longrightarrow> honest_sidx c p)
     \<and> list_all rec_op_ok (concat rss) \<and> all_visible (decs c) (concat rss)
     \<and> (\<forall>m. loadMeta (files c) (metaPath (cdir c)) = Inr m \<longrightarrow> counter_covers (cmIDCounter m) rss)"

text \<open>Cutting the torn tail of the active segment keeps a snapshot honest.\<close>

lemma prefixChecksum_prefix: "prefixChecksum b n = Some h \<Longrightarrow> prefixChecksum (b @ t) n = Some h \<and> take n (b @ t) = take n b"
  by (auto simp: prefixChecksum_def split: if_splits)

lemma snapshot_of_cut:
  assumes s: "snapshot_of d path cov ys" and cut: "\<And>n b. map_of d' (path n) = Some b \<Longrightarrow> \<exists>t. map_of d (path n) = Some (b @ t)"
  shows "snapshot_of d' path cov ys"
proof -
  have "take (CovSize cv) b = file_of rec_line rs"
    if a: "cv \<in> set cov" "(n, rs) \<in> set ys" "CovSegment cv = seg_name n" "map_of d' (path n) = Some b"
      "prefixChecksum b (CovSize cv) = Some (CovChecksum cv)" for cv n rs b
  proof -
    obtain t where t: "map_of d (path n) = Some (b @ t)" using cut [OF a(4)] by blast
    have "take (CovSize cv) (b @ t) = file_of rec_line rs"
      using snapshot_ofD(5) [OF s a(2,1,3) t] prefixChecksum_prefix [OF a(5), of t] by simp
    then show ?thesis using prefixChecksum_prefix [OF a(5), of t] by simp
  qed
  then show ?thesis using s unfolding snapshot_of_def by fast
qed

lemma opened_cut:
  assumes "disk_holds c ns rss t" "map_of (files (opened c ns rss k)) (segmentPath c n) = Some b"
  shows "\<exists>t. map_of (files c) (segmentPath c n) = Some (b @ t)"
proof -
  obtain ns' m rss' rs where n: "ns = ns' @ [m]" "rss = rss' @ [rs]" "map_of (files c) (segmentPath c m) = Some (file_of rec_line rs @ t)"
    by (rule disk_holds_snoc [OF assms(1)])
  have "om_ok (files c)" using assms(1) by (simp add: disk_holds_def)
  then show ?thesis using assms(2) n by (cases "n = m") (auto simp: opened_def omap_simps)
qed

lemma opened_honest:
  assumes d: "disk_holds c ns rss t"
  shows "honest_index c \<Longrightarrow> honest_index (opened c ns rss k)"
    "\<not> seg_glob (cdir c) p \<Longrightarrow> honest_sidx c p \<Longrightarrow> honest_sidx (opened c ns rss k) p"
proof -
  have cut: "snapshot_of (files (opened c ns rss k)) (segmentPath c) cov ys" if a: "snapshot_of (files c) (segmentPath c) cov ys" for cov ys
    by (rule snapshot_of_cut [OF a opened_cut [OF d]])
  note other = opened_layout(3) [OF d, of _ k]
  have ip: "indexPath (opened c ns rss k) = indexPath c" by (simp add: indexPath_def)
  show "honest_index (opened c ns rss k)" if "honest_index c"
    using that cut other [of "indexPath c"] by (simp add: honest_index_def ip) blast
  show "honest_sidx (opened c ns rss k) p" if "\<not> seg_glob (cdir c) p" "honest_sidx c p"
    using that cut other [of p] by (simp add: honest_sidx_def) blast
qed

lemma honest_index_cong:
  assumes "honest_index c" "same_segments (cdir c) (files c) (files c')" "map_of (files c') (indexPath c) = map_of (files c) (indexPath c)"
    "cdir c' = cdir c" "decs c' = decs c" "index c' = index c"
  shows "honest_index c'"
proof -
  have "segmentPath c' = segmentPath c" "indexPath c' = indexPath c" using assms(4) by (simp_all add: segmentPath_def indexPath_def fun_eq_iff)
  then show ?thesis using assms(1) snapshot_of_cong [OF assms(2)] by (simp add: honest_index_def assms(3,5,6))
qed

lemma index_not_temp: "\<not> temp_glob (cdir c) (indexPath c)" "\<not> temp_glob dir (metaPath dir)"
  "\<not> temp_glob dir (compactManifestPath dir)"
  by (simp_all add: glob_match_def indexPath_def metaPath_def compactManifestPath_def)

lemma sidx_not_temp: "sidx_glob dir p \<Longrightarrow> \<not> temp_glob dir p"
  by (cases "drop (length dir + 1) p") (auto simp: glob_match_def Let_def)

lemma sidx_not_other: "\<not> sidx_glob (cdir c) (indexPath c)" "\<not> sidx_glob dir (metaPath dir)"
  by (simp_all add: glob_match_def indexPath_def metaPath_def)

text \<open>The first steps: leftovers of a compaction are removed and the segments opened.\<close>

lemma recoverable_open:
  assumes R: "recoverable c ns rss t" and rc: "recoverCompaction c = ((sw, None), c1)" and o: "open_segments c1 = (None, c2)"
  obtains d k where "c2\<lparr>segSeq := max_seg (all_segs c2)\<rparr> = opened (c\<lparr>files := d\<rparr>) ns rss k" "recoverable (c\<lparr>files := d\<rparr>) ns rss t" "\<not> sw"
    "\<And>q. \<not> temp_glob (cdir c) q \<Longrightarrow> map_of d q = map_of (files c) q"
proof -
  have om: "om_ok (files c)" using R by (simp add: recoverable_def disk_holds_def)
  obtain k d where c1: "c1 = c\<lparr>calls := k, files := d\<rparr>" "\<not> sw" "om_ok d" "\<And>q. \<not> temp_glob (cdir c) q \<Longrightarrow> map_of d q = map_of (files c) q"
    using R by (auto simp: recoverable_def intro: discard_frame [OF om _ rc])
  have same: "same_segments (cdir c) (files c) d" using c1(4) temp_not_seg by blast
  let ?c = "c\<lparr>files := d\<rparr>"
  have dh: "disk_holds c1 ns rss t" "disk_holds ?c ns rss t"
    using R c1(3) same by (auto simp: recoverable_def c1(1) intro!: disk_holds_files [of c ns rss t])
  have "map_of d (compactManifestPath (cdir c)) = None"
    using R c1(4) [OF index_not_temp(3)] by (simp add: recoverable_def)
  moreover have "honest_index ?c"
    using R honest_index_cong [of c ?c] same c1(4) [OF index_not_temp(1)] by (simp add: recoverable_def)
  moreover have "honest_sidx ?c p" if "sidx_glob (cdir c) p" for p
    using R that honest_sidx_cong [of c p ?c] same c1(4) [OF sidx_not_temp [OF that]] by (simp add: recoverable_def)
  moreover have "loadMeta d (metaPath (cdir c)) = loadMeta (files c) (metaPath (cdir c))"
    using c1(4) [OF index_not_temp(2)] by (simp add: loadMeta_def)
  ultimately have R': "recoverable ?c ns rss t" using R dh(2) by (simp add: recoverable_def)
  obtain k' where "c2\<lparr>segSeq := max_seg (all_segs c2)\<rparr> = opened c1 ns rss k'"
    using open_segments_opened [OF dh(1) _ o] R by (auto simp: c1(1) recoverable_def)
  moreover have "opened c1 ns rss k' = opened ?c ns rss k'"
  proof -
    have "segmentPath c1 = segmentPath ?c" by (simp add: c1(1) segmentPath_def fun_eq_iff)
    then show ?thesis by (simp add: opened_def opened_segs_def c1(1))
  qed
  ultimately show thesis by (intro that [of d k'] R' c1(2,4)) simp_all
qed

lemma seedSealedCoverage_frame: "\<exists>sc. seedSealedCoverage memo c = c\<lparr>sealedCov := sc\<rparr>"
proof -
  have gen: "\<exists>sc. fold (\<lambda>s c. case map_of memo (segpath s, segsize s) of
     None \<Rightarrow> c
   | Some h \<Rightarrow> c\<lparr>sealedCov := om_ins (segpath s) (f s h c) (sealedCov c)\<rparr>) ss c = c\<lparr>sealedCov := sc\<rparr>" for f ss c
  proof (induction ss arbitrary: c)
    case Nil
    show ?case by (rule exI [of _ "sealedCov c"]) simp
  next
    case (Cons s ss)
    show ?case
    proof (cases "map_of memo (segpath s, segsize s)")
      case None
      then show ?thesis using Cons.IH [of c] by simp
    next
      case (Some h)
      obtain sc where "fold (\<lambda>s c. case map_of memo (segpath s, segsize s) of
         None \<Rightarrow> c | Some h \<Rightarrow> c\<lparr>sealedCov := om_ins (segpath s) (f s h c) (sealedCov c)\<rparr>) ss
         (c\<lparr>sealedCov := om_ins (segpath s) (f s h c) (sealedCov c)\<rparr>)
         = c\<lparr>sealedCov := om_ins (segpath s) (f s h c) (sealedCov c), sealedCov := sc\<rparr>" using Cons.IH by blast
      then show ?thesis using Some by auto
    qed
  qed
  show ?thesis unfolding seedSealedCoverage_def Let_def by (rule gen)
qed

text \<open>What follows once the segments are open.\<close>

abbreviation index_persisted :: "collection \<Rightarrow> collection" where
  "index_persisted c \<equiv> (case Snapshot (files c) (decs c) (cepoch c) (all_segs c) (index c) of
     Inl _ \<Rightarrow> c
   | Inr snap \<Rightarrow> snd (writeFileAtomic (indexPath c) (Persist (indexPath c) snap) c))"

definition load_rest :: "(nat \<Rightarrow> nat) \<Rightarrow> bool \<Rightarrow> IntegrityPolicy \<Rightarrow> collection \<Rightarrow> (load_err + gate) \<times> collection" where
  "load_rest rnd sw policy c = (case recoverIndex rnd sw \<lparr>oGate = new_gate policy, oMemo = []\<rparr> c of
     (Inl err, op, c) \<Rightarrow> (Inl err, c)
   | (Inr (changed, rebuilt), op, c) \<Rightarrow>
       (let c = (if changed \<and> rebuilt then index_persisted c else c);
            ps = List.filter (sidx_glob (cdir c)) (om_keys (files c))
        in case load_secondaries ps sw op c of
          (Some err, op, c) \<Rightarrow> (Inl err, c)
        | (None, op, c) \<Rightarrow>
            (case restore_counter (seedSealedCoverage (oMemo op) c) of
               (Some err, c) \<Rightarrow> (Inl err, c)
             | (None, c) \<Rightarrow> (Inr (oGate op), c))))"

lemma load_eq:
  "load rnd standalone policy c = (case recoverCompaction c of
     ((_, Some err), c) \<Rightarrow> (Inl (LoadCompaction err), c)
   | ((sw, None), c) \<Rightarrow> (case open_segments c of
       (Some err, c) \<Rightarrow> (Inl err, c)
     | (None, c) \<Rightarrow>
         if standalone \<and> list_ex (has_stamped (files c)) (all_segs c) then (Inl ErrXTxRecoveryRequired, c)
         else load_rest rnd sw policy (c\<lparr>segSeq := max_seg (all_segs c)\<rparr>)))"
  unfolding load_def load_rest_def Let_def ..

lemma index_persist_laid:
  assumes "laid c srs rs c"
  shows "laid c srs rs (index_persisted c)" "sidxMap (index_persisted c) = sidxMap c"
    "q \<noteq> indexPath c \<Longrightarrow> map_of (files (index_persisted c)) q = map_of (files c) q"
  using laid_write [OF assms _ surjective_pairing, of "indexPath c"] assms by (auto split: sum.splits)

text \<open>The records of the opened segments, sealed and active.\<close>

abbreviation sealed_recs :: "collection \<Rightarrow> nat list \<Rightarrow> segrec list list \<Rightarrow> (segment \<times> segrec list) list" where
  "sealed_recs c ns rss \<equiv> opened_segs c (butlast ns) (butlast rss)"

lemma sealed_recs_all:
  assumes "disk_holds c ns rss t"
  shows "map snd (sealed_recs c ns rss) @ [last rss] = rss" "all_recs (sealed_recs c ns rss) (last rss) = concat rss"
proof -
  obtain ns' n rss' rs where "ns = ns' @ [n]" "rss = rss' @ [rs]" "length ns' = length rss'" by (rule disk_holds_snoc [OF assms])
  then show recs: "map snd (sealed_recs c ns rss) @ [last rss] = rss" by (simp add: opened_segs_def case_prod_unfold comp_def)
  show "all_recs (sealed_recs c ns rss) (last rss) = concat rss"
    using arg_cong [OF recs, of concat] by (simp only: concat_append concat.simps append_Nil2)
qed

lemma index_phase:
  assumes R: "recoverable c0 ns rss t"
    and ri: "recoverIndex rnd False \<lparr>oGate = new_gate policy, oMemo = []\<rparr> (opened c0 ns rss k) = (Inr x, st1, c1)"
  shows "laid c1 (sealed_recs c0 ns rss) (last rss) c1" "index_ok c1 (sealed_recs c0 ns rss) (last rss)"
    "memo_ok (cdir c1) (files c1) (oMemo st1)" "\<forall>i\<in>set (om_keys (ientries (index c1))). i < 2 ^ 64" "decs c1 = decs c0"
    "cdir c1 = cdir c0" "sidxMap c1 = []" "files c1 = files (opened c0 ns rss k)"
proof -
  let ?c = "opened c0 ns rss k" and ?srs = "sealed_recs c0 ns rss" and ?rs = "last rss"
  have d: "disk_holds c0 ns rss t" using R by (simp add: recoverable_def)
  note all = sealed_recs_all(2) [OF d]
  have op: "list_all rec_op_ok (all_recs ?srs ?rs)" using R unfolding all by (simp add: recoverable_def)
  note lay = opened_layout(1,2) [OF d, of k]
  obtain kt idx where c1: "c1 = ?c\<lparr>ticks := kt, index := idx\<rparr>" "ientries idx = replay_all (decs c0) (seg_recs ?c ?srs ?rs) []"
    "memo_ok (cdir c0) (files ?c) (oMemo st1)"
    using recoverIndex_exact [OF lay op opened_honest(1) [OF d] _ ri] R by (auto simp: recoverable_def memo_ok_def)
  then show "index_ok c1 ?srs ?rs" "memo_ok (cdir c1) (files c1) (oMemo st1)" "decs c1 = decs c0" "cdir c1 = cdir c0"
    "files c1 = files ?c" "sidxMap c1 = []"
    using R by (simp_all add: index_ok_def recoverable_def)
  have "segmentPath c1 = segmentPath c0" "all_segs c1 = all_segs ?c" by (simp_all add: c1(1) segmentPath_def opened_def fun_eq_iff all_segs_def)
  then show "laid c1 ?srs ?rs c1" using lay by (simp add: laid_def c1(1) segs_ok_def paths_ok_def)
  have "set (om_keys (ientries (index c1))) \<subseteq> rec_id ` set (all_recs ?srs ?rs)"
    using replay_all_keys [of "[]" "decs c0" "seg_recs ?c ?srs ?rs"] c1 by simp
  moreover have "is_u64 (rec_id q)" if "q \<in> set (all_recs ?srs ?rs)" for q
    using that d rec_id_u64 unfolding all by (auto simp: disk_holds_def list_all_iff)
  ultimately show "\<forall>i\<in>set (om_keys (ientries (index c1))). i < 2 ^ 64" unfolding is_u64_def by blast
qed

lemma secondary_phase:
  assumes R: "recoverable c0 ns rss t"
    and ri: "recoverIndex rnd False \<lparr>oGate = new_gate policy, oMemo = []\<rparr> (opened c0 ns rss k) = (Inr x, st1, c1)"
    and c2: "c2 = (if b then index_persisted c1 else c1)"
    and ls: "load_secondaries (List.filter (sidx_glob (cdir c2)) (om_keys (files c2))) False st1 c2 = (e, st3, c3)"
  shows "e = None" "laid c1 (sealed_recs c0 ns rss) (last rss) c3" "sidxs_ok c3 (stored_of (decs c0) (concat rss) Map.empty)"
    "oGate st3 = oGate st1"
    "\<And>q. \<not> seg_glob (cdir c0) q \<Longrightarrow> \<not> sidx_glob (cdir c0) q \<Longrightarrow> q \<noteq> indexPath c0 \<Longrightarrow> map_of (files c3) q = map_of (files c0) q"
proof -
  let ?c = "opened c0 ns rss k" and ?srs = "sealed_recs c0 ns rss" and ?rs = "last rss"
  let ?ps = "List.filter (sidx_glob (cdir c2)) (om_keys (files c2))"
  note P = index_phase [OF R ri]
  have d: "disk_holds c0 ns rss t" using R by (simp add: recoverable_def)
  note all = sealed_recs_all(2) [OF d]
  have op: "list_all rec_op_ok (all_recs ?srs ?rs)" using R unfolding all by (simp add: recoverable_def)
  have ip: "indexPath c1 = indexPath c0" using P(6) by (simp add: indexPath_def)
  have l2: "laid c1 ?srs ?rs c2" "sidxMap c2 = []" "\<And>q. q \<noteq> indexPath c0 \<Longrightarrow> map_of (files c2) q = map_of (files ?c) q"
    using index_persist_laid [OF P(1)] P(1,7,8) by (simp_all add: c2 ip)
  have c2f: "cdir c2 = cdir c0" "decs c2 = decs c0" "same_segments (cdir c0) (files ?c) (files c2)"
    using l2(1) P(5,6,8) by (simp_all add: laid_def)
  have hon: "\<forall>p\<in>set ?ps. honest_sidx c2 p \<and> \<not> seg_glob (cdir c1) p"
  proof
    fix p
    assume "p \<in> set ?ps"
    then have p: "sidx_glob (cdir c0) p" by (simp add: c2f)
    then have ns: "\<not> seg_glob (cdir c0) p" "p \<noteq> indexPath c0" using sidx_not_seg sidx_not_other(1) [of c0] by auto
    have "honest_sidx ?c p" using R p by (intro opened_honest(2) [OF d ns(1)]) (simp add: recoverable_def)
    then show "honest_sidx c2 p \<and> \<not> seg_glob (cdir c1) p"
      using honest_sidx_cong [of ?c p c2] c2f ns(1) l2(3) [OF ns(2)] P(6) by simp
  qed
  have "om_ok (files c2)" using l2(1) by (auto simp: laid_def segs_ok_def seg_holds_def)
  then have dist: "distinct ?ps" by (intro distinct_filter om_ok_distinct)
  have V: "stored_of (decs c0) (concat rss) Map.empty = stored_of (decs c1) (all_recs ?srs ?rs) Map.empty"
    unfolding all by (simp add: P(5))
  have "sidxs_ok c2 (stored_of (decs c0) (concat rss) Map.empty)" by (simp add: sidxs_ok_def l2(2))
  note S = load_secondaries_exact [OF l2(1) op hon dist P(3) V this ls]
  show "e = None" "laid c1 ?srs ?rs c3" "sidxs_ok c3 (stored_of (decs c0) (concat rss) Map.empty)" "oGate st3 = oGate st1" using S by simp_all
  show "map_of (files c3) q = map_of (files c0) q" if q: "\<not> seg_glob (cdir c0) q" "\<not> sidx_glob (cdir c0) q" "q \<noteq> indexPath c0" for q
  proof -
    have "map_of (files c3) q = map_of (files c2) q" using S q(2) by (simp add: c2f)
    also have "\<dots> = map_of (files ?c) q" by (rule l2(3) [OF q(3)])
    finally show ?thesis using opened_layout(3) [OF d q(1)] by simp
  qed
qed

lemma meta_other: "\<not> sidx_glob (cdir c) (metaPath (cdir c))" "metaPath (cdir c) \<noteq> indexPath c"
  "\<not> sidx_glob (cdir c) (sentinelPath (cdir c))" "sentinelPath (cdir c) \<noteq> indexPath c" "\<not> seg_glob (cdir c) (sentinelPath (cdir c))"
  by (simp_all add: glob_match_def indexPath_def metaPath_def sentinelPath_def)

lemma load_rest_exact:
  assumes R: "recoverable c0 ns rss t" and r: "load_rest rnd False policy (opened c0 ns rss k) = (Inr g, c')"
  shows "coll_inv c' (stored_of (decs c0) (concat rss) Map.empty)"
proof -
  let ?srs = "sealed_recs c0 ns rss" and ?rs = "last rss" and ?V = "stored_of (decs c0) (concat rss) Map.empty"
  have d: "disk_holds c0 ns rss t" using R by (simp add: recoverable_def)
  note all = sealed_recs_all [OF d]
  obtain x st1 c1 where ri: "recoverIndex rnd False \<lparr>oGate = new_gate policy, oMemo = []\<rparr> (opened c0 ns rss k) = (Inr x, st1, c1)"
    using r by (auto simp: load_rest_def split: sum.splits prod.splits)
  note P = index_phase [OF R ri]
  obtain ch rb where x: "x = (ch, rb)" by force
  define c2 where "c2 = (if ch \<and> rb then index_persisted c1 else c1)"
  let ?ps = "List.filter (sidx_glob (cdir c2)) (om_keys (files c2))"
  obtain e st3 c3 where ls: "load_secondaries ?ps False st1 c2 = (e, st3, c3)" by (cases "load_secondaries ?ps False st1 c2")
  note S = secondary_phase [OF R ri c2_def ls]
  obtain sc where sc: "seedSealedCoverage (oMemo st3) c3 = c3\<lparr>sealedCov := sc\<rparr>" using seedSealedCoverage_frame by blast
  have rc: "restore_counter (c3\<lparr>sealedCov := sc\<rparr>) = (None, c')"
    using r ri ls S(1) sc unfolding load_rest_def x c2_def by (simp add: Let_def split: prod.splits option.splits)
  have l3: "laid c1 ?srs ?rs (c3\<lparr>sealedCov := sc\<rparr>)" unfolding laid_frame by (rule S(2))
  have vis: "all_visible (decs c1) (all_recs ?srs ?rs)" using R unfolding all P(5) by (simp add: recoverable_def)
  have "cdir c3 = cdir c0" using S(2) P(6) by (simp add: laid_def)
  then have "loadMeta (files c3) (metaPath (cdir c3)) = loadMeta (files c0) (metaPath (cdir c0))"
    using S(5) [OF glob_meta meta_other(1,2)] by (simp add: loadMeta_def)
  then have k: "counter_covers (cmIDCounter m) (map snd (seg_recs (c3\<lparr>sealedCov := sc\<rparr>) ?srs ?rs))"
    if "loadMeta (files (c3\<lparr>sealedCov := sc\<rparr>)) (metaPath (cdir (c3\<lparr>sealedCov := sc\<rparr>))) = Inr m" for m
    using R that all(1) by (simp add: recoverable_def)
  have F: "laid c1 ?srs ?rs c'" "sidxMap c' = sidxMap c3" "ids_ok c' (all_recs ?srs ?rs)"
    using restore_counter_exact [OF l3 vis k P(4) rc] by simp_all
  have "index_ok c' ?srs ?rs" using F(1) P(2) by (simp add: laid_def index_ok_def)
  moreover have "sidxs_ok c' ?V" using S(3) F(2) by (simp add: sidxs_ok_def)
  moreover have dc: "decs c' = decs c0" using F(1) P(5) by (simp add: laid_def)
  ultimately have "coll_holds c' ?srs ?rs" using F(1,3) unfolding coll_holds_def all by (simp add: laid_def)
  then show ?thesis unfolding coll_inv_def by (intro exI [of _ ?srs] exI [of _ ?rs] conjI) (simp_all only: all dc)
qed

lemma load_exact:
  assumes R: "recoverable c ns rss t" and l: "load rnd standalone policy c = (Inr g, c')"
  shows "coll_inv c' (stored_of (decs c) (concat rss) Map.empty)"
proof -
  obtain sw err c1 where rc: "recoverCompaction c = ((sw, err), c1)" by (cases "recoverCompaction c") auto
  have e: "err = None" using l rc by (cases err) (simp_all add: load_eq)
  obtain err2 c2 where o: "open_segments c1 = (err2, c2)" by force
  have e2: "err2 = None" using l rc e o by (cases err2) (simp_all add: load_eq)
  obtain d k where c2: "c2\<lparr>segSeq := max_seg (all_segs c2)\<rparr> = opened (c\<lparr>files := d\<rparr>) ns rss k" "recoverable (c\<lparr>files := d\<rparr>) ns rss t" "\<not> sw"
    by (rule recoverable_open [OF R rc [unfolded e] o [unfolded e2]])
  have "load_rest rnd False policy (opened (c\<lparr>files := d\<rparr>) ns rss k) = (Inr g, c')"
    using l rc e o e2 c2(3) unfolding load_eq c2(1) [symmetric] by (simp split: if_splits)
  from load_rest_exact [OF c2(2) this] show ?thesis by simp
qed

section \<open>Opening succeeds\<close>

lemma remove_files_total: "\<forall>k. sr_ok (sys c k) \<Longrightarrow> fst (remove_files ps c) = None"
proof (induction ps arbitrary: c)
  case (Cons p ps)
  obtain e c1 where r: "remove_file p c = (e, c1)" by force
  have "e = None" "sys c1 = sys c"
    using r Cons.prems by (auto simp: remove_file_def sys_next_def split: if_splits)
  then show ?case using Cons r by simp
qed simp

lemma stat_sealed_total: "\<forall>k. sr_ok (sys c k) \<Longrightarrow> \<exists>ss. fst (stat_sealed ps c) = Inr ss"
proof (induction ps arbitrary: c)
  case (Cons p ps)
  let ?c = "c\<lparr>calls := Suc (calls c)\<rparr>"
  obtain ss c1 where "stat_sealed ps ?c = (Inr ss, c1)" using Cons.IH [of ?c] Cons.prems by (cases "stat_sealed ps ?c") auto
  then show ?case using Cons.prems by (simp add: sys_next_def)
qed simp

lemma recover_records_total:
  assumes "list_all rec_ok rs" "NL \<notin> set t"
  shows "\<exists>x. recoverPartialLine True (file_of rec_line rs @ t) = Inr x"
proof -
  have "\<forall>l\<in>set (map rec_line rs). NL \<notin> set l" using assms(1) rec_line_props(2) by (auto simp: list_all_iff)
  then have "split_nl (file_of rec_line rs @ t) = (map rec_line rs, t)"
    using split_join_nl [of "map rec_line rs" t] assms(2) by (simp add: file_of_def line_simps)
  then show ?thesis by (simp add: recoverPartialLine_spec)
qed

lemma open_segments_total:
  assumes d: "disk_holds c ns rss t" and ok: "\<forall>k. sr_ok (sys c k)"
  shows "\<exists>c1. open_segments c = (None, c1)"
proof -
  obtain ns' n rss' rs where n: "ns = ns' @ [n]" "rss = rss' @ [rs]" "map_of (files c) (segmentPath c n) = Some (file_of rec_line rs @ t)"
    by (rule disk_holds_snoc [OF d])
  have paths: "segment_paths c = map (segmentPath c) ns' @ [segmentPath c n]" using segment_paths_disk [OF d] n(1) by simp
  obtain ss c0 where st: "stat_sealed (map (segmentPath c) ns') c = (Inr ss, c0)"
    using stat_sealed_total [OF ok, of "map (segmentPath c) ns'"] by (cases "stat_sealed (map (segmentPath c) ns') c") auto
  obtain k where c0: "c0 = c\<lparr>calls := k\<rparr>" using stat_sealed_frame [OF st] by blast
  obtain x where "recoverPartialLine True (file_of rec_line rs @ t) = Inr x"
    using recover_records_total [of rs t] d n(2) by (auto simp: disk_holds_def)
  then show ?thesis using st c0 ok n(3)
    by (cases x) (simp add: open_segments_def paths open_active_def sys_next_def openActiveSegmentWith_def content_def)
qed

text \<open>Under the policy that only reports, the gate lets every rebuild pass.\<close>

definition reporting :: "gate \<Rightarrow> bool" where
  "reporting g \<longleftrightarrow> gPolicy g = PolicyReport \<and> \<not> gFailed g"

lemma reporting_gate: "reporting g \<Longrightarrow> \<exists>tol g' c'. integrityGate g c = (Inr tol, g', c') \<and> reporting g'"
  by (auto simp: reporting_def integrityGate_def wall_now_def Let_def)

lemma rebuild_index_total:
  assumes s: "segs_ok c srs rs" and p: "paths_ok c" and op: "list_all rec_op_ok (all_recs srs rs)" and g: "reporting (oGate st)"
  shows "\<exists>x st' c'. rebuild_index st c = (Inr x, st', c') \<and> reporting (oGate st')"
proof -
  obtain tol g' c1 where gt: "integrityGate (oGate st) c = (Inr tol, g', c1)" "reporting g'" using reporting_gate [OF g] by blast
  obtain k where k: "c1 = c\<lparr>ticks := k\<rparr>" using integrityGate_frame [OF gt(1)] by blast
  have s1: "segs_ok c1 srs rs" "paths_ok c1" using s p by (simp_all add: k segs_ok_def paths_ok_def coll_simps)
  show ?thesis using rebuildTolerant_exact [OF s1 op] Rebuild_exact [OF s1] gt by (cases tol) (auto simp: rebuild_index_def)
qed

lemma recoverIndex_total:
  assumes s: "segs_ok c srs rs" and p: "paths_ok c" and op: "list_all rec_op_ok (all_recs srs rs)" and g: "reporting (oGate st)"
  shows "\<exists>x st' c'. recoverIndex rnd force st c = (Inr x, st', c') \<and> reporting (oGate st')"
proof -
  have re: "\<exists>x st' c'. rebuild_index st1 (c\<lparr>index := idx\<rparr>) = (Inr x, st', c') \<and> reporting (oGate st')"
    if "reporting (oGate st1)" for st1 idx
    using s p by (intro rebuild_index_total [OF _ _ op that]) (simp_all add: segs_ok_def paths_ok_def coll_simps)
  have self: "c\<lparr>index := index c\<rparr> = c" by simp
  note re0 = re [OF g, of "index c", unfolded self]
  have fin: "\<exists>x st' c'. (if b then rebuild_index (st\<lparr>oMemo := memo\<rparr>) (c\<lparr>index := i\<rparr>) else (Inr y, st\<lparr>oMemo := memo\<rparr>, c\<lparr>index := i\<rparr>))
      = (Inr x, st', c') \<and> reporting (oGate st')" for b memo i y
    using re [of "st\<lparr>oMemo := memo\<rparr>" i] g by (cases b) simp_all
  have re1: "\<exists>x st' c'. rebuild_index (st\<lparr>oMemo := memo\<rparr>) (c\<lparr>index := i\<rparr>) = (Inr x, st', c') \<and> reporting (oGate st')" for memo i
    using re [of "st\<lparr>oMemo := memo\<rparr>" i] g by simp
  show ?thesis
  proof (cases "force \<or> (\<exists>e. LoadIndex (indexPath c) (map_of (files c) (indexPath c)) (index c) = Inl e)")
    case True
    then show ?thesis using re0 by (auto simp: recoverIndex_def)
  next
    case False
    then obtain idx where idx: "LoadIndex (indexPath c) (map_of (files c) (indexPath c)) (index c) = Inr idx" "\<not> force"
      by (cases "LoadIndex (indexPath c) (map_of (files c) (indexPath c)) (index c)") auto
    obtain pl memo where pl: "planReplayFor (files c) (all_segs c) (coverageKnown idx) (coverage idx) (length (ientries idx)) (decs c) (cepoch c)
        (oMemo st) = (pl, memo)" by (rule prod.exhaust)
    show ?thesis
    proof (cases "Option.bind pl (\<lambda>plan. apply_plan (files c) (decs c) plan (ientries idx))")
      case None
      then have "recoverIndex rnd force st c = rebuild_index (st\<lparr>oMemo := memo\<rparr>) (c\<lparr>index := idx\<rparr>)"
        using idx pl by (cases pl) (simp_all add: recoverIndex_def coll_simps Let_def)
      then show ?thesis using re1 by simp
    next
      case (Some m)
      then obtain plan where "pl = Some plan" "apply_plan (files c) (decs c) plan (ientries idx) = Some m" by (cases pl) auto
      then show ?thesis using idx pl fin by (simp add: recoverIndex_def coll_simps Let_def)
    qed
  qed
qed

text \<open>No sign of encryption: the records are of epoch 0, there is no sentinel, and the meta file can be read or nothing looks encrypted.\<close>

definition no_encryption :: "collection \<Rightarrow> segrec list list \<Rightarrow> bool" where
  "no_encryption c rss \<longleftrightarrow> \<not> sentinelExists (files c) (cdir c) \<and> list_all (\<lambda>r. Epoch (fst (rec_view r)) = 0) (concat rss)
     \<and> ((\<exists>m. loadMeta (files c) (metaPath (cdir c)) = Inr m) \<or> list_all (\<lambda>rs. \<not> contains_sub encryptionMarkerOnDisk (file_of rec_line rs)) rss)"

lemma replay_epoch:
  assumes "om_ok m" "\<forall>i e. map_of m i = Some e \<longrightarrow> IEpoch e = 0" "list_all (\<lambda>r. Epoch (fst (rec_view r)) = 0) rs"
  shows "\<forall>i e. map_of (replay_recs dec p off rs m) i = Some e \<longrightarrow> IEpoch e = 0"
  using assms
proof (induction rs arbitrary: off m)
  case (Cons r rs)
  let ?m = "apply_scanned dec p (off, rec_view r) m"
  have "\<forall>i e. map_of ?m i = Some e \<longrightarrow> IEpoch e = 0"
    using Cons.prems by (auto simp: apply_scanned_def applyOne_def Let_def omap_simps split: prod.splits if_splits)
  then show ?case using Cons.IH [of ?m "off + length (rec_line r) + 1"] Cons.prems(1,3) by simp
qed simp

lemma replay_all_epoch:
  assumes "om_ok m" "\<forall>i e. map_of m i = Some e \<longrightarrow> IEpoch e = 0" "list_all (\<lambda>r. Epoch (fst (rec_view r)) = 0) (concat (map snd xs))"
  shows "\<forall>i e. map_of (replay_all dec xs m) i = Some e \<longrightarrow> IEpoch e = 0"
  using assms
proof (induction xs arbitrary: m)
  case (Cons x xs)
  obtain s r where x: "x = (s, r)" by force
  have "\<forall>i e. map_of (replay_recs dec (segpath s) 0 r m) i = Some e \<longrightarrow> IEpoch e = 0"
    using Cons.prems by (intro replay_epoch) (simp_all add: x)
  then show ?case using Cons.IH [of "replay_recs dec (segpath s) 0 r m"] Cons.prems(1,3) by (simp add: x)
qed simp

lemma maxEpoch_zero:
  assumes "om_ok (ientries idx)" "\<forall>i e. map_of (ientries idx) i = Some e \<longrightarrow> IEpoch e = 0"
  shows "maxEpoch idx = 0"
proof -
  have "\<forall>x\<in>set (ientries idx). IEpoch (snd x) = 0"
    using assms om_ok_distinct [OF assms(1)] by (metis map_of_is_SomeI prod.collapse)
  moreover have "fold (\<lambda>(_, e) m. max (IEpoch e) m) m 0 = 0" if "\<forall>x\<in>set m. IEpoch (snd x) = 0" for m
    using that by (induction m) (auto simp: case_prod_unfold)
  ultimately show ?thesis by (simp add: maxEpoch_def)
qed

lemma restore_counter_total:
  assumes s: "segs_ok c srs rs" and e: "maxEpoch (index c) = 0" and n: "no_encryption c (map snd (seg_recs c srs rs))"
  shows "\<exists>c'. restore_counter c = (None, c')"
proof -
  have "\<not> segmentsHoldEnvelope (files c) (all_segs c)" if "loadMeta (files c) (metaPath (cdir c)) = Inl x" for x
  proof -
    have "\<not> fileContains (files c) (segpath (fst y)) encryptionMarkerOnDisk" if "y \<in> set (seg_recs c srs rs)" for y
    proof -
      have "map_of (files c) (segpath (fst y)) = Some (file_of rec_line (snd y))"
        using seg_recs_hold(1) [OF s] that by (auto simp: segs_hold_def case_prod_unfold)
      moreover have "snd y \<in> set (map snd (seg_recs c srs rs))" using that by force
      ultimately show ?thesis
        using n \<open>loadMeta (files c) (metaPath (cdir c)) = Inl x\<close> by (auto simp: no_encryption_def fileContains_def list_all_iff)
    qed
    then show ?thesis unfolding seg_recs_hold(2) [OF s, symmetric] segmentsHoldEnvelope_def by (simp only: list_ex_iff set_map) blast
  qed
  then have "(\<exists>m. checkEncryptionMeta c = (MetaOK m, c)) \<or> checkEncryptionMeta c = (MetaRegenerate, c)"
    using n e by (cases "loadMeta (files c) (metaPath (cdir c))") (auto simp: checkEncryptionMeta_def no_encryption_def Let_def split: option.splits)
  then show ?thesis by (auto simp: restore_counter_def Let_def case_prod_unfold)
qed

lemma load_rest_total:
  assumes R: "recoverable c0 ns rss t" and n: "no_encryption c0 rss"
  shows "\<exists>g c'. load_rest rnd False PolicyReport (opened c0 ns rss k) = (Inr g, c')"
proof -
  let ?srs = "sealed_recs c0 ns rss" and ?rs = "last rss" and ?st = "\<lparr>oGate = new_gate PolicyReport, oMemo = []\<rparr>"
  have d: "disk_holds c0 ns rss t" using R by (simp add: recoverable_def)
  note all = sealed_recs_all [OF d]
  have op: "list_all rec_op_ok (all_recs ?srs ?rs)" using R unfolding all by (simp add: recoverable_def)
  have rp: "reporting (oGate ?st)" by (simp add: reporting_def new_gate_def)
  obtain x st1 c1 where ri: "recoverIndex rnd False ?st (opened c0 ns rss k) = (Inr x, st1, c1)"
    using recoverIndex_total [OF opened_layout(1,2) [OF d, of k] op rp, of rnd False] by blast
  note P = index_phase [OF R ri]
  obtain ch rb where x: "x = (ch, rb)" by force
  define c2 where "c2 = (if ch \<and> rb then index_persisted c1 else c1)"
  let ?ps = "List.filter (sidx_glob (cdir c2)) (om_keys (files c2))"
  obtain e st3 c3 where ls: "load_secondaries ?ps False st1 c2 = (e, st3, c3)" by (cases "load_secondaries ?ps False st1 c2")
  note S = secondary_phase [OF R ri c2_def ls]
  obtain sc where sc: "seedSealedCoverage (oMemo st3) c3 = c3\<lparr>sealedCov := sc\<rparr>" using seedSealedCoverage_frame by blast
  let ?c = "c3\<lparr>sealedCov := sc\<rparr>"
  have l3: "laid c1 ?srs ?rs ?c" unfolding laid_frame by (rule S(2))
  have c: "cdir ?c = cdir c0" "segs_ok ?c ?srs ?rs" "index ?c = index c1" using l3 P(6) by (simp_all add: laid_def)
  have "no_encryption ?c rss"
    using n S(5) [OF glob_meta meta_other(1,2)] S(5) [OF meta_other(5,3,4)] c(1) by (simp add: no_encryption_def loadMeta_def sentinelExists_def)
  then have ne: "no_encryption ?c (map snd (seg_recs ?c ?srs ?rs))" using all(1) by simp
  have "\<forall>i e. map_of (ientries (index c1)) i = Some e \<longrightarrow> IEpoch e = 0"
    using replay_all_epoch [of "[]" "seg_recs c1 ?srs ?rs" "decs c1"] P(2) n all(2) by (simp add: index_ok_def no_encryption_def)
  moreover have "om_ok (ientries (index c1))" using P(2) by (simp add: index_ok_def)
  ultimately have "maxEpoch (index ?c) = 0" unfolding c(3) by (intro maxEpoch_zero)
  then obtain c' where "restore_counter ?c = (None, c')" using restore_counter_total [OF c(2) _ ne] by blast
  then have "load_rest rnd False PolicyReport (opened c0 ns rss k) = (Inr (oGate st3), c')"
    using ri ls S(1) sc unfolding load_rest_def x c2_def by (simp add: Let_def)
  then show ?thesis by blast
qed

lemma recoverCompaction_total:
  assumes "recoverable c ns rss t" "\<forall>k. sr_ok (sys c k)"
  shows "\<exists>c1. recoverCompaction c = ((False, None), c1) \<and> disk_holds c1 ns rss t \<and> sys c1 = sys c"
proof -
  let ?ps = "List.filter (temp_glob (cdir c)) (om_keys (files c))"
  have om: "om_ok (files c)" and man: "map_of (files c) (compactManifestPath (cdir c)) = None" and d: "disk_holds c ns rss t"
    using assms(1) by (simp_all add: recoverable_def disk_holds_def)
  obtain c1 where r: "remove_files ?ps c = (None, c1)" using remove_files_total [OF assms(2), of ?ps] by (cases "remove_files ?ps c") simp
  then have rc: "recoverCompaction c = ((False, None), c1)" by (simp add: recoverCompaction_def discardCompactTemps_def man)
  obtain k0 d0 where c1: "c1 = c\<lparr>calls := k0, files := d0\<rparr>" "om_ok d0" "\<And>q. \<not> temp_glob (cdir c) q \<Longrightarrow> map_of d0 q = map_of (files c) q"
    by (rule discard_frame [OF om man rc]) blast
  have "map_of d0 p = map_of (files c) p" if "seg_glob (cdir c) p" for p using c1(3) temp_not_seg that by blast
  then have "disk_holds c1 ns rss t" using c1(1,2) by (intro disk_holds_files [OF d]) simp_all
  then show ?thesis using rc c1(1) by simp
qed

lemma meta_not_temp: "\<not> temp_glob dir (sentinelPath dir)"
  by (simp add: glob_match_def sentinelPath_def)

lemma load_total:
  assumes R: "recoverable c ns rss t" and n: "no_encryption c rss" and ok: "\<forall>k. sr_ok (sys c k)"
  shows "\<exists>g c'. load rnd False PolicyReport c = (Inr g, c')"
proof -
  obtain c1 where rc: "recoverCompaction c = ((False, None), c1)" and d1: "disk_holds c1 ns rss t" "sys c1 = sys c"
    using recoverCompaction_total [OF R ok] by blast
  then obtain c2 where o: "open_segments c1 = (None, c2)" using open_segments_total [OF d1(1)] ok by auto
  obtain d k where c2: "c2\<lparr>segSeq := max_seg (all_segs c2)\<rparr> = opened (c\<lparr>files := d\<rparr>) ns rss k" "recoverable (c\<lparr>files := d\<rparr>) ns rss t"
    "\<And>q. \<not> temp_glob (cdir c) q \<Longrightarrow> map_of d q = map_of (files c) q"
    by (rule recoverable_open [OF R rc o]) blast
  have "no_encryption (c\<lparr>files := d\<rparr>) rss"
    using n c2(3) [OF index_not_temp(2)] c2(3) [OF meta_not_temp] by (simp add: no_encryption_def loadMeta_def sentinelExists_def)
  then obtain g c' where "load_rest rnd False PolicyReport (opened (c\<lparr>files := d\<rparr>) ns rss k) = (Inr g, c')"
    using load_rest_total [OF c2(2)] by blast
  moreover have "load rnd False PolicyReport c = load_rest rnd False PolicyReport (opened (c\<lparr>files := d\<rparr>) ns rss k)"
    using rc o unfolding load_eq c2(1) [symmetric] by simp
  ultimately show ?thesis by auto
qed

section \<open>What an open promises\<close>



section \<open>A sample directory\<close>

text \<open>One segment with a record and the start of a line that never arrived whole; no index and no meta file.\<close>

definition crashed :: collection where
  "crashed = (empty_coll good_sys (\<lambda>_. 0) [])\<lparr>files := [(''d/seg_000001.ndjson'', file_of rec_line [Plain sample_entry] @ ''{'')]\<rparr>"

lemma crashed_path: "segmentPath crashed 1 = ''d/seg_000001.ndjson''"
  by (simp add: segmentPath_def crashed_def empty_coll_def pad_six del: One_nat_def)

lemma crashed_recoverable: "recoverable crashed [1] [[Plain sample_entry]] ''{''"
proof -
  have f: "files crashed = [(segmentPath crashed 1, file_of rec_line [Plain sample_entry] @ ''{'')]" "cdir crashed = ''d''"
    unfolding crashed_path by (simp_all add: crashed_def empty_coll_def)
  have d: "disk_holds crashed [1] [[Plain sample_entry]] ''{''"
    using sample_rec_ok by (simp add: disk_holds_def f om_ok_def)
  have none: "map_of (files crashed) p = None" if "p \<noteq> ''d/seg_000001.ndjson''" for p using that by (simp add: f crashed_path del: One_nat_def)
  have "honest_index crashed" using none [of "indexPath crashed"] by (simp add: honest_index_def LoadIndex_def indexPath_def f(2))
  moreover have "honest_sidx crashed p" if "sidx_glob (cdir crashed) p" for p
  proof -
    have "p \<noteq> ''d/seg_000001.ndjson''" using that by (auto simp: glob_match_def f(2))
    then show ?thesis using none [of p] by (simp add: honest_sidx_def LoadSidx_def)
  qed
  moreover have "loadMeta (files crashed) (metaPath (cdir crashed)) = Inl MetaMissing"
    using none [of "metaPath ''d''"] by (simp add: loadMeta_def f(2) metaPath_def)
  moreover have "rec_op_ok (Plain sample_entry)" "all_visible (decs crashed) [Plain sample_entry]"
    by (simp_all add: all_visible_def rec_view_def entryVisible_def rec_op_ok_def sample_entry_def validSegmentOp_def)
  moreover have "sealedSegs crashed = []" "sidxMap crashed = []" by (simp_all add: crashed_def empty_coll_def)
  ultimately show ?thesis using d none [of "compactManifestPath ''d''"] by (simp add: recoverable_def f(2) compactManifestPath_def)
qed

lemma contains_sub_set: "contains_sub pat s \<Longrightarrow> set pat \<subseteq> set s"
proof (induction s)
  case (Cons x s)
  then show ?case using set_take_subset [of "length pat" "x # s"] by auto
qed simp

lemma crashed_plain: "no_encryption crashed [[Plain sample_entry]]"
proof -
  have dc: "CHR 0x5C \<noteq> digit_char n" if "n < 10" for n
  proof
    assume "CHR 0x5C = digit_char n"
    then have "of_char (CHR 0x5C) = (48 + n :: nat)" using of_char_digit_char [OF that] by simp
    then show False using that by simp
  qed
  have "CHR 0x5C \<notin> set (rec_line (Plain sample_entry))"
    by (simp add: rec_line_def rec_bytes_def Encode_def sample_checksum)
      (simp add: sample_entry_def empty_entry_def entry_json_def fmt_time_0 data_member_def json_nat_def nat_member_def
        int_member_def OpInsert_def quote_def show_nat_def digits_rev.simps esc_byte_def sign_str_def dc)
  then have "CHR 0x5C \<notin> set (file_of rec_line [Plain sample_entry])" by simp
  then have "\<not> contains_sub encryptionMarkerOnDisk (file_of rec_line [Plain sample_entry])"
    using contains_sub_set by (fastforce simp: encryptionMarkerOnDisk_def)
  then show ?thesis
    by (simp add: no_encryption_def crashed_def empty_coll_def sentinelExists_def sentinelPath_def rec_view_def sample_entry_def empty_entry_def)
qed



end
