(* ===== verification/Spec2Isabelle.thy ===== *)
theory Spec2Isabelle
  imports CollectionRuns RecoveryLoad
begin

text \<open>
  A verification development for ScrivaDB, a document database that keeps every collection as a sequence
  of append-only NDJSON segment files.

  \<^bold>\<open>The program.\<close>  \<open>store\<close> encodes one entry (insert, update or delete of a record) as a JSON line with a
  CRC32C checksum.  \<open>engine\<close> appends such lines to the active segment of a collection, rotates it when it
  is full, and keeps a primary index from ids to file offsets and secondary indexes from field values to
  ids.  Indexes are persisted beside the segments with a fingerprint of what they cover and are brought up
  to date or rebuilt when the collection is opened.  A write whose outcome is unknown fences the collection.
  Entries of cross-collection transactions carry a stamp and are visible once their transaction is
  committed.  \<open>query\<close> has the filters and the comparison that scans and indexes share.

  \<^bold>\<open>Theories and sources.\<close>
  \<^item> \<open>Prelude\<close>: Go maps as key-sorted association lists, 64-bit arithmetic, decimal numerals, lines.
  \<^item> \<open>Float64\<close>, \<open>Json\<close>, \<open>Gotime\<close>, \<open>Sha256\<close>: what the code uses of \<open>strconv\<close>, \<open>encoding/json\<close>, \<open>time\<close> and
    \<open>crypto/sha256\<close>.
  \<^item> \<open>Ndjson\<close>: \<open>store/ndjson.go\<close>.  \<open>Wire\<close>: \<open>engine/xtx_wire.go\<close>.  \<open>Segment\<close>: \<open>engine/segment.go\<close>.
  \<^item> \<open>Index\<close>, \<open>IndexFile\<close>: \<open>engine/index.go\<close> and the files of both kinds of index.
    \<open>SecondaryIndex\<close>: \<open>engine/secondary_index.go\<close>.  \<open>Query\<close>: \<open>query/filter.go\<close>.
  \<^item> \<open>Collection\<close>: the operations of \<open>engine/collection.go\<close>, \<open>keys.go\<close>, \<open>ttl.go\<close>, \<open>quota.go\<close>, \<open>fence.go\<close>,
    \<open>meta.go\<close>, \<open>fsync.go\<close> on a record that holds the collection's fields, its files, and two sequences of
    inputs: the readings of the wall clock and the outcomes of file operations.
  \<^item> \<open>CollectionInv\<close>, \<open>CollectionOps\<close>, \<open>CollectionApi\<close>, \<open>CollectionRuns\<close>: the invariant of a collection, the
    contract of each operation, the properties of the interface, and runs of requests.
  \<^item> \<open>Salvage\<close>: \<open>engine/salvage.go\<close>.  \<open>Verify\<close>, \<open>VerifyColl\<close>: \<open>engine/verify.go\<close>, \<open>verify_checks.go\<close>,
    \<open>integrity_policy.go\<close>.  \<open>Manifest\<close>: \<open>engine/compact_manifest.go\<close>.  \<open>MetaFile\<close>: \<open>engine/meta.go\<close>,
    \<open>encryption_integrity.go\<close>.  \<open>Recovery\<close>: \<open>load\<close> in \<open>engine/collection.go\<close> and \<open>engine/index_recovery.go\<close>.
    \<open>RecoveryInv\<close>, \<open>RecoveryPlan\<close>, \<open>RecoveryLoad\<close>: what an open recovers.

  \<^bold>\<open>What is shown.\<close>  Lines and stamped lines decode to what was encoded.  Appends are all or nothing, and
  reopening a segment cuts exactly the torn tail.  Replaying a tail gives the index of a full replay.
  Secondary indexes are exact for lookups and ranges.  Every operation of a collection refines an abstract
  map from ids to versions under any outcomes of the file operations: acknowledged writes are stored and on
  disk, refused ones changed nothing, and after an unknown outcome the collection is fenced and the disk
  holds the old or the new versions.  Runs of requests are answered as that map answers them.  Opening a
  collection, whatever its index files are, gives back the versions the segments describe.  The tolerant
  scanner agrees with the strict one on intact files and accounts for every byte of damaged ones.

  \<^bold>\<open>Modelling choices.\<close>  \<open>uint64\<close> is a natural number reduced modulo \<open>2^64\<close> where the code adds, \<open>int64\<close>
  an integer wrapped where it matters.  Loops are structural recursion; the backward search of a torn
  segment has a termination proof.  There is no fuel.  One operation runs at a time: locks are not modelled.
  The regular-expression engine is an argument of the filters.

  \<^bold>\<open>Not modelled.\<close>  Encryption at rest relies on external cryptography and only its metadata is read.
  Servers, command-line tools, generated code, metrics, tracing and replication transport are input and
  output around the engine.  Goroutines, timers and contexts are left out, so the background loops appear
  only through the operations they call.
\<close>

end
